(* ===== verification/Redline_Prelude.thy ===== *)
theory Redline_Prelude
  imports Main "HOL-Library.Word"
begin

text \<open>
  Shared vocabulary of the development: machine integers, the error type of
  \<^verbatim>\<open>crates/kernel/src/error.rs\<close>, the three-valued outcome of a Rust call, the
  state-and-outcome composition used for methods that take \<^verbatim>\<open>&mut self\<close>, byte slices and
  overwrites of a buffer, and little-endian integer coding with its round-trip laws. The
  collections \<open>result_simps\<close> and \<open>buf_simps\<close> carry the proofs of the component theories.
\<close>

named_theorems result_simps \<open>unfolding of outcome sequencing\<close>
named_theorems buf_simps \<open>reads of overwritten buffers\<close>

section \<open>Machine integers\<close>

type_synonym byte = "8 word"
type_synonym u16 = "16 word"
type_synonym u32 = "32 word"
type_synonym u64 = "64 word"
type_synonym u128 = "128 word"

text \<open>
  \<^verbatim>\<open>usize\<close> is 64 bits wide. Lengths and offsets are natural numbers; where the code can
  leave the range of \<^verbatim>\<open>usize\<close> the checked or wrapping operation is written out. The release
  profile (\<^verbatim>\<open>Cargo.toml\<close>) sets \<^verbatim>\<open>overflow-checks = false\<close>, so plain subtraction wraps.
\<close>

definition usize_bound :: nat where
  "usize_bound = 2 ^ 64"

definition usize_max :: nat where
  "usize_max = usize_bound - 1"

definition checked_add_usize :: "nat \<Rightarrow> nat \<Rightarrow> nat option" where
  "checked_add_usize a b = (if a + b < usize_bound then Some (a + b) else None)"

definition checked_sub_usize :: "nat \<Rightarrow> nat \<Rightarrow> nat option" where
  "checked_sub_usize a b = (if b \<le> a then Some (a - b) else None)"

definition wrapping_sub_usize :: "nat \<Rightarrow> nat \<Rightarrow> nat" where
  "wrapping_sub_usize a b = (a + usize_bound - b) mod usize_bound"

definition wrapping_add_usize :: "nat \<Rightarrow> nat \<Rightarrow> nat" where
  "wrapping_add_usize a b = (a + b) mod usize_bound"

definition saturating_add_word :: "'a::len word \<Rightarrow> 'a word \<Rightarrow> 'a word" where
  "saturating_add_word a b =
     (if unat a + unat b < 2 ^ LENGTH('a) then a + b else - 1)"

definition saturating_sub_word :: "'a::len word \<Rightarrow> 'a word \<Rightarrow> 'a word" where
  "saturating_sub_word a b = (if b \<le> a then a - b else 0)"

lemma usize_bound_pos [simp]: "0 < usize_bound"
  by (simp add: usize_bound_def)

lemma checked_add_usize_small: "a + b < usize_bound \<Longrightarrow> checked_add_usize a b = Some (a + b)"
  by (simp add: checked_add_usize_def)

lemma checked_add_usize_Some [simp]:
  "checked_add_usize a b = Some c \<longleftrightarrow> c = a + b \<and> a + b < usize_bound"
  by (auto simp: checked_add_usize_def)

lemma wrapping_sub_usize_le: "b \<le> a \<Longrightarrow> a < usize_bound \<Longrightarrow> wrapping_sub_usize a b = a - b"
proof -
  assume "b \<le> a" and "a < usize_bound"
  then have "a + usize_bound - b = (a - b) + usize_bound" and "a - b < usize_bound" by simp_all
  then show ?thesis by (simp only: wrapping_sub_usize_def mod_add_self2 mod_less)
qed

section \<open>Outcomes\<close>

text \<open>
  The variants of \<^verbatim>\<open>kernel::Error\<close>. An \<^verbatim>\<open>io::Error\<close> is kept as the name of its kind,
  which is all that the hand-written \<^verbatim>\<open>PartialEq\<close> of the source compares.
\<close>

datatype error =
    Io string
  | InvalidChecksum
  | InvalidMagic u32 u32
  | UnsupportedVersion u16
  | BufferTooSmall nat nat
  | CorruptPage string
  | CorruptWal string
  | PageFull
  | RecordTooLarge nat nat
  | NotVisible
  | WriteConflict
  | LockTimeout
  | SerializationFailure
  | UnsupportedIsolation
  | TransactionClosed
  | CatalogCorrupt string
  | ObjectExists
  | ObjectNotFound
  | ColumnNotFound
  | SchemaChanged
  | ConstraintViolation string
  | DatatypeMismatch
  | UnsupportedDdl string
  | InvalidRecord string
  | InvalidJsonb string
  | InvalidJsonPath string
  | Vector string

text \<open>
  A call returns a value, returns an error, or panics (out-of-range indexing, an impossible
  allocation). The release profile aborts the process on a panic.
\<close>

datatype 'a result = Ok 'a | Err error | Panic

fun rbind :: "'a result \<Rightarrow> ('a \<Rightarrow> 'b result) \<Rightarrow> 'b result" where
  "rbind (Ok x) f = f x"
| "rbind (Err e) f = Err e"
| "rbind Panic f = Panic"

definition ok_or :: "error \<Rightarrow> 'a option \<Rightarrow> 'a result" where
  "ok_or e x = (case x of None \<Rightarrow> Err e | Some y \<Rightarrow> Ok y)"

fun is_ok :: "'a result \<Rightarrow> bool" where
  "is_ok (Ok _) = True"
| "is_ok _ = False"

lemma rbind_Ok_iff [simp]: "rbind m f = Ok y \<longleftrightarrow> (\<exists>x. m = Ok x \<and> f x = Ok y)"
  by (cases m) auto

lemma rbind_assoc: "rbind (rbind m f) g = rbind m (\<lambda>x. rbind (f x) g)"
  by (cases m) auto

lemma ok_or_simps [simp, result_simps]: "ok_or e None = Err e" "ok_or e (Some x) = Ok x"
  by (simp_all add: ok_or_def)

lemma ok_or_Ok_iff [simp]: "ok_or e x = Ok y \<longleftrightarrow> x = Some y"
  by (cases x) auto

lemma is_ok_iff: "is_ok m \<longleftrightarrow> (\<exists>x. m = Ok x)"
  by (cases m) auto

declare rbind.simps [result_simps]

text \<open>
  A method on \<^verbatim>\<open>&mut self\<close> is a function from the state to the outcome and the state it
  leaves behind, also on the error paths.
\<close>

type_synonym ('s, 'a) action = "'s \<Rightarrow> 'a result \<times> 's"

definition areturn :: "'a \<Rightarrow> ('s, 'a) action" where
  "areturn x s = (Ok x, s)"

definition alift :: "('s \<Rightarrow> 'a result) \<Rightarrow> ('s, 'a) action" where
  "alift f s = (f s, s)"

definition aupdate :: "('s \<Rightarrow> 's result) \<Rightarrow> ('s, unit) action" where
  "aupdate f s = (case f s of Ok s' \<Rightarrow> (Ok (), s') | Err e \<Rightarrow> (Err e, s) | Panic \<Rightarrow> (Panic, s))"

definition abind :: "('s, 'a) action \<Rightarrow> ('a \<Rightarrow> ('s, 'b) action) \<Rightarrow> ('s, 'b) action" where
  "abind m f s = (case m s of (Ok x, s') \<Rightarrow> f x s' | (Err e, s') \<Rightarrow> (Err e, s') | (Panic, s') \<Rightarrow> (Panic, s'))"

lemma areturn_eq [result_simps]: "areturn x s = (Ok x, s)"
  by (simp add: areturn_def)

lemma alift_eq [result_simps]: "alift f s = (f s, s)"
  by (simp add: alift_def)

lemma aupdate_Ok [result_simps]: "f s = Ok s' \<Longrightarrow> aupdate f s = (Ok (), s')"
  by (simp add: aupdate_def)

lemma abind_Ok [result_simps]: "m s = (Ok x, s') \<Longrightarrow> abind m f s = f x s'"
  by (simp add: abind_def)

lemma abind_Err [result_simps]: "m s = (Err e, s') \<Longrightarrow> abind m f s = (Err e, s')"
  by (simp add: abind_def)

text \<open>\<^verbatim>\<open>Vec::push\<close> panics when the capacity would exceed \<^verbatim>\<open>isize::MAX\<close>.\<close>

definition isize_max :: nat where "isize_max = 2 ^ 63 - 1"

definition vec_push :: "'a list \<Rightarrow> 'a \<Rightarrow> 'a list result" where
  "vec_push xs x = (if length xs < isize_max then Ok (xs @ [x]) else Panic)"

text \<open>
  \<^verbatim>\<open>Vec::with_capacity(n)\<close> for elements of \<open>sz\<close> bytes panics when the allocation would
  exceed \<^verbatim>\<open>isize::MAX\<close> bytes; a smaller allocation is taken to succeed.
\<close>

definition vec_with_capacity :: "nat \<Rightarrow> nat \<Rightarrow> unit result" where
  "vec_with_capacity sz n = (if n * sz \<le> isize_max then Ok () else Panic)"

section \<open>Slices and overwrites\<close>

definition bslice :: "'a list \<Rightarrow> nat \<Rightarrow> nat \<Rightarrow> 'a list" where
  "bslice xs off n = take n (drop off xs)"

text \<open>The Rust slice \<^verbatim>\<open>&xs[a..b]\<close>, which panics outside the buffer.\<close>

definition slice_range :: "'a list \<Rightarrow> nat \<Rightarrow> nat \<Rightarrow> 'a list result" where
  "slice_range xs a b = (if a \<le> b \<and> b \<le> length xs then Ok (bslice xs a (b - a)) else Panic)"

text \<open>The Rust index expression \<^verbatim>\<open>xs[i]\<close>.\<close>

definition index_at :: "'a list \<Rightarrow> nat \<Rightarrow> 'a result" where
  "index_at xs i = (if i < length xs then Ok (xs ! i) else Panic)"

text \<open>\<^verbatim>\<open>buf[off..off + bs.len()].copy_from_slice(bs)\<close> inside the buffer.\<close>

definition overwrite :: "'a list \<Rightarrow> nat \<Rightarrow> 'a list \<Rightarrow> 'a list" where
  "overwrite xs off ys = take (length xs) (take off xs @ ys @ drop (off + length ys) xs)"

lemma overwrite_in:
  "off + length ys \<le> length xs \<Longrightarrow> overwrite xs off ys = take off xs @ ys @ drop (off + length ys) xs"
  by (simp add: overwrite_def)

lemma length_bslice: "length (bslice xs off n) = min n (length xs - off)"
  by (simp add: bslice_def)

lemma length_bslice_in [buf_simps]: "off + n \<le> length xs \<Longrightarrow> length (bslice xs off n) = n"
  by (simp add: length_bslice)

lemma length_overwrite [simp, buf_simps]: "length (overwrite xs off ys) = length xs"
  by (simp add: overwrite_def)

lemma bslice_overwrite_same [buf_simps]:
  "off + length ys \<le> length xs \<Longrightarrow> n = length ys \<Longrightarrow> bslice (overwrite xs off ys) off n = ys"
  by (simp add: bslice_def overwrite_in)

lemma bslice_overwrite_before [buf_simps]:
  "off + length ys \<le> length xs \<Longrightarrow> off' + n \<le> off \<Longrightarrow>
     bslice (overwrite xs off ys) off' n = bslice xs off' n"
  by (simp add: bslice_def overwrite_in drop_take)

lemma bslice_overwrite_after [buf_simps]:
  "off + length ys \<le> length xs \<Longrightarrow> off + length ys \<le> off' \<Longrightarrow>
     bslice (overwrite xs off ys) off' n = bslice xs off' n"
  by (simp add: bslice_def overwrite_in)

lemma bslice_overwrite_inside:
  "off + length ys \<le> length xs \<Longrightarrow> off \<le> off' \<Longrightarrow> off' + n \<le> off + length ys \<Longrightarrow>
     bslice (overwrite xs off ys) off' n = bslice ys (off' - off) n"
  by (simp add: bslice_def overwrite_in)

lemma bslice_bslice:
  "a + m \<le> n \<Longrightarrow> bslice (bslice xs off n) a m = bslice xs (off + a) m"
  by (simp add: bslice_def drop_take min_def add.commute)

lemma bslice_all [simp]: "bslice xs 0 (length xs) = xs"
  by (simp add: bslice_def)

lemma bslice_append_left: "off + n \<le> length xs \<Longrightarrow> bslice (xs @ ys) off n = bslice xs off n"
  by (simp add: bslice_def)

lemma bslice_append_right:
  "length xs \<le> off \<Longrightarrow> bslice (xs @ ys) off n = bslice ys (off - length xs) n"
  by (simp add: bslice_def)

lemma bslice_prefix [simp]: "bslice (xs @ ys) 0 (length xs) = xs"
  by (simp add: bslice_def)

lemma bslice_split: "bslice xs off (m + n) = bslice xs off m @ bslice xs (off + m) n"
  by (simp add: bslice_def take_add add.commute)

lemma nth_overwrite:
  "off + length ys \<le> length xs \<Longrightarrow> i < length xs \<Longrightarrow>
     overwrite xs off ys ! i = (if off \<le> i \<and> i < off + length ys then ys ! (i - off) else xs ! i)"
  by (auto simp: overwrite_in nth_append)

lemma nth_bslice: "i < n \<Longrightarrow> off + n \<le> length xs \<Longrightarrow> bslice xs off n ! i = xs ! (off + i)"
  by (simp add: bslice_def)

lemma bslice_single: "i < length xs \<Longrightarrow> bslice xs i 1 = [xs ! i]"
  by (simp add: bslice_def take_Suc hd_drop_conv_nth)

lemma nth_via_bslice: "i < length xs \<Longrightarrow> xs ! i = hd (bslice xs i 1)"
  by (simp only: bslice_single list.sel)

lemma list_update_overwrite: "i < length xs \<Longrightarrow> xs[i := x] = overwrite xs i [x]"
  by (simp add: overwrite_in upd_conv_take_nth_drop)

lemma take_overwrite_before:
  "off + length ys \<le> length xs \<Longrightarrow> n \<le> off \<Longrightarrow> take n (overwrite xs off ys) = take n xs"
  by (simp add: overwrite_in)

lemma drop_overwrite_after:
  "off + length ys \<le> length xs \<Longrightarrow> off + length ys \<le> n \<Longrightarrow> drop n (overwrite xs off ys) = drop n xs"
  by (simp add: overwrite_in)

lemma slice_range_Ok [result_simps]:
  "a \<le> b \<Longrightarrow> b \<le> length xs \<Longrightarrow> slice_range xs a b = Ok (bslice xs a (b - a))"
  by (simp add: slice_range_def)

lemma slice_range_Ok_iff:
  "slice_range xs a b = Ok ys \<longleftrightarrow> a \<le> b \<and> b \<le> length xs \<and> ys = bslice xs a (b - a)"
  by (auto simp: slice_range_def)

lemma rbind_Panic_iff: "rbind m f = Panic \<longleftrightarrow> m = Panic \<or> (\<exists>x. m = Ok x \<and> f x = Panic)"
  by (cases m) auto

lemma rbind_Err_iff: "rbind m f = Err e \<longleftrightarrow> m = Err e \<or> (\<exists>x. m = Ok x \<and> f x = Err e)"
  by (cases m) auto

lemma ok_or_Panic_iff: "ok_or e x = Panic \<longleftrightarrow> False"
  by (cases x) auto

lemma slice_range_Panic_iff: "slice_range xs a b = Panic \<longleftrightarrow> \<not> (a \<le> b \<and> b \<le> length xs)"
  by (simp add: slice_range_def)

lemmas panic_simps = rbind_Panic_iff ok_or_Panic_iff slice_range_Panic_iff

section \<open>Little-endian coding\<close>

fun le_bytes :: "nat \<Rightarrow> nat \<Rightarrow> byte list" where
  "le_bytes 0 x = []"
| "le_bytes (Suc n) x = word_of_nat x # le_bytes n (x div 256)"

fun le_val :: "byte list \<Rightarrow> nat" where
  "le_val [] = 0"
| "le_val (b # bs) = unat b + 256 * le_val bs"

definition to_le_bytes :: "'a::len word \<Rightarrow> byte list" where
  "to_le_bytes w = le_bytes (LENGTH('a) div 8) (unat w)"

definition from_le_bytes :: "byte list \<Rightarrow> 'a::len word" where
  "from_le_bytes bs = word_of_nat (le_val bs)"

definition to_be_bytes :: "'a::len word \<Rightarrow> byte list" where
  "to_be_bytes w = rev (to_le_bytes w)"

lemma unat_word_bound: "unat (w :: 'a::len word) < 2 ^ LENGTH('a)"
  by (rule unsigned_less)

lemma unat_byte_of_nat [simp]: "unat (word_of_nat x :: byte) = x mod 256"
  by (simp add: unat_of_nat)

lemma length_le_bytes [simp]: "length (le_bytes n x) = n"
  by (induction n arbitrary: x) auto

lemma le_val_le_bytes: "le_val (le_bytes n x) = x mod 256 ^ n"
proof (induction n arbitrary: x)
  case 0
  then show ?case by simp
next
  case (Suc n)
  have "x mod (256 * 256 ^ n) = 256 * (x div 256 mod 256 ^ n) + x mod 256"
    by (rule mod_mult2_eq)
  with Suc.IH show ?case by simp
qed

lemma le_val_bound: "le_val bs < 256 ^ length bs"
proof (induction bs)
  case (Cons b bs)
  have "unat b < 256" using unat_word_bound [of b] by simp
  then have "unat b + 256 * le_val bs < 256 * (le_val bs + 1)" by simp
  also have "256 * (le_val bs + 1) \<le> 256 * 256 ^ length bs"
    using Cons.IH by (intro mult_le_mono2) linarith
  finally show ?case by (simp only: le_val.simps length_Cons power_Suc)
qed simp

lemma le_bytes_le_val: "le_bytes (length bs) (le_val bs) = bs"
proof (induction bs)
  case (Cons b bs)
  have "unat b < 256" using unat_word_bound [of b] by simp
  then have "(unat b + 256 * le_val bs) div 256 = le_val bs" by simp
  moreover have "(word_of_nat (unat b + 256 * le_val bs) :: byte) = b"
  proof (rule word_unat_eq_iff [THEN iffD2])
    show "unat (word_of_nat (unat b + 256 * le_val bs) :: byte) = unat b"
      using \<open>unat b < 256\<close> by (simp only: unat_byte_of_nat) simp
  qed
  ultimately show ?case using Cons.IH by (simp only: le_val.simps le_bytes.simps length_Cons)
qed simp

lemma from_to_le_bytes:
  assumes "8 dvd LENGTH('a)"
  shows "from_le_bytes (to_le_bytes (w :: 'a::len word)) = w"
proof -
  have "(256::nat) ^ (LENGTH('a) div 8) = 2 ^ (8 * (LENGTH('a) div 8))"
    by (simp add: power_mult)
  also have "8 * (LENGTH('a) div 8) = LENGTH('a)" using assms by simp
  finally have "unat w mod 256 ^ (LENGTH('a) div 8) = unat w"
    using unat_word_bound [of w] by simp
  then show ?thesis
    unfolding from_le_bytes_def to_le_bytes_def le_val_le_bytes by simp
qed

lemma to_from_le_bytes:
  assumes "length bs = LENGTH('a::len) div 8" and "8 dvd LENGTH('a)"
  shows "to_le_bytes (from_le_bytes bs :: 'a word) = bs"
proof -
  have "(256::nat) ^ (LENGTH('a) div 8) = 2 ^ LENGTH('a)"
    using assms(2) power_mult [of "2::nat" 8 "LENGTH('a) div 8"] by simp
  then have "le_val bs < 2 ^ LENGTH('a)" using le_val_bound [of bs] assms(1) by simp
  then have "unat (word_of_nat (le_val bs) :: 'a word) = le_val bs"
    by (simp add: unat_of_nat)
  then show ?thesis
    using le_bytes_le_val [of bs] assms(1) by (simp add: to_le_bytes_def from_le_bytes_def)
qed

lemma from_to_le_u16 [simp]: "from_le_bytes (to_le_bytes (w :: u16)) = w"
  by (rule from_to_le_bytes) simp

lemma from_to_le_u32 [simp]: "from_le_bytes (to_le_bytes (w :: u32)) = w"
  by (rule from_to_le_bytes) simp

lemma from_to_le_u64 [simp]: "from_le_bytes (to_le_bytes (w :: u64)) = w"
  by (rule from_to_le_bytes) simp

lemma length_to_le_bytes: "length (to_le_bytes (w :: 'a::len word)) = LENGTH('a) div 8"
  by (simp add: to_le_bytes_def)

lemma length_to_le_u16 [simp]: "length (to_le_bytes (w :: u16)) = 2"
  by (simp add: length_to_le_bytes)

lemma length_to_le_u32 [simp]: "length (to_le_bytes (w :: u32)) = 4"
  by (simp add: length_to_le_bytes)

lemma length_to_le_u64 [simp]: "length (to_le_bytes (w :: u64)) = 8"
  by (simp add: length_to_le_bytes)

lemma unat_u32_of_nat: "n < 4294967296 \<Longrightarrow> unat (word_of_nat n :: u32) = n"
  by (simp add: unat_of_nat)

lemma unat_u16_of_nat: "n < 65536 \<Longrightarrow> unat (word_of_nat n :: u16) = n"
  by (simp add: unat_of_nat)

lemma unat_u64_of_nat: "n < 2 ^ 64 \<Longrightarrow> unat (word_of_nat n :: u64) = n"
  by (simp add: unat_of_nat)

lemma unat_u16_bound [simp]: "unat (w :: u16) < 65536"
  using unat_word_bound [of w] by simp

lemma unat_u32_bound [simp]: "unat (w :: u32) < 4294967296"
  using unat_word_bound [of w] by simp

end
