(* ===== verification/Format_Bytes.thy ===== *)
theory Format_Bytes
  imports Redline_Prelude
begin

text \<open>
  \<^verbatim>\<open>crates/kernel/src/format/bytes.rs\<close> and \<^verbatim>\<open>format/ids.rs\<close>: bounds-checked reads and
  writes of fixed-width little-endian integers, the checksum of a buffer whose checksum field
  counts as zero, and the identifier types. The CRC-32 of the \<^verbatim>\<open>crc32fast\<close> crate is the
  parameter \<open>crc\<close>; a \<^verbatim>\<open>Hasher\<close> that is fed several chunks digests their concatenation.
\<close>

type_synonym crc_fn = "byte list \<Rightarrow> u32"

section \<open>Identifiers\<close>

type_synonym page_id = u64
type_synonym rel_id = u64
type_synonym lsn = u64
type_synonym tx_id = u64
type_synonym csn = u64
type_synonym row_id = u64
type_synonym undo_ptr = u64
type_synonym timeline_id = u64
type_synonym wal_segment_no = u64
type_synonym backup_id = u128
type_synonym page_generation = u32

definition decode_opt_page_id :: "u64 \<Rightarrow> page_id option" where
  "decode_opt_page_id raw = (if raw = - 1 then None else Some raw)"

definition generation_next :: "page_generation \<Rightarrow> page_generation" where
  "generation_next g = saturating_add_word g 1"

record tuple_ptr =
  tp_page_id :: page_id
  tp_slot :: u16
  tp_generation :: page_generation

definition tuple_ptr_null :: tuple_ptr where
  "tuple_ptr_null = \<lparr>tp_page_id = 0, tp_slot = - 1, tp_generation = 0\<rparr>"

definition tuple_ptr_new :: "page_id \<Rightarrow> u16 \<Rightarrow> tuple_ptr" where
  "tuple_ptr_new pid slot = \<lparr>tp_page_id = pid, tp_slot = slot, tp_generation = 1\<rparr>"

definition tuple_ptr_is_null :: "tuple_ptr \<Rightarrow> bool" where
  "tuple_ptr_is_null p \<longleftrightarrow> tp_page_id p = 0 \<and> tp_slot p = - 1"

section \<open>Checked reads and writes\<close>

definition read_array :: "nat \<Rightarrow> byte list \<Rightarrow> nat \<Rightarrow> byte list result" where
  "read_array n buf offset =
     (case checked_add_usize offset n of
        None \<Rightarrow> Err (BufferTooSmall usize_max (length buf))
      | Some end' \<Rightarrow>
          if end' > length buf then Err (BufferTooSmall end' (length buf))
          else Ok (bslice buf offset n))"

definition read_u16 :: "byte list \<Rightarrow> nat \<Rightarrow> u16 result" where
  "read_u16 buf offset = rbind (read_array 2 buf offset) (\<lambda>bs. Ok (from_le_bytes bs))"

definition read_u32 :: "byte list \<Rightarrow> nat \<Rightarrow> u32 result" where
  "read_u32 buf offset = rbind (read_array 4 buf offset) (\<lambda>bs. Ok (from_le_bytes bs))"

definition read_u64 :: "byte list \<Rightarrow> nat \<Rightarrow> u64 result" where
  "read_u64 buf offset = rbind (read_array 8 buf offset) (\<lambda>bs. Ok (from_le_bytes bs))"

text \<open>A write returns the buffer it leaves; on an error the buffer is untouched.\<close>

definition write_bytes :: "byte list \<Rightarrow> nat \<Rightarrow> byte list \<Rightarrow> byte list result" where
  "write_bytes buf offset bs =
     (case checked_add_usize offset (length bs) of
        None \<Rightarrow> Err (BufferTooSmall usize_max (length buf))
      | Some end' \<Rightarrow>
          if end' > length buf then Err (BufferTooSmall end' (length buf))
          else Ok (overwrite buf offset bs))"

definition write_u16 :: "byte list \<Rightarrow> nat \<Rightarrow> u16 \<Rightarrow> byte list result" where
  "write_u16 buf offset v = write_bytes buf offset (to_le_bytes v)"

definition write_u32 :: "byte list \<Rightarrow> nat \<Rightarrow> u32 \<Rightarrow> byte list result" where
  "write_u32 buf offset v = write_bytes buf offset (to_le_bytes v)"

definition write_u64 :: "byte list \<Rightarrow> nat \<Rightarrow> u64 \<Rightarrow> byte list result" where
  "write_u64 buf offset v = write_bytes buf offset (to_le_bytes v)"

definition crc32_with_zeroed_field :: "crc_fn \<Rightarrow> byte list \<Rightarrow> nat \<Rightarrow> u32 result" where
  "crc32_with_zeroed_field crc bytes checksum_offset =
     rbind (slice_range bytes 0 checksum_offset) (\<lambda>before.
     rbind (slice_range bytes (checksum_offset + 4) (length bytes)) (\<lambda>after.
     Ok (crc (before @ [0, 0, 0, 0] @ after))))"

section \<open>Laws\<close>

text \<open>
  Buffers are at most \<^verbatim>\<open>isize::MAX\<close> bytes long, so an access inside the buffer never
  overflows \<^verbatim>\<open>usize\<close>. The laws carry that bound as \<open>length buf < usize_bound\<close>.
\<close>

lemma read_array_in [buf_simps]:
  "off + n \<le> length buf \<Longrightarrow> length buf < usize_bound \<Longrightarrow> read_array n buf off = Ok (bslice buf off n)"
  by (simp add: read_array_def checked_add_usize_def)

lemma read_array_out:
  "length buf < off + n \<Longrightarrow> \<exists>e. read_array n buf off = Err e"
  by (auto simp: read_array_def split: option.splits)

lemma write_bytes_in [buf_simps]:
  "off + length bs \<le> length buf \<Longrightarrow> length buf < usize_bound \<Longrightarrow>
     write_bytes buf off bs = Ok (overwrite buf off bs)"
  by (simp add: write_bytes_def checked_add_usize_def)

lemma write_bytes_out:
  "length buf < off + length bs \<Longrightarrow> \<exists>e. write_bytes buf off bs = Err e"
  by (auto simp: write_bytes_def split: option.splits)

lemma write_bytes_Ok_iff:
  "write_bytes buf off bs = Ok buf' \<longleftrightarrow>
     off + length bs \<le> length buf \<and> off + length bs < usize_bound \<and> buf' = overwrite buf off bs"
  by (auto simp: write_bytes_def checked_add_usize_def split: if_splits)

lemma read_u16_in [buf_simps]:
  "off + 2 \<le> length buf \<Longrightarrow> length buf < usize_bound \<Longrightarrow> read_u16 buf off = Ok (from_le_bytes (bslice buf off 2))"
  by (simp add: read_u16_def read_array_in)

lemma read_u32_in [buf_simps]:
  "off + 4 \<le> length buf \<Longrightarrow> length buf < usize_bound \<Longrightarrow> read_u32 buf off = Ok (from_le_bytes (bslice buf off 4))"
  by (simp add: read_u32_def read_array_in)

lemma read_u64_in [buf_simps]:
  "off + 8 \<le> length buf \<Longrightarrow> length buf < usize_bound \<Longrightarrow> read_u64 buf off = Ok (from_le_bytes (bslice buf off 8))"
  by (simp add: read_u64_def read_array_in)

lemma write_u16_in [buf_simps]:
  "off + 2 \<le> length buf \<Longrightarrow> length buf < usize_bound \<Longrightarrow> write_u16 buf off v = Ok (overwrite buf off (to_le_bytes v))"
  by (simp add: write_u16_def write_bytes_in)

lemma write_u32_in [buf_simps]:
  "off + 4 \<le> length buf \<Longrightarrow> length buf < usize_bound \<Longrightarrow> write_u32 buf off v = Ok (overwrite buf off (to_le_bytes v))"
  by (simp add: write_u32_def write_bytes_in)

lemma write_u64_in [buf_simps]:
  "off + 8 \<le> length buf \<Longrightarrow> length buf < usize_bound \<Longrightarrow> write_u64 buf off v = Ok (overwrite buf off (to_le_bytes v))"
  by (simp add: write_u64_def write_bytes_in)

lemma read_never_panics [simp]:
  "read_array n buf off \<noteq> Panic" "read_u16 buf off \<noteq> Panic"
  "read_u32 buf off \<noteq> Panic" "read_u64 buf off \<noteq> Panic"
  by (auto simp: read_array_def read_u16_def read_u32_def read_u64_def split: option.splits)

lemma crc32_with_zeroed_field_in [buf_simps]:
  "off + 4 \<le> length bs \<Longrightarrow>
     crc32_with_zeroed_field crc bs off = Ok (crc (take off bs @ [0, 0, 0, 0] @ drop (off + 4) bs))"
  by (simp add: crc32_with_zeroed_field_def slice_range_def bslice_def)

text \<open>The value stored in the checksum field does not enter the checksum.\<close>

lemma crc32_with_zeroed_field_overwrite:
  "off + 4 \<le> length bs \<Longrightarrow> length ys = 4 \<Longrightarrow>
     crc32_with_zeroed_field crc (overwrite bs off ys) off = crc32_with_zeroed_field crc bs off"
  by (simp add: crc32_with_zeroed_field_in take_overwrite_before drop_overwrite_after)

section \<open>Interface of the fixed-layout codecs\<close>

text \<open>
  Every on-disk structure of the kernel is a pair of an encoder and a decoder. What the
  storage layers rely on is that a successful encoding decodes to the value that was encoded,
  on the domain \<open>dom\<close> of values the format can represent. Uniqueness of encodings follows.
\<close>

locale byte_codec =
  fixes encode :: "'a \<Rightarrow> byte list result"
    and decode :: "byte list \<Rightarrow> 'a result"
    and dom :: "'a \<Rightarrow> bool"
  assumes encode_total: "dom x \<Longrightarrow> \<exists>bs. encode x = Ok bs"
    and decode_encode: "dom x \<Longrightarrow> encode x = Ok bs \<Longrightarrow> decode bs = Ok x"
begin

lemma encode_inj: "dom x \<Longrightarrow> dom y \<Longrightarrow> encode x = encode y \<Longrightarrow> x = y"
  using encode_total decode_encode by (metis result.inject(1))

lemma rbind_decode_encode: "dom x \<Longrightarrow> rbind (encode x) decode = Ok x"
  using encode_total decode_encode by fastforce

end

end
