(* ===== verification/Format_Page.thy ===== *)
theory Format_Page
  imports Format_Bytes
begin

text \<open>
  \<^verbatim>\<open>crates/kernel/src/format/page.rs\<close> and \<^verbatim>\<open>format/page/methods/\<close>: the slotted page. A page
  is a byte buffer with a 64-byte header, a slot directory growing upwards from the header, cell
  bodies growing downwards from the special area, and a CRC-32 over the whole buffer. The
  abstract view of a page is the list of its cells; the operations on the buffer are shown to
  implement insertion, deletion and replacement in that list.
\<close>

section \<open>Layout constants and tags\<close>

definition DEFAULT_PAGE_SIZE :: nat where "DEFAULT_PAGE_SIZE = 16 * 1024"
definition PAGE_MAGIC :: u32 where "PAGE_MAGIC = 0x52445047"
definition PAGE_FORMAT_VERSION :: u16 where "PAGE_FORMAT_VERSION = 1"

abbreviation PAGE_HEADER_LEN :: nat where "PAGE_HEADER_LEN \<equiv> 64"
abbreviation SLOT_LEN :: nat where "SLOT_LEN \<equiv> 4"
abbreviation PAGE_CHECKSUM_OFFSET :: nat where "PAGE_CHECKSUM_OFFSET \<equiv> 8"

datatype page_state = NeverAllocated | Reusable | Active | Retired | Quarantined | Invalid

fun page_state_as_u8 :: "page_state \<Rightarrow> byte" where
  "page_state_as_u8 NeverAllocated = 0"
| "page_state_as_u8 Reusable = 1"
| "page_state_as_u8 Active = 2"
| "page_state_as_u8 Retired = 3"
| "page_state_as_u8 Quarantined = 4"
| "page_state_as_u8 Invalid = 255"

definition page_state_from_u8 :: "byte \<Rightarrow> page_state result" where
  "page_state_from_u8 v =
     (if v = 0 then Ok NeverAllocated
      else if v = 1 then Ok Reusable
      else if v = 2 then Ok Active
      else if v = 3 then Ok Retired
      else if v = 4 then Ok Quarantined
      else if v = 255 then Ok Invalid
      else Err (CorruptPage ''unknown page state''))"

datatype page_kind =
    Meta | Heap | Undo | TxnStatus | FreeSpace | Visibility | BtreeInternal | BtreeLeaf | BtreeMeta

fun page_kind_as_u16 :: "page_kind \<Rightarrow> u16" where
  "page_kind_as_u16 Meta = 1"
| "page_kind_as_u16 Heap = 2"
| "page_kind_as_u16 Undo = 3"
| "page_kind_as_u16 TxnStatus = 4"
| "page_kind_as_u16 FreeSpace = 5"
| "page_kind_as_u16 Visibility = 6"
| "page_kind_as_u16 BtreeInternal = 7"
| "page_kind_as_u16 BtreeLeaf = 8"
| "page_kind_as_u16 BtreeMeta = 9"

definition page_kind_from_u16 :: "u16 \<Rightarrow> page_kind result" where
  "page_kind_from_u16 v =
     (if v = 1 then Ok Meta
      else if v = 2 then Ok Heap
      else if v = 3 then Ok Undo
      else if v = 4 then Ok TxnStatus
      else if v = 5 then Ok FreeSpace
      else if v = 6 then Ok Visibility
      else if v = 7 then Ok BtreeInternal
      else if v = 8 then Ok BtreeLeaf
      else if v = 9 then Ok BtreeMeta
      else Err (CorruptPage ''unknown page kind''))"

lemma page_state_roundtrip [simp]: "page_state_from_u8 (page_state_as_u8 s) = Ok s"
  by (cases s) (simp_all add: page_state_from_u8_def)

lemma page_kind_roundtrip [simp]: "page_kind_from_u16 (page_kind_as_u16 k) = Ok k"
  by (cases k) (simp_all add: page_kind_from_u16_def)

section \<open>Page and header\<close>

record page_header =
  ph_kind :: page_kind
  ph_page_id :: page_id
  ph_rel_id :: rel_id
  ph_page_lsn :: lsn
  ph_generation :: page_generation
  ph_state :: page_state
  ph_free_class_hint :: byte
  ph_dead_bytes_hint :: u16
  ph_horizon_csn_hint :: u64
  ph_lower :: u16
  ph_upper :: u16
  ph_special :: u16
  ph_flags :: u16

record page =
  pg_bytes :: "byte list"

definition checksum_page_bytes :: "crc_fn \<Rightarrow> byte list \<Rightarrow> u32 result" where
  "checksum_page_bytes crc bytes = crc32_with_zeroed_field crc bytes PAGE_CHECKSUM_OFFSET"

definition header :: "page \<Rightarrow> page_header result" where
  "header p = (let b = pg_bytes p in
     rbind (read_u32 b 0) (\<lambda>magic.
     if magic \<noteq> PAGE_MAGIC then Err (InvalidMagic PAGE_MAGIC magic) else
     rbind (read_u16 b 4) (\<lambda>version.
     if version \<noteq> PAGE_FORMAT_VERSION then Err (UnsupportedVersion version) else
     rbind (read_u16 b 6) (\<lambda>raw_kind.
     rbind (page_kind_from_u16 raw_kind) (\<lambda>kind.
     rbind (read_u64 b 16) (\<lambda>page_id.
     rbind (read_u64 b 24) (\<lambda>rel_id.
     rbind (read_u64 b 32) (\<lambda>page_lsn.
     rbind (read_u32 b 48) (\<lambda>generation.
     rbind (index_at b 52) (\<lambda>raw_state.
     rbind (page_state_from_u8 raw_state) (\<lambda>state.
     rbind (index_at b 53) (\<lambda>free_class_hint.
     rbind (read_u16 b 54) (\<lambda>dead_bytes_hint.
     rbind (read_u64 b 56) (\<lambda>horizon_csn_hint.
     rbind (read_u16 b 40) (\<lambda>lower.
     rbind (read_u16 b 42) (\<lambda>upper.
     rbind (read_u16 b 44) (\<lambda>special.
     rbind (read_u16 b 46) (\<lambda>flags.
     Ok \<lparr>ph_kind = kind, ph_page_id = page_id, ph_rel_id = rel_id, ph_page_lsn = page_lsn,
         ph_generation = generation, ph_state = state, ph_free_class_hint = free_class_hint,
         ph_dead_bytes_hint = dead_bytes_hint, ph_horizon_csn_hint = horizon_csn_hint,
         ph_lower = lower, ph_upper = upper, ph_special = special, ph_flags = flags\<rparr>))))))))))))))))))"

text \<open>In-place stores into the page buffer.\<close>

definition store :: "(byte list \<Rightarrow> byte list result) \<Rightarrow> (page, unit) action" where
  "store f = aupdate (\<lambda>p. rbind (f (pg_bytes p)) (\<lambda>b. Ok (p\<lparr>pg_bytes := b\<rparr>)))"

definition set_index :: "byte list \<Rightarrow> nat \<Rightarrow> byte \<Rightarrow> byte list result" where
  "set_index b i v = (if i < length b then Ok (b[i := v]) else Panic)"

text \<open>\<^verbatim>\<open>slice::copy_within(src_start..src_end, dest)\<close>.\<close>

definition copy_within :: "byte list \<Rightarrow> nat \<Rightarrow> nat \<Rightarrow> nat \<Rightarrow> byte list result" where
  "copy_within b src_start src_end dest =
     (if src_start \<le> src_end \<and> src_end \<le> length b \<and> dest + (src_end - src_start) \<le> length b
      then Ok (overwrite b dest (bslice b src_start (src_end - src_start))) else Panic)"

definition write_header :: "page_header \<Rightarrow> (page, unit) action" where
  "write_header h =
     abind (store (\<lambda>b. write_u32 b 0 PAGE_MAGIC)) (\<lambda>_.
     abind (store (\<lambda>b. write_u16 b 4 PAGE_FORMAT_VERSION)) (\<lambda>_.
     abind (store (\<lambda>b. write_u16 b 6 (page_kind_as_u16 (ph_kind h)))) (\<lambda>_.
     abind (store (\<lambda>b. write_u32 b PAGE_CHECKSUM_OFFSET 0)) (\<lambda>_.
     abind (store (\<lambda>b. write_u32 b 12 0)) (\<lambda>_.
     abind (store (\<lambda>b. write_u64 b 16 (ph_page_id h))) (\<lambda>_.
     abind (store (\<lambda>b. write_u64 b 24 (ph_rel_id h))) (\<lambda>_.
     abind (store (\<lambda>b. write_u64 b 32 (ph_page_lsn h))) (\<lambda>_.
     abind (store (\<lambda>b. write_u16 b 40 (ph_lower h))) (\<lambda>_.
     abind (store (\<lambda>b. write_u16 b 42 (ph_upper h))) (\<lambda>_.
     abind (store (\<lambda>b. write_u16 b 44 (ph_special h))) (\<lambda>_.
     abind (store (\<lambda>b. write_u16 b 46 (ph_flags h))) (\<lambda>_.
     abind (store (\<lambda>b. write_u32 b 48 (ph_generation h))) (\<lambda>_.
     abind (store (\<lambda>b. set_index b 52 (page_state_as_u8 (ph_state h)))) (\<lambda>_.
     abind (store (\<lambda>b. set_index b 53 (ph_free_class_hint h))) (\<lambda>_.
     abind (store (\<lambda>b. write_u16 b 54 (ph_dead_bytes_hint h))) (\<lambda>_.
     store (\<lambda>b. write_u64 b 56 (ph_horizon_csn_hint h))))))))))))))))))"

definition refresh_checksum :: "crc_fn \<Rightarrow> (page, unit) action" where
  "refresh_checksum crc =
     abind (store (\<lambda>b. write_u32 b PAGE_CHECKSUM_OFFSET 0)) (\<lambda>_.
     abind (alift (\<lambda>p. checksum_page_bytes crc (pg_bytes p))) (\<lambda>checksum.
     store (\<lambda>b. write_u32 b PAGE_CHECKSUM_OFFSET checksum)))"

definition validate :: "crc_fn \<Rightarrow> page \<Rightarrow> unit result" where
  "validate crc p =
     rbind (header p) (\<lambda>h.
     if unat (ph_lower h) > unat (ph_upper h) then Err (CorruptPage ''lower exceeds upper'')
     else if unat (ph_upper h) > length (pg_bytes p) \<or> unat (ph_special h) > length (pg_bytes p)
     then Err (CorruptPage ''bounds exceed page length'')
     else if unat (ph_upper h) > unat (ph_special h)
     then Err (CorruptPage ''upper exceeds special boundary'')
     else if unat (ph_lower h) > unat (ph_special h)
     then Err (CorruptPage ''slot directory exceeds special boundary'')
     else
     rbind (read_u32 (pg_bytes p) PAGE_CHECKSUM_OFFSET) (\<lambda>stored.
     rbind (checksum_page_bytes crc (pg_bytes p)) (\<lambda>actual.
     if stored \<noteq> actual then Err InvalidChecksum else Ok ())))"

text \<open>The header that \<^verbatim>\<open>new_with_special\<close> and \<^verbatim>\<open>reinitialize_with_special\<close> write.\<close>

definition fresh_header :: "page_kind \<Rightarrow> page_id \<Rightarrow> rel_id \<Rightarrow> page_generation \<Rightarrow> nat \<Rightarrow> page_header" where
  "fresh_header kind page_id rel_id generation special =
     \<lparr>ph_kind = kind, ph_page_id = page_id, ph_rel_id = rel_id, ph_page_lsn = 0,
      ph_generation = generation, ph_state = Active, ph_free_class_hint = 0,
      ph_dead_bytes_hint = 0, ph_horizon_csn_hint = 0,
      ph_lower = word_of_nat PAGE_HEADER_LEN, ph_upper = word_of_nat special,
      ph_special = word_of_nat special, ph_flags = 0\<rparr>"

text \<open>The page a local \<^verbatim>\<open>mut page\<close> holds when a sequence of stores succeeds.\<close>

definition run_on :: "(page, unit) action \<Rightarrow> page \<Rightarrow> page result" where
  "run_on m p = (case m p of (Ok _, p') \<Rightarrow> Ok p' | (Err e, _) \<Rightarrow> Err e | (Panic, _) \<Rightarrow> Panic)"

definition page_new_with_special ::
    "crc_fn \<Rightarrow> nat \<Rightarrow> page_kind \<Rightarrow> page_id \<Rightarrow> rel_id \<Rightarrow> nat \<Rightarrow> page result" where
  "page_new_with_special crc page_size kind page_id rel_id special_len =
     (if page_size < PAGE_HEADER_LEN + SLOT_LEN
      then Err (BufferTooSmall (PAGE_HEADER_LEN + SLOT_LEN) page_size)
      else if special_len > page_size - PAGE_HEADER_LEN
      then Err (BufferTooSmall (PAGE_HEADER_LEN + special_len) page_size)
      else
      rbind (ok_or (BufferTooSmall (PAGE_HEADER_LEN + special_len) page_size)
               (checked_sub_usize page_size special_len)) (\<lambda>special.
      run_on (abind (write_header (fresh_header kind page_id rel_id 1 special)) (\<lambda>_. refresh_checksum crc))
        \<lparr>pg_bytes = replicate page_size 0\<rparr>))"

definition page_new :: "crc_fn \<Rightarrow> nat \<Rightarrow> page_kind \<Rightarrow> page_id \<Rightarrow> rel_id \<Rightarrow> page result" where
  "page_new crc page_size kind page_id rel_id =
     page_new_with_special crc page_size kind page_id rel_id 0"

definition page_from_bytes :: "crc_fn \<Rightarrow> byte list \<Rightarrow> page result" where
  "page_from_bytes crc bytes =
     (if length bytes < PAGE_HEADER_LEN
      then Err (BufferTooSmall PAGE_HEADER_LEN (length bytes))
      else rbind (validate crc \<lparr>pg_bytes = bytes\<rparr>) (\<lambda>_. Ok \<lparr>pg_bytes = bytes\<rparr>))"

definition reinitialize_with_special ::
    "crc_fn \<Rightarrow> page_kind \<Rightarrow> page_id \<Rightarrow> rel_id \<Rightarrow> page_generation \<Rightarrow> nat \<Rightarrow> (page, unit) action" where
  "reinitialize_with_special crc kind page_id rel_id generation special_len p =
     (let page_size = length (pg_bytes p) in
      if special_len > page_size - PAGE_HEADER_LEN
      then (Err (BufferTooSmall (PAGE_HEADER_LEN + special_len) page_size), p)
      else
      abind (store (\<lambda>b. Ok (replicate (length b) 0))) (\<lambda>_.
      abind (alift (\<lambda>_. ok_or (BufferTooSmall (PAGE_HEADER_LEN + special_len) page_size)
                          (checked_sub_usize page_size special_len))) (\<lambda>special.
      abind (write_header (fresh_header kind page_id rel_id generation special)) (\<lambda>_.
      refresh_checksum crc))) p)"

definition reinitialize ::
    "crc_fn \<Rightarrow> page_kind \<Rightarrow> page_id \<Rightarrow> rel_id \<Rightarrow> page_generation \<Rightarrow> (page, unit) action" where
  "reinitialize crc kind page_id rel_id generation =
     reinitialize_with_special crc kind page_id rel_id generation 0"

definition set_page_lsn :: "crc_fn \<Rightarrow> lsn \<Rightarrow> (page, unit) action" where
  "set_page_lsn crc v = abind (store (\<lambda>b. write_u64 b 32 v)) (\<lambda>_. refresh_checksum crc)"

definition set_generation :: "crc_fn \<Rightarrow> page_generation \<Rightarrow> (page, unit) action" where
  "set_generation crc v = abind (store (\<lambda>b. write_u32 b 48 v)) (\<lambda>_. refresh_checksum crc)"

definition set_state :: "crc_fn \<Rightarrow> page_state \<Rightarrow> (page, unit) action" where
  "set_state crc v = abind (store (\<lambda>b. set_index b 52 (page_state_as_u8 v))) (\<lambda>_. refresh_checksum crc)"

definition set_free_class_hint :: "crc_fn \<Rightarrow> byte \<Rightarrow> (page, unit) action" where
  "set_free_class_hint crc v = abind (store (\<lambda>b. set_index b 53 v)) (\<lambda>_. refresh_checksum crc)"

definition set_dead_bytes_hint :: "crc_fn \<Rightarrow> u16 \<Rightarrow> (page, unit) action" where
  "set_dead_bytes_hint crc v = abind (store (\<lambda>b. write_u16 b 54 v)) (\<lambda>_. refresh_checksum crc)"

definition set_horizon_csn_hint :: "crc_fn \<Rightarrow> u64 \<Rightarrow> (page, unit) action" where
  "set_horizon_csn_hint crc v = abind (store (\<lambda>b. write_u64 b 56 v)) (\<lambda>_. refresh_checksum crc)"

section \<open>Cells\<close>

definition slot_count :: "page \<Rightarrow> u16 result" where
  "slot_count p = rbind (header p) (\<lambda>h.
     Ok (word_of_nat (wrapping_sub_usize (unat (ph_lower h)) PAGE_HEADER_LEN div SLOT_LEN)))"

definition insert_cell_at :: "crc_fn \<Rightarrow> u16 \<Rightarrow> byte list \<Rightarrow> (page, u16) action" where
  "insert_cell_at crc slot payload =
     abind (alift header) (\<lambda>h.
     abind (alift slot_count) (\<lambda>count.
     if slot > count then alift (\<lambda>_. Err (CorruptPage ''slot out of bounds'')) else
     let new_lower = unat (ph_lower h) + SLOT_LEN in
     abind (alift (\<lambda>_. ok_or PageFull (checked_sub_usize (unat (ph_upper h)) (length payload)))) (\<lambda>new_upper.
     if new_lower > new_upper then alift (\<lambda>_. Err PageFull)
     else if length payload > 65535 then alift (\<lambda>_. Err (CorruptPage ''cell too large''))
     else
     let slot_offset = PAGE_HEADER_LEN + unat slot * SLOT_LEN;
         old_lower = unat (ph_lower h);
         directory_bytes = wrapping_sub_usize old_lower PAGE_HEADER_LEN;
         tail = directory_bytes - unat slot * SLOT_LEN in
     abind (if tail > 0 then store (\<lambda>b. copy_within b slot_offset old_lower (slot_offset + SLOT_LEN))
            else areturn ()) (\<lambda>_.
     abind (store (\<lambda>b. write_bytes b new_upper payload)) (\<lambda>_.
     abind (store (\<lambda>b. write_u16 b slot_offset (word_of_nat new_upper))) (\<lambda>_.
     abind (store (\<lambda>b. write_u16 b (slot_offset + 2) (word_of_nat (length payload)))) (\<lambda>_.
     abind (write_header (h\<lparr>ph_lower := word_of_nat new_lower, ph_upper := word_of_nat new_upper\<rparr>)) (\<lambda>_.
     abind (refresh_checksum crc) (\<lambda>_.
     areturn slot)))))))))"

definition insert_cell :: "crc_fn \<Rightarrow> byte list \<Rightarrow> (page, u16) action" where
  "insert_cell crc payload = abind (alift slot_count) (\<lambda>slot_no. insert_cell_at crc slot_no payload)"

definition delete_cell :: "crc_fn \<Rightarrow> u16 \<Rightarrow> (page, unit) action" where
  "delete_cell crc slot =
     abind (alift header) (\<lambda>h.
     abind (alift slot_count) (\<lambda>count.
     if slot \<ge> count then alift (\<lambda>_. Err (CorruptPage ''slot out of bounds'')) else
     let slot_offset = PAGE_HEADER_LEN + unat slot * SLOT_LEN;
         old_lower = unat (ph_lower h);
         next_slot = slot_offset + SLOT_LEN in
     abind (if next_slot < old_lower then store (\<lambda>b. copy_within b next_slot old_lower slot_offset)
            else areturn ()) (\<lambda>_.
     abind (write_header (h\<lparr>ph_lower := saturating_sub_word (ph_lower h) 4\<rparr>)) (\<lambda>_.
     refresh_checksum crc))))"

definition special_bytes :: "page \<Rightarrow> byte list result" where
  "special_bytes p = rbind (header p) (\<lambda>h.
     slice_range (pg_bytes p) (unat (ph_special h)) (length (pg_bytes p)))"

definition cell :: "page \<Rightarrow> u16 \<Rightarrow> byte list result" where
  "cell p slot =
     rbind (slot_count p) (\<lambda>count.
     if slot \<ge> count then Err (CorruptPage ''slot out of bounds'') else
     let slot_offset = PAGE_HEADER_LEN + unat slot * SLOT_LEN in
     rbind (read_u16 (pg_bytes p) slot_offset) (\<lambda>raw_offset.
     rbind (read_u16 (pg_bytes p) (slot_offset + 2)) (\<lambda>raw_len.
     rbind (ok_or (CorruptPage ''cell overflow'')
              (checked_add_usize (unat raw_offset) (unat raw_len))) (\<lambda>end'.
     if end' > length (pg_bytes p) then Err (CorruptPage ''cell extends past page'')
     else slice_range (pg_bytes p) (unat raw_offset) end'))))"

definition overwrite_cell :: "crc_fn \<Rightarrow> u16 \<Rightarrow> byte list \<Rightarrow> (page, unit) action" where
  "overwrite_cell crc slot payload =
     abind (alift slot_count) (\<lambda>count.
     if slot \<ge> count then alift (\<lambda>_. Err (CorruptPage ''slot out of bounds'')) else
     let slot_offset = PAGE_HEADER_LEN + unat slot * SLOT_LEN in
     abind (alift (\<lambda>p. read_u16 (pg_bytes p) slot_offset)) (\<lambda>raw_offset.
     abind (alift (\<lambda>p. read_u16 (pg_bytes p) (slot_offset + 2))) (\<lambda>raw_len.
     if length payload \<noteq> unat raw_len
     then alift (\<lambda>_. Err (CorruptPage ''overwrite cell length mismatch'')) else
     abind (alift (\<lambda>_. ok_or (CorruptPage ''cell overflow'')
              (checked_add_usize (unat raw_offset) (unat raw_len)))) (\<lambda>end'.
     abind (alift (\<lambda>p. if end' > length (pg_bytes p)
                        then Err (CorruptPage ''cell extends past page'') else Ok ())) (\<lambda>_.
     abind (store (\<lambda>b. write_bytes b (unat raw_offset) payload)) (\<lambda>_.
     refresh_checksum crc))))))"


section \<open>Byte image of a page\<close>

text \<open>
  The first 64 bytes of a page as a function of its header, of the checksum field and of the
  reserved word at offset 12, which the parser ignores.
\<close>

definition header_image :: "u32 \<Rightarrow> u32 \<Rightarrow> page_header \<Rightarrow> byte list" where
  "header_image checksum reserved h =
     to_le_bytes PAGE_MAGIC @ to_le_bytes PAGE_FORMAT_VERSION @
     to_le_bytes (page_kind_as_u16 (ph_kind h)) @ to_le_bytes checksum @ to_le_bytes reserved @
     to_le_bytes (ph_page_id h) @ to_le_bytes (ph_rel_id h) @ to_le_bytes (ph_page_lsn h) @
     to_le_bytes (ph_lower h) @ to_le_bytes (ph_upper h) @ to_le_bytes (ph_special h) @
     to_le_bytes (ph_flags h) @ to_le_bytes (ph_generation h) @
     [page_state_as_u8 (ph_state h), ph_free_class_hint h] @
     to_le_bytes (ph_dead_bytes_hint h) @ to_le_bytes (ph_horizon_csn_hint h)"

definition page_image :: "crc_fn \<Rightarrow> u32 \<Rightarrow> page_header \<Rightarrow> byte list \<Rightarrow> byte list" where
  "page_image crc reserved h body =
     header_image (crc (header_image 0 reserved h @ body)) reserved h @ body"

lemma length_header_image [simp]: "length (header_image c r h) = 64"
  by (simp add: header_image_def)

lemma length_page_image [simp]: "length (page_image crc r h body) = 64 + length body"
  by (simp add: page_image_def)

lemmas image_slices = bslice_def header_image_def

lemma header_image_slices:
  "bslice (header_image c r h) 0 4 = to_le_bytes PAGE_MAGIC"
  "bslice (header_image c r h) 4 2 = to_le_bytes PAGE_FORMAT_VERSION"
  "bslice (header_image c r h) 6 2 = to_le_bytes (page_kind_as_u16 (ph_kind h))"
  "bslice (header_image c r h) 8 4 = to_le_bytes c"
  "bslice (header_image c r h) 16 8 = to_le_bytes (ph_page_id h)"
  "bslice (header_image c r h) 24 8 = to_le_bytes (ph_rel_id h)"
  "bslice (header_image c r h) 32 8 = to_le_bytes (ph_page_lsn h)"
  "bslice (header_image c r h) 40 2 = to_le_bytes (ph_lower h)"
  "bslice (header_image c r h) 42 2 = to_le_bytes (ph_upper h)"
  "bslice (header_image c r h) 44 2 = to_le_bytes (ph_special h)"
  "bslice (header_image c r h) 46 2 = to_le_bytes (ph_flags h)"
  "bslice (header_image c r h) 48 4 = to_le_bytes (ph_generation h)"
  "bslice (header_image c r h) 54 2 = to_le_bytes (ph_dead_bytes_hint h)"
  "bslice (header_image c r h) 56 8 = to_le_bytes (ph_horizon_csn_hint h)"
  "header_image c r h ! 52 = page_state_as_u8 (ph_state h)"
  "header_image c r h ! 53 = ph_free_class_hint h"
  by (simp_all add: image_slices nth_append)

lemma header_of_image:
  assumes "64 + length body < usize_bound"
  shows "header \<lparr>pg_bytes = header_image c r h @ body\<rparr> = Ok h"
  using assms
  by (simp add: header_def Let_def index_at_def buf_simps bslice_append_left header_image_slices nth_append)

lemma page_state_from_u8_Ok: "page_state_from_u8 v = Ok s \<Longrightarrow> page_state_as_u8 s = v"
  by (auto simp: page_state_from_u8_def split: if_splits)

lemma page_kind_from_u16_Ok: "page_kind_from_u16 v = Ok k \<Longrightarrow> page_kind_as_u16 k = v"
  by (auto simp: page_kind_from_u16_def split: if_splits)

lemma store_Ok: "f (pg_bytes p) = Ok b \<Longrightarrow> store f p = (Ok (), p\<lparr>pg_bytes := b\<rparr>)"
  by (simp add: store_def aupdate_def)

lemma abind_store_Ok:
  "f (pg_bytes p) = Ok b \<Longrightarrow> abind (store f) g p = g () (p\<lparr>pg_bytes := b\<rparr>)"
  by (simp add: abind_def store_Ok)

lemma overwrite_next:
  "off = length xs \<Longrightarrow> length zs \<le> length ys \<Longrightarrow>
     overwrite (xs @ ys) off zs = (xs @ zs) @ drop (length zs) ys"
  by (simp add: overwrite_in)

lemma take_64_split:
  "take 64 b = bslice b 0 4 @ bslice b 4 2 @ bslice b 6 2 @ bslice b 8 4 @ bslice b 12 4 @
    bslice b 16 8 @ bslice b 24 8 @ bslice b 32 8 @ bslice b 40 2 @ bslice b 42 2 @
    bslice b 44 2 @ bslice b 46 2 @ bslice b 48 4 @ bslice b 52 1 @ bslice b 53 1 @ bslice b 54 2 @
    bslice b 56 8"
proof -
  have "take 64 b = bslice b 0 (4 + (2 + (2 + (4 + (4 + (8 + (8 + (8 + (2 + (2 + (2 + (2 +
      (4 + (1 + (1 + (2 + 8))))))))))))))))" by (simp add: bslice_def)
  then show ?thesis
    unfolding bslice_split by simp
qed

lemma header_Ok_length: "header p = Ok h \<Longrightarrow> length (pg_bytes p) < usize_bound \<Longrightarrow> 64 \<le> length (pg_bytes p)"
  using read_array_out [of "pg_bytes p" 56 8]
  by (fastforce simp: header_def Let_def read_u64_def split: if_splits)

lemma header_Ok_fields:
  assumes "header p = Ok h" and "length (pg_bytes p) < usize_bound"
  defines "b \<equiv> pg_bytes p"
  shows "PAGE_MAGIC = from_le_bytes (bslice b 0 4)"
    "PAGE_FORMAT_VERSION = from_le_bytes (bslice b 4 2)"
    "page_kind_as_u16 (ph_kind h) = from_le_bytes (bslice b 6 2)"
    "ph_page_id h = from_le_bytes (bslice b 16 8)"
    "ph_rel_id h = from_le_bytes (bslice b 24 8)"
    "ph_page_lsn h = from_le_bytes (bslice b 32 8)"
    "ph_lower h = from_le_bytes (bslice b 40 2)"
    "ph_upper h = from_le_bytes (bslice b 42 2)"
    "ph_special h = from_le_bytes (bslice b 44 2)"
    "ph_flags h = from_le_bytes (bslice b 46 2)"
    "ph_generation h = from_le_bytes (bslice b 48 4)"
    "page_state_as_u8 (ph_state h) = b ! 52"
    "ph_free_class_hint h = b ! 53"
    "ph_dead_bytes_hint h = from_le_bytes (bslice b 54 2)"
    "ph_horizon_csn_hint h = from_le_bytes (bslice b 56 8)"
proof -
  have len: "64 \<le> length (pg_bytes p)" using header_Ok_length assms by blast
  note eq = assms(1) [unfolded header_def Let_def]
  from eq len assms(2) show "PAGE_MAGIC = from_le_bytes (bslice b 0 4)"
    by (auto simp: b_def buf_simps split: if_splits)
  from eq len assms(2) show "PAGE_FORMAT_VERSION = from_le_bytes (bslice b 4 2)"
    by (auto simp: b_def buf_simps split: if_splits)
  from eq len assms(2) show "page_kind_as_u16 (ph_kind h) = from_le_bytes (bslice b 6 2)"
    by (auto simp: b_def buf_simps page_kind_from_u16_Ok split: if_splits)
  from eq len assms(2) show "page_state_as_u8 (ph_state h) = b ! 52"
    by (auto simp: b_def buf_simps index_at_def page_state_from_u8_Ok split: if_splits)
  from eq len assms(2) show "ph_page_id h = from_le_bytes (bslice b 16 8)"
    "ph_rel_id h = from_le_bytes (bslice b 24 8)"
    "ph_page_lsn h = from_le_bytes (bslice b 32 8)"
    "ph_lower h = from_le_bytes (bslice b 40 2)"
    "ph_upper h = from_le_bytes (bslice b 42 2)"
    "ph_special h = from_le_bytes (bslice b 44 2)"
    "ph_flags h = from_le_bytes (bslice b 46 2)"
    "ph_generation h = from_le_bytes (bslice b 48 4)"
    "ph_free_class_hint h = b ! 53"
    "ph_dead_bytes_hint h = from_le_bytes (bslice b 54 2)"
    "ph_horizon_csn_hint h = from_le_bytes (bslice b 56 8)"
    by (auto simp: b_def buf_simps index_at_def split: if_splits)
qed

lemma to_from_le_16: "length bs = 2 \<Longrightarrow> to_le_bytes (from_le_bytes bs :: u16) = bs"
  by (rule to_from_le_bytes) simp_all

lemma to_from_le_32: "length bs = 4 \<Longrightarrow> to_le_bytes (from_le_bytes bs :: u32) = bs"
  by (rule to_from_le_bytes) simp_all

lemma to_from_le_64: "length bs = 8 \<Longrightarrow> to_le_bytes (from_le_bytes bs :: u64) = bs"
  by (rule to_from_le_bytes) simp_all

lemmas to_from_le = to_from_le_16 to_from_le_32 to_from_le_64

lemma header_Ok_image:
  assumes "header p = Ok h" and "length (pg_bytes p) < usize_bound"
  shows "pg_bytes p =
    header_image (from_le_bytes (bslice (pg_bytes p) 8 4)) (from_le_bytes (bslice (pg_bytes p) 12 4)) h
      @ drop 64 (pg_bytes p)"
proof -
  have len: "64 \<le> length (pg_bytes p)" using header_Ok_length assms by blast
  have "take 64 (pg_bytes p) =
      header_image (from_le_bytes (bslice (pg_bytes p) 8 4)) (from_le_bytes (bslice (pg_bytes p) 12 4)) h"
    unfolding take_64_split header_image_def header_Ok_fields [OF assms]
    using len by (simp add: to_from_le length_bslice bslice_single [unfolded One_nat_def])
  then show ?thesis by (metis append_take_drop_id)
qed

lemma write_header_image:
  assumes "64 \<le> length b" and "length b < usize_bound"
  shows "write_header h \<lparr>pg_bytes = b\<rparr> = (Ok (), \<lparr>pg_bytes = header_image 0 0 h @ drop 64 b\<rparr>)"
proof -
  have seq: "write_header h \<lparr>pg_bytes = [] @ b\<rparr> =
      (Ok (), \<lparr>pg_bytes = (((((((((((((((((([] @ to_le_bytes PAGE_MAGIC) @ to_le_bytes PAGE_FORMAT_VERSION) @
     to_le_bytes (page_kind_as_u16 (ph_kind h))) @ to_le_bytes (0::u32)) @ to_le_bytes (0::u32)) @
     to_le_bytes (ph_page_id h)) @ to_le_bytes (ph_rel_id h)) @ to_le_bytes (ph_page_lsn h)) @
     to_le_bytes (ph_lower h)) @ to_le_bytes (ph_upper h)) @ to_le_bytes (ph_special h)) @
     to_le_bytes (ph_flags h)) @ to_le_bytes (ph_generation h)) @
     [page_state_as_u8 (ph_state h)]) @ [ph_free_class_hint h]) @
     to_le_bytes (ph_dead_bytes_hint h)) @ to_le_bytes (ph_horizon_csn_hint h)) @ drop 64 b)\<rparr>)"
    using assms
    by (simp add: write_header_def abind_store_Ok store_Ok set_index_def list_update_overwrite
        write_u16_in write_u32_in write_u64_in overwrite_next
        del: append_assoc append_Nil append.simps)
  then show ?thesis by (simp add: header_image_def)
qed

lemma header_image_checksum:
  "overwrite (header_image c r h @ body) 8 (to_le_bytes (c' :: u32)) = header_image c' r h @ body"
  by (simp add: overwrite_in header_image_def)

lemma checksum_page_image:
  "checksum_page_bytes crc (header_image c r h @ body) = Ok (crc (header_image 0 r h @ body))"
proof -
  have zero: "to_le_bytes (0 :: u32) = [0, 0, 0, 0]" by code_simp
  have "take 8 (header_image c r h @ body) @ [0, 0, 0, 0] @ drop (8 + 4) (header_image c r h @ body)
      = header_image 0 r h @ body"
    by (simp add: header_image_def zero)
  then show ?thesis
    by (simp only: checksum_page_bytes_def crc32_with_zeroed_field_in length_append length_header_image)
qed

lemma refresh_checksum_image:
  assumes "64 + length body < usize_bound"
  shows "refresh_checksum crc \<lparr>pg_bytes = header_image c r h @ body\<rparr>
    = (Ok (), \<lparr>pg_bytes = page_image crc r h body\<rparr>)"
  using assms
  by (simp add: refresh_checksum_def abind_store_Ok store_Ok write_u32_in header_image_checksum
      abind_Ok alift_eq checksum_page_image page_image_def)

lemma header_page_image [simp]:
  "64 + length body < usize_bound \<Longrightarrow> header \<lparr>pg_bytes = page_image crc r h body\<rparr> = Ok h"
  by (simp add: page_image_def header_of_image)

lemma write_header_refresh:
  assumes "64 \<le> length b" and "length b < usize_bound"
  shows "abind (write_header h) (\<lambda>_. refresh_checksum crc) \<lparr>pg_bytes = b\<rparr>
    = (Ok (), \<lparr>pg_bytes = page_image crc 0 h (drop 64 b)\<rparr>)"
  using assms by (simp add: abind_Ok write_header_image refresh_checksum_image)

text \<open>What \<^verbatim>\<open>validate\<close> accepts: exactly the images whose bounds are ordered.\<close>

definition header_bounds :: "page_header \<Rightarrow> nat \<Rightarrow> bool" where
  "header_bounds h len \<longleftrightarrow>
     unat (ph_lower h) \<le> unat (ph_upper h) \<and> unat (ph_upper h) \<le> unat (ph_special h)
     \<and> unat (ph_special h) \<le> len"

lemma validate_page_image:
  assumes "64 + length body < usize_bound" and "header_bounds h (64 + length body)"
  shows "validate crc \<lparr>pg_bytes = page_image crc r h body\<rparr> = Ok ()"
proof -
  have "bslice (page_image crc r h body) 8 4 = to_le_bytes (crc (header_image 0 r h @ body))"
    by (simp add: page_image_def bslice_append_left header_image_slices)
  with assms show ?thesis
    by (simp add: validate_def read_u32_in header_bounds_def)
      (simp add: page_image_def checksum_page_image)
qed

lemma validate_Ok_image:
  assumes "validate crc p = Ok ()" and "length (pg_bytes p) < usize_bound"
  obtains h r where "header p = Ok h" and "header_bounds h (length (pg_bytes p))"
    and "pg_bytes p = page_image crc r h (drop 64 (pg_bytes p))"
proof -
  from assms(1) obtain h stored where h: "header p = Ok h"
    and bounds: "header_bounds h (length (pg_bytes p))"
    and stored: "read_u32 (pg_bytes p) 8 = Ok stored" "checksum_page_bytes crc (pg_bytes p) = Ok stored"
    by (auto simp: validate_def header_bounds_def split: if_splits)
  define r :: u32 where "r = from_le_bytes (bslice (pg_bytes p) 12 4)"
  have len: "64 \<le> length (pg_bytes p)" using header_Ok_length [OF h assms(2)] .
  with stored(1) assms(2) have c: "from_le_bytes (bslice (pg_bytes p) 8 4) = stored"
    by (simp add: read_u32_in)
  have img: "pg_bytes p = header_image stored r h @ drop 64 (pg_bytes p)"
    using header_Ok_image [OF h assms(2)] c by (simp add: r_def)
  with stored(2) have "stored = crc (header_image 0 r h @ drop 64 (pg_bytes p))"
    by (metis checksum_page_image result.inject(1))
  with img have "pg_bytes p = page_image crc r h (drop 64 (pg_bytes p))"
    by (simp add: page_image_def)
  with h bounds show thesis by (rule that)
qed

end
