(* ===== verification/Page_Cells.thy ===== *)
theory Page_Cells
  imports Format_Page
begin

text \<open>
  The slotted page as a list of cells. \<open>page_cells\<close> reads the slot directory of a page and
  the bodies it points to; \<open>page_wf\<close> is the invariant of pages built by the constructors and
  the cell operations: the checksum is right, the bounds are ordered, every slot points between
  \<open>upper\<close> and \<open>special\<close>, and no two cells share a byte.
\<close>

section \<open>Abstraction and invariant\<close>

definition slot_at :: "byte list \<Rightarrow> nat \<Rightarrow> nat \<times> nat" where
  "slot_at b i =
     (unat (from_le_bytes (bslice b (64 + 4 * i) 2) :: u16),
      unat (from_le_bytes (bslice b (66 + 4 * i) 2) :: u16))"

definition slot_total :: "page_header \<Rightarrow> nat" where
  "slot_total h = (unat (ph_lower h) - 64) div 4"

definition page_slots :: "page_header \<Rightarrow> byte list \<Rightarrow> (nat \<times> nat) list" where
  "page_slots h b = map (slot_at b) [0..<slot_total h]"

definition page_cells :: "page \<Rightarrow> byte list list" where
  "page_cells p = (case header p of
     Ok h \<Rightarrow> map (\<lambda>(off, len). bslice (pg_bytes p) off len) (page_slots h (pg_bytes p)) | _ \<Rightarrow> [])"

definition apart :: "nat \<times> nat \<Rightarrow> nat \<times> nat \<Rightarrow> bool" where
  "apart s t \<longleftrightarrow> fst s + snd s \<le> fst t \<or> fst t + snd t \<le> fst s"

definition slots_wf :: "page_header \<Rightarrow> (nat \<times> nat) list \<Rightarrow> bool" where
  "slots_wf h slots \<longleftrightarrow>
     list_all (\<lambda>(off, len). unat (ph_upper h) \<le> off \<and> off + len \<le> unat (ph_special h)) slots
     \<and> sorted_wrt apart slots"

definition page_wf :: "crc_fn \<Rightarrow> page \<Rightarrow> bool" where
  "page_wf crc p \<longleftrightarrow>
     length (pg_bytes p) < 65536 \<and> validate crc p = Ok () \<and>
     (case header p of
        Ok h \<Rightarrow> 64 \<le> unat (ph_lower h) \<and> 4 dvd unat (ph_lower h) \<and> slots_wf h (page_slots h (pg_bytes p))
      | _ \<Rightarrow> False)"

text \<open>Bytes still free between the slot directory and the cell bodies.\<close>

definition free_bytes :: "page \<Rightarrow> nat" where
  "free_bytes p = (case header p of Ok h \<Rightarrow> unat (ph_upper h) - unat (ph_lower h) | _ \<Rightarrow> 0)"

section \<open>Consequences of the invariant\<close>

lemma page_update: "(p :: page)\<lparr>pg_bytes := b\<rparr> = \<lparr>pg_bytes = b\<rparr>"
  by (cases p) simp

lemma page_eta [simp]: "\<lparr>pg_bytes = pg_bytes (p :: page)\<rparr> = p"
  by (cases p) simp

lemma usize_bound_large: "n < 65536 \<Longrightarrow> n < usize_bound"
  by (simp add: usize_bound_def)

lemma page_wf_obtain:
  assumes "page_wf crc p"
  obtains h r where "header p = Ok h" and "header_bounds h (length (pg_bytes p))"
    and "pg_bytes p = page_image crc r h (drop 64 (pg_bytes p))"
    and "64 \<le> unat (ph_lower h)" and "4 dvd unat (ph_lower h)"
    and "slots_wf h (page_slots h (pg_bytes p))"
    and "64 \<le> length (pg_bytes p)" and "length (pg_bytes p) < 65536"
proof -
  from assms have v: "validate crc p = Ok ()" and l: "length (pg_bytes p) < 65536"
    by (simp_all add: page_wf_def)
  from validate_Ok_image [OF v usize_bound_large [OF l]] obtain h r where
    *: "header p = Ok h" "header_bounds h (length (pg_bytes p))"
      "pg_bytes p = page_image crc r h (drop 64 (pg_bytes p))" by blast
  moreover from * assms have "64 \<le> unat (ph_lower h)" "4 dvd unat (ph_lower h)"
    "slots_wf h (page_slots h (pg_bytes p))" by (simp_all add: page_wf_def)
  moreover have "64 \<le> length (pg_bytes p)"
    using header_Ok_length [OF *(1) usize_bound_large [OF l]] .
  ultimately show thesis using l that by blast
qed

text \<open>The invariant of the page a header and a body make.\<close>

lemma page_wf_image:
  assumes "64 + length body < 65536" and "header_bounds h (64 + length body)"
    and "64 \<le> unat (ph_lower h)" and "4 dvd unat (ph_lower h)"
    and "slots_wf h (page_slots h (page_image crc r h body))"
  shows "page_wf crc \<lparr>pg_bytes = page_image crc r h body\<rparr>"
  using assms usize_bound_large [OF assms(1)]
  by (simp add: page_wf_def validate_page_image)

lemma bslice_page_image:
  "64 \<le> off \<Longrightarrow> bslice (page_image crc r h (drop 64 b)) off n = bslice b off n"
  by (simp add: page_image_def bslice_append_right bslice_def add.commute)

lemma slot_at_page_image: "slot_at (page_image crc r h (drop 64 b)) i = slot_at b i"
  by (simp add: slot_at_def bslice_page_image)

lemma page_slots_page_image: "page_slots h' (page_image crc r h (drop 64 b)) = page_slots h' b"
  by (simp add: page_slots_def slot_at_page_image)

lemma slot_total_eq:
  "64 \<le> unat (ph_lower h) \<Longrightarrow> 4 dvd unat (ph_lower h) \<Longrightarrow> unat (ph_lower h) = 64 + 4 * slot_total h"
  by (auto simp: slot_total_def elim!: dvdE)

lemma slot_count_Ok:
  assumes "header p = Ok h" and "64 \<le> unat (ph_lower h)"
  shows "\<exists>c. slot_count p = Ok c \<and> unat c = slot_total h"
proof -
  have "unat (ph_lower h) < usize_bound" by (rule usize_bound_large) simp
  then have "wrapping_sub_usize (unat (ph_lower h)) 64 = unat (ph_lower h) - 64"
    using assms(2) by (simp add: wrapping_sub_usize_le)
  moreover have "(unat (ph_lower h) - 64) div 4 < 65536"
    by (rule le_less_trans [OF le_trans [OF div_le_dividend diff_le_self]]) simp
  ultimately show ?thesis
    using assms(1) by (simp add: slot_count_def slot_total_def unat_u16_of_nat)
qed

lemma length_page_slots [simp]: "length (page_slots h b) = slot_total h"
  by (simp add: page_slots_def)

lemma page_slots_nth: "i < slot_total h \<Longrightarrow> page_slots h b ! i = slot_at b i"
  by (simp add: page_slots_def)

lemma slots_wf_nth:
  "slots_wf h slots \<Longrightarrow> i < length slots \<Longrightarrow>
     unat (ph_upper h) \<le> fst (slots ! i) \<and> fst (slots ! i) + snd (slots ! i) \<le> unat (ph_special h)"
  by (auto simp: slots_wf_def list_all_length case_prod_beta)

lemma apart_sym: "apart s t \<longleftrightarrow> apart t s"
  by (auto simp: apart_def)

lemma slots_wf_apart:
  "slots_wf h slots \<Longrightarrow> i < length slots \<Longrightarrow> j < length slots \<Longrightarrow> i \<noteq> j \<Longrightarrow> apart (slots ! i) (slots ! j)"
  using sorted_wrt_nth_less [of apart slots i j] sorted_wrt_nth_less [of apart slots j i]
    apart_sym [of "slots ! i" "slots ! j"]
  by (cases i j rule: linorder_cases) (simp_all add: slots_wf_def)

section \<open>Reading\<close>

lemma page_cells_eq:
  "header p = Ok h \<Longrightarrow>
     page_cells p = map (\<lambda>(off, len). bslice (pg_bytes p) off len) (page_slots h (pg_bytes p))"
  by (simp add: page_cells_def)

lemma length_page_cells: "header p = Ok h \<Longrightarrow> length (page_cells p) = slot_total h"
  by (simp add: page_cells_eq)

lemma cell_reads:
  assumes "page_wf crc p"
  shows "cell p slot =
    (if unat slot < length (page_cells p) then Ok (page_cells p ! unat slot)
     else Err (CorruptPage ''slot out of bounds''))"
proof -
  from assms obtain h r where h: "header p = Ok h" and b: "header_bounds h (length (pg_bytes p))"
    and lo: "64 \<le> unat (ph_lower h)" "4 dvd unat (ph_lower h)"
    and sl: "slots_wf h (page_slots h (pg_bytes p))"
    and len: "64 \<le> length (pg_bytes p)" "length (pg_bytes p) < 65536"
    by (rule page_wf_obtain)
  from slot_count_Ok [OF h lo(1)] obtain c where c: "slot_count p = Ok c" "unat c = slot_total h" by blast
  show ?thesis
  proof (cases "unat slot < slot_total h")
    case False
    then have "c \<le> slot" using c(2) by (simp add: word_le_nat_alt)
    then show ?thesis using False c by (simp add: cell_def length_page_cells [OF h])
  next
    case True
    then have "\<not> c \<le> slot" using c(2) by (simp add: word_le_nat_alt)
    define o' l' where "o' = fst (slot_at (pg_bytes p) (unat slot))"
      and "l' = snd (slot_at (pg_bytes p) (unat slot))"
    from slots_wf_nth [OF sl, of "unat slot"] True
    have "o' + l' \<le> unat (ph_special h)" by (simp add: page_slots_nth o'_def l'_def)
    with b have le: "o' + l' \<le> length (pg_bytes p)" by (simp add: header_bounds_def)
    have dir: "64 + 4 * unat slot + 4 \<le> length (pg_bytes p)"
      using True slot_total_eq [OF lo] b by (simp add: header_bounds_def)
    have r: "read_u16 (pg_bytes p) (64 + unat slot * 4) = Ok (from_le_bytes (bslice (pg_bytes p) (64 + 4 * unat slot) 2))"
      "read_u16 (pg_bytes p) (64 + unat slot * 4 + 2) = Ok (from_le_bytes (bslice (pg_bytes p) (66 + 4 * unat slot) 2))"
      using dir usize_bound_large [OF len(2)] by (simp_all add: read_u16_in mult.commute)
    have "o' + l' < usize_bound" using le usize_bound_large [OF len(2)] by linarith
    with le have "cell p slot = Ok (bslice (pg_bytes p) o' l')"
      using \<open>\<not> c \<le> slot\<close> c(1) r
      by (simp add: cell_def Let_def o'_def l'_def slot_at_def checked_add_usize_def slice_range_def)
    then show ?thesis
      using True by (simp add: length_page_cells [OF h] page_cells_eq [OF h] page_slots_nth o'_def l'_def case_prod_beta)
  qed
qed

section \<open>Pages rebuilt from a header and a buffer\<close>

text \<open>
  Every mutation ends by writing a header and refreshing the checksum, so the page it leaves is
  the image of a header and of the buffer behind it. The invariant and the cells of such a page
  follow from the buffer alone.
\<close>

abbreviation rebuilt :: "crc_fn \<Rightarrow> u32 \<Rightarrow> page_header \<Rightarrow> byte list \<Rightarrow> page" where
  "rebuilt crc r h b \<equiv> \<lparr>pg_bytes = page_image crc r h (drop 64 b)\<rparr>"

lemma rebuilt_page:
  assumes len: "64 \<le> length b" "length b < 65536" and hb: "header_bounds h (length b)"
    and lo: "64 \<le> unat (ph_lower h)" "4 dvd unat (ph_lower h)" and sl: "slots_wf h (page_slots h b)"
  shows "page_wf crc (rebuilt crc r h b)" and "header (rebuilt crc r h b) = Ok h"
    and "page_cells (rebuilt crc r h b) = map (\<lambda>(off, len). bslice b off len) (page_slots h b)"
    and "length (pg_bytes (rebuilt crc r h b)) = length b"
proof -
  show "page_wf crc (rebuilt crc r h b)"
    using assms by (intro page_wf_image) (simp_all add: page_slots_page_image)
  show hdr: "header (rebuilt crc r h b) = Ok h" using usize_bound_large [OF len(2)] len(1) by simp
  show "length (pg_bytes (rebuilt crc r h b)) = length b" using len by simp
  have "bslice (page_image crc r h (drop 64 b)) off n = bslice b off n" if "(off, n) \<in> set (page_slots h b)" for off n
  proof (rule bslice_page_image)
    show "64 \<le> off" using that sl lo(1) hb by (fastforce simp: slots_wf_def list_all_iff header_bounds_def)
  qed
  then show "page_cells (rebuilt crc r h b) = map (\<lambda>(off, len). bslice b off len) (page_slots h b)"
    by (auto simp: page_cells_eq [OF hdr] page_slots_page_image)
qed

section \<open>Inserting\<close>

text \<open>Shifting the slot directory from slot \<open>s\<close> on by one slot.\<close>

definition shift_right :: "byte list \<Rightarrow> nat \<Rightarrow> nat \<Rightarrow> byte list" where
  "shift_right b s n = (if s < n then overwrite b (68 + 4 * s) (bslice b (64 + 4 * s) (4 * (n - s))) else b)"

lemma length_shift_right [simp]: "length (shift_right b s n) = length b"
  by (simp add: shift_right_def)

lemma bslice_shift_right_before:
  "68 + 4 * n \<le> length b \<Longrightarrow> off + k \<le> 68 + 4 * s \<Longrightarrow> s \<le> n \<Longrightarrow>
     bslice (shift_right b s n) off k = bslice b off k"
  by (auto simp: shift_right_def length_bslice buf_simps)

lemma bslice_shift_right_after:
  "68 + 4 * n \<le> length b \<Longrightarrow> 68 + 4 * n \<le> off \<Longrightarrow> s \<le> n \<Longrightarrow>
     bslice (shift_right b s n) off k = bslice b off k"
  by (auto simp: shift_right_def length_bslice buf_simps)

lemma bslice_shift_right_moved:
  assumes "68 + 4 * n \<le> length b" and "68 + 4 * s \<le> off" and "off + k \<le> 68 + 4 * n" and "0 < k"
  shows "bslice (shift_right b s n) off k = bslice b (off - 4) k"
proof -
  from assms have "s < n" by linarith
  with assms show ?thesis
    by (simp add: shift_right_def bslice_overwrite_inside length_bslice bslice_bslice)
qed

text \<open>The buffer after the four stores of an insertion.\<close>

definition inserted :: "byte list \<Rightarrow> nat \<Rightarrow> nat \<Rightarrow> nat \<Rightarrow> byte list \<Rightarrow> byte list" where
  "inserted b s n up payload =
     overwrite (overwrite (overwrite (shift_right b s n) up payload)
       (64 + 4 * s) (to_le_bytes (word_of_nat up :: u16)))
       (66 + 4 * s) (to_le_bytes (word_of_nat (length payload) :: u16))"

lemma length_inserted [simp]: "length (inserted b s n up payload) = length b"
  by (simp add: inserted_def)

lemma inserted_slot:
  assumes "s \<le> n" and "68 + 4 * n \<le> up" and "up + length payload \<le> length b" and "length b < 65536"
    and "i \<le> n"
  shows "slot_at (inserted b s n up payload) i =
    (if i < s then slot_at b i else if i = s then (up, length payload) else slot_at b (i - 1))"
proof -
  have small: "up < 65536" "length payload < 65536" using assms by simp_all
  consider "i < s" | "i = s" | "s < i" by linarith
  then show ?thesis
  proof cases
    case 1
    with assms show ?thesis
      by (simp add: slot_at_def inserted_def buf_simps bslice_shift_right_before)
  next
    case 2
    with assms small show ?thesis
      by (simp add: slot_at_def inserted_def buf_simps unat_u16_of_nat)
  next
    case 3
    then obtain j where "i = Suc j" "s \<le> j" by (metis less_imp_Suc_add le_add1)
    with assms show ?thesis
      by (simp add: slot_at_def inserted_def buf_simps bslice_shift_right_moved)
  qed
qed

lemma inserted_body:
  assumes "s \<le> n" and "68 + 4 * n \<le> up" and "up + length payload \<le> off" and "off \<le> length b"
  shows "bslice (inserted b s n up payload) off k = bslice b off k"
  using assms by (simp add: inserted_def buf_simps bslice_shift_right_after)

lemma inserted_payload:
  assumes "s \<le> n" and "68 + 4 * n \<le> up" and "up + length payload \<le> length b"
  shows "bslice (inserted b s n up payload) up (length payload) = payload"
  using assms by (simp add: inserted_def buf_simps)

lemma page_slots_inserted:
  assumes "s \<le> slot_total h" and "68 + 4 * slot_total h \<le> up"
    and "up + length payload \<le> length b" and "length b < 65536"
    and "slot_total h' = Suc (slot_total h)"
  shows "page_slots h' (inserted b s (slot_total h) up payload) =
    take s (page_slots h b) @ (up, length payload) # drop s (page_slots h b)"
proof (rule nth_equalityI)
  show "length (page_slots h' (inserted b s (slot_total h) up payload)) =
      length (take s (page_slots h b) @ (up, length payload) # drop s (page_slots h b))"
    using assms by simp
next
  fix i assume "i < length (page_slots h' (inserted b s (slot_total h) up payload))"
  then have i: "i \<le> slot_total h" using assms(5) by simp
  with assms have "page_slots h' (inserted b s (slot_total h) up payload) ! i =
      (if i < s then slot_at b i else if i = s then (up, length payload) else slot_at b (i - 1))"
    by (simp add: page_slots_nth inserted_slot)
  also have "\<dots> = (take s (page_slots h b) @ (up, length payload) # drop s (page_slots h b)) ! i"
    using i assms(1) by (auto simp: nth_append page_slots_nth nth_Cons split: nat.splits
        intro!: arg_cong [where f = "slot_at b"])
  finally show "page_slots h' (inserted b s (slot_total h) up payload) ! i =
      (take s (page_slots h b) @ (up, length payload) # drop s (page_slots h b)) ! i" .
qed

text \<open>The header an insertion writes back.\<close>

definition insert_header :: "page_header \<Rightarrow> nat \<Rightarrow> page_header" where
  "insert_header h len =
     h\<lparr>ph_lower := word_of_nat (unat (ph_lower h) + 4), ph_upper := word_of_nat (unat (ph_upper h) - len)\<rparr>"

lemma insert_header_fields:
  assumes "unat (ph_lower h) + 4 + len \<le> unat (ph_upper h)"
  shows "unat (ph_lower (insert_header h len)) = unat (ph_lower h) + 4"
    and "unat (ph_upper (insert_header h len)) = unat (ph_upper h) - len"
    and "ph_special (insert_header h len) = ph_special h"
proof -
  have "unat (ph_upper h) < 65536" by simp
  with assms have "unat (ph_lower h) + 4 < 65536" and "unat (ph_upper h) - len < 65536" by linarith+
  then show "unat (ph_lower (insert_header h len)) = unat (ph_lower h) + 4"
    and "unat (ph_upper (insert_header h len)) = unat (ph_upper h) - len"
    by (simp_all add: insert_header_def unat_u16_of_nat del: of_nat_add)
  show "ph_special (insert_header h len) = ph_special h" by (simp add: insert_header_def)
qed

lemma insert_stores:
  assumes h: "header p = Ok h" and lo: "64 \<le> unat (ph_lower h)" "4 dvd unat (ph_lower h)"
    and len: "length (pg_bytes p) < 65536" "unat (ph_upper h) \<le> length (pg_bytes p)"
    and fits: "unat (ph_lower h) + 4 + length payload \<le> unat (ph_upper h)"
    and s: "unat slot \<le> slot_total h"
  shows "insert_cell_at crc slot payload p = (Ok slot, \<lparr>pg_bytes = page_image crc 0
     (insert_header h (length payload))
     (drop 64 (inserted (pg_bytes p) (unat slot) (slot_total h) (unat (ph_upper h) - length payload) payload))\<rparr>)"
proof -
  let ?b = "pg_bytes p" and ?n = "slot_total h" and ?s = "unat slot"
  let ?up = "unat (ph_upper h) - length payload"
  have ub: "length ?b < usize_bound" using len(1) by (rule usize_bound_large)
  have low: "unat (ph_lower h) = 64 + 4 * ?n" using lo by (rule slot_total_eq)
  obtain c where c: "slot_count p = Ok c" "unat c = ?n" using slot_count_Ok [OF h lo(1)] by blast
  then have slot: "\<not> slot > c" using s by (simp add: word_less_nat_alt)
  have up: "unat (ph_upper h) < 65536" by simp
  have sub: "checked_sub_usize (unat (ph_upper h)) (length payload) = Some ?up"
    using fits by (simp add: checked_sub_usize_def)
  have dir: "wrapping_sub_usize (unat (ph_lower h)) 64 = 4 * ?n"
    using wrapping_sub_usize_le [OF lo(1) usize_bound_large [OF unat_u16_bound]] low by simp
  have p: "p = \<lparr>pg_bytes = ?b\<rparr>" by simp
  have tail: "(if 4 * ?n - ?s * 4 > 0 then store (\<lambda>b. copy_within b (64 + ?s * 4) (unat (ph_lower h)) (64 + ?s * 4 + 4))
       else areturn ()) p = (Ok (), \<lparr>pg_bytes = shift_right ?b ?s ?n\<rparr>)"
    using s low fits len
    by (auto simp: shift_right_def store_def aupdate_def copy_within_def areturn_eq mult.commute right_diff_distrib')
  have w1: "write_bytes (shift_right ?b ?s ?n) ?up payload = Ok (overwrite (shift_right ?b ?s ?n) ?up payload)"
    using fits len ub by (simp add: write_bytes_in)
  have rest: "abind (store (\<lambda>b. write_bytes b ?up payload)) (\<lambda>_.
     abind (store (\<lambda>b. write_u16 b (64 + ?s * 4) (word_of_nat ?up))) (\<lambda>_.
     abind (store (\<lambda>b. write_u16 b (64 + ?s * 4 + 2) (word_of_nat (length payload)))) (\<lambda>_.
     abind (write_header (insert_header h (length payload))) (\<lambda>_.
     abind (refresh_checksum crc) (\<lambda>_. areturn slot))))) \<lparr>pg_bytes = shift_right ?b ?s ?n\<rparr> =
     (Ok slot, \<lparr>pg_bytes = page_image crc 0 (insert_header h (length payload))
        (drop 64 (inserted ?b ?s ?n ?up payload))\<rparr>)"
    using w1 s low fits len ub
    by (simp add: abind_store_Ok write_u16_in abind_Ok write_header_image refresh_checksum_image areturn_eq
        inserted_def mult.commute)
  have guards: "\<not> 65535 < length payload" "\<not> ?up < unat (ph_lower h) + 4" using fits up by linarith+
  show ?thesis
    unfolding insert_cell_at_def
    using h c(1) slot sub guards tail rest [unfolded insert_header_def]
    by (simp add: abind_Ok alift_eq dir Let_def insert_header_def del: of_nat_add of_nat_diff)
qed

lemma slots_wf_inserted:
  assumes "slots_wf h slots" and "unat (ph_lower h) + 4 + len \<le> unat (ph_upper h)"
    and "unat (ph_upper h) \<le> unat (ph_special h)"
  shows "slots_wf (insert_header h len)
    (take s slots @ (unat (ph_upper h) - len, len) # drop s slots)"
proof -
  note f = insert_header_fields [OF assms(2)]
  have all: "\<forall>x \<in> set slots. unat (ph_upper h) \<le> fst x \<and> fst x + snd x \<le> unat (ph_special h)"
    and sw: "sorted_wrt apart slots"
    using assms(1) by (auto simp: slots_wf_def list_all_iff)
  have new: "\<forall>x \<in> set slots. apart x (unat (ph_upper h) - len, len)"
    using all assms(2) by (auto simp: apart_def)
  have "sorted_wrt apart (take s slots @ drop s slots)" using sw by simp
  then have "sorted_wrt apart (take s slots @ (unat (ph_upper h) - len, len) # drop s slots)"
    using new unfolding sorted_wrt_append sorted_wrt.simps
    by (auto simp: apart_sym [of "(unat (ph_upper h) - len, len)"] dest: in_set_takeD in_set_dropD)
  moreover have "\<forall>x \<in> set (take s slots @ (unat (ph_upper h) - len, len) # drop s slots).
      unat (ph_upper h) - len \<le> fst x \<and> fst x + snd x \<le> unat (ph_special h)"
  proof
    fix x assume "x \<in> set (take s slots @ (unat (ph_upper h) - len, len) # drop s slots)"
    then have "x \<in> set slots \<or> x = (unat (ph_upper h) - len, len)"
      by (auto dest: in_set_takeD in_set_dropD)
    then show "unat (ph_upper h) - len \<le> fst x \<and> fst x + snd x \<le> unat (ph_special h)"
    proof
      assume "x \<in> set slots"
      with all have "unat (ph_upper h) \<le> fst x" and "fst x + snd x \<le> unat (ph_special h)" by blast+
      then show ?thesis by linarith
    next
      assume "x = (unat (ph_upper h) - len, len)"
      with assms(2,3) show ?thesis by simp
    qed
  qed
  ultimately show ?thesis
    using f by (simp add: slots_wf_def list_all_iff case_prod_beta)
qed

lemma insert_success:
  assumes wf: "page_wf crc p" and s: "unat slot \<le> length (page_cells p)"
    and fits: "length payload + 4 \<le> free_bytes p"
  obtains p' where "insert_cell_at crc slot payload p = (Ok slot, p')" and "page_wf crc p'"
    and "page_cells p' = take (unat slot) (page_cells p) @ payload # drop (unat slot) (page_cells p)"
    and "free_bytes p' = free_bytes p - length payload - 4"
    and "length (pg_bytes p') = length (pg_bytes p)"
proof -
  from wf obtain h r where h: "header p = Ok h" and b: "header_bounds h (length (pg_bytes p))"
    and lo: "64 \<le> unat (ph_lower h)" "4 dvd unat (ph_lower h)"
    and sl: "slots_wf h (page_slots h (pg_bytes p))"
    and len: "64 \<le> length (pg_bytes p)" "length (pg_bytes p) < 65536"
    by (rule page_wf_obtain)
  let ?b = "pg_bytes p" and ?n = "slot_total h" and ?s = "unat slot"
  let ?up = "unat (ph_upper h) - length payload" and ?h = "insert_header h (length payload)"
  let ?b' = "inserted ?b ?s ?n ?up payload"
  have room: "unat (ph_lower h) + 4 + length payload \<le> unat (ph_upper h)"
    using fits h by (simp add: free_bytes_def)
  note f = insert_header_fields [OF room]
  have low: "unat (ph_lower h) = 64 + 4 * ?n" using lo by (rule slot_total_eq)
  have sn: "?s \<le> ?n" using s by (simp add: length_page_cells [OF h])
  have geo: "68 + 4 * ?n \<le> ?up" "?up + length payload \<le> length ?b"
    and upto: "unat (ph_upper h) \<le> unat (ph_special h)"
    using room low b by (simp_all add: header_bounds_def)
  have "unat (ph_lower ?h) = 64 + 4 * Suc ?n" using f(1) low by simp
  then have tot: "slot_total ?h = Suc ?n" by (simp add: slot_total_def [of ?h])
  note slots = page_slots_inserted [OF sn geo len(2) tot]
  have hb: "header_bounds ?h (length ?b')" using b f room by (auto simp: header_bounds_def)
  have sl': "slots_wf ?h (page_slots ?h ?b')" using slots_wf_inserted [OF sl room upto] slots by simp
  have rb: "64 \<le> length ?b'" "length ?b' < 65536" "64 \<le> unat (ph_lower ?h)" "4 dvd unat (ph_lower ?h)"
    using len f lo by simp_all
  note new = rebuilt_page [OF rb(1,2) hb rb(3,4) sl', where crc = crc and r = 0]
  have body: "bslice ?b' off n = bslice ?b off n" if "(off, n) \<in> set (page_slots h ?b)" for off n
    using that sl geo b
    by (intro inserted_body [OF sn geo(1)]) (fastforce simp: slots_wf_def list_all_iff header_bounds_def)+
  have "page_cells (rebuilt crc 0 ?h ?b') = take ?s (page_cells p) @ payload # drop ?s (page_cells p)"
    using body inserted_payload [OF sn geo]
    by (auto simp: new(3) slots page_cells_eq [OF h] take_map drop_map dest!: in_set_takeD in_set_dropD)
  moreover have "free_bytes (rebuilt crc 0 ?h ?b') = free_bytes p - length payload - 4"
    using f room new(2) h by (simp add: free_bytes_def)
  moreover have "insert_cell_at crc slot payload p = (Ok slot, rebuilt crc 0 ?h ?b')"
    by (rule insert_stores [OF h lo len(2) _ room sn]) (use b in \<open>simp add: header_bounds_def\<close>)
  ultimately show thesis using new(1,4) that by simp
qed

lemma insert_bad_slot:
  assumes "page_wf crc p" and "length (page_cells p) < unat slot"
  shows "insert_cell_at crc slot payload p = (Err (CorruptPage ''slot out of bounds''), p)"
proof -
  from assms(1) obtain h where h: "header p = Ok h" "64 \<le> unat (ph_lower h)" by (rule page_wf_obtain)
  from slot_count_Ok [OF h] obtain c where "slot_count p = Ok c" "unat c = slot_total h" by blast
  with assms(2) h(1) show ?thesis
    by (simp add: insert_cell_at_def abind_Ok alift_eq length_page_cells word_less_nat_alt)
qed

lemma insert_full:
  assumes "page_wf crc p" and "unat slot \<le> length (page_cells p)"
    and "free_bytes p < length payload + 4"
  shows "insert_cell_at crc slot payload p = (Err PageFull, p)"
proof -
  from assms(1) obtain h where h: "header p = Ok h" "64 \<le> unat (ph_lower h)"
    and b: "header_bounds h (length (pg_bytes p))" by (rule page_wf_obtain)
  from slot_count_Ok [OF h] obtain c where c: "slot_count p = Ok c" "unat c = slot_total h" by blast
  then have s: "\<not> c < slot" using assms(2) h(1) by (simp add: length_page_cells word_less_nat_alt)
  have full: "unat (ph_upper h) < unat (ph_lower h) + (length payload + 4)"
    using assms(3) h(1) b by (auto simp: free_bytes_def header_bounds_def)
  show ?thesis
  proof (cases "length payload \<le> unat (ph_upper h)")
    case True
    with full have "unat (ph_upper h) - length payload < unat (ph_lower h) + 4" by linarith
    with True c s h(1) show ?thesis
      by (simp add: insert_cell_at_def abind_Ok alift_eq Let_def checked_sub_usize_def)
  next
    case False
    with c s h(1) show ?thesis
      by (simp add: insert_cell_at_def abind_Ok abind_Err alift_eq Let_def checked_sub_usize_def)
  qed
qed

section \<open>Deleting\<close>

definition shift_left :: "byte list \<Rightarrow> nat \<Rightarrow> nat \<Rightarrow> byte list" where
  "shift_left b s n =
     (if Suc s < n then overwrite b (64 + 4 * s) (bslice b (68 + 4 * s) (4 * (n - Suc s))) else b)"

lemma length_shift_left [simp]: "length (shift_left b s n) = length b"
  by (simp add: shift_left_def)

lemma shift_left_slot:
  assumes "64 + 4 * n \<le> length b" and "s < n" and "Suc i < n"
  shows "slot_at (shift_left b s n) i = (if i < s then slot_at b i else slot_at b (Suc i))"
proof (cases "i < s")
  case True
  with assms show ?thesis by (simp add: slot_at_def shift_left_def length_bslice buf_simps)
next
  case False
  then have "Suc s < n" using assms by linarith
  moreover obtain j where "i = s + j" using False le_Suc_ex not_less by blast
  ultimately show ?thesis using assms
    by (simp add: slot_at_def shift_left_def bslice_overwrite_inside length_bslice bslice_bslice algebra_simps)
qed

lemma bslice_shift_left_after:
  "64 + 4 * n \<le> length b \<Longrightarrow> 64 + 4 * n \<le> off \<Longrightarrow> s < n \<Longrightarrow> bslice (shift_left b s n) off k = bslice b off k"
  by (auto simp: shift_left_def length_bslice buf_simps)

lemma page_slots_deleted:
  assumes "64 + 4 * slot_total h \<le> length b" and "s < slot_total h"
    and "slot_total h = Suc (slot_total h')"
  shows "page_slots h' (shift_left b s (slot_total h)) =
    take s (page_slots h b) @ drop (Suc s) (page_slots h b)"
proof (rule nth_equalityI)
  show "length (page_slots h' (shift_left b s (slot_total h))) =
      length (take s (page_slots h b) @ drop (Suc s) (page_slots h b))"
    using assms by simp
next
  fix i assume "i < length (page_slots h' (shift_left b s (slot_total h)))"
  then have i: "Suc i < slot_total h" "i < slot_total h'" using assms(3) by simp_all
  then show "page_slots h' (shift_left b s (slot_total h)) ! i =
      (take s (page_slots h b) @ drop (Suc s) (page_slots h b)) ! i"
    using assms(1,2) by (auto simp: nth_append page_slots_nth shift_left_slot)
qed

lemma sorted_wrt_delete: "sorted_wrt P xs \<Longrightarrow> sorted_wrt P (take i xs @ drop (Suc i) xs)"
proof (cases "i < length xs")
  case True
  assume "sorted_wrt P xs"
  then have "sorted_wrt P (take i xs @ xs ! i # drop (Suc i) xs)"
    using True by (simp only: id_take_nth_drop [symmetric])
  then show ?thesis by (auto simp: sorted_wrt_append)
qed simp

definition delete_header :: "page_header \<Rightarrow> page_header" where
  "delete_header h = h\<lparr>ph_lower := saturating_sub_word (ph_lower h) 4\<rparr>"

lemma delete_header_fields:
  assumes "68 \<le> unat (ph_lower h)"
  shows "unat (ph_lower (delete_header h)) = unat (ph_lower h) - 4"
    and "ph_upper (delete_header h) = ph_upper h" and "ph_special (delete_header h) = ph_special h"
proof -
  have "(4 :: u16) \<le> ph_lower h" using assms by (simp add: word_le_nat_alt)
  then show "unat (ph_lower (delete_header h)) = unat (ph_lower h) - 4"
    by (simp add: delete_header_def saturating_sub_word_def unat_sub)
qed (simp_all add: delete_header_def)

lemma delete_stores:
  assumes h: "header p = Ok h" and lo: "64 \<le> unat (ph_lower h)" "4 dvd unat (ph_lower h)"
    and len: "64 \<le> length (pg_bytes p)" "length (pg_bytes p) < 65536" "unat (ph_lower h) \<le> length (pg_bytes p)"
    and s: "unat slot < slot_total h"
  shows "delete_cell crc slot p =
    (Ok (), rebuilt crc 0 (delete_header h) (shift_left (pg_bytes p) (unat slot) (slot_total h)))"
proof -
  let ?b = "pg_bytes p" and ?n = "slot_total h" and ?s = "unat slot"
  have ub: "length ?b < usize_bound" using len(2) by (rule usize_bound_large)
  have low: "unat (ph_lower h) = 64 + 4 * ?n" using lo by (rule slot_total_eq)
  obtain c where c: "slot_count p = Ok c" "unat c = ?n" using slot_count_Ok [OF h lo(1)] by blast
  then have slot: "\<not> c \<le> slot" using s by (simp add: word_le_nat_alt)
  have tail: "(if 64 + ?s * 4 + 4 < unat (ph_lower h)
       then store (\<lambda>b. copy_within b (64 + ?s * 4 + 4) (unat (ph_lower h)) (64 + ?s * 4))
       else areturn ()) p = (Ok (), \<lparr>pg_bytes = shift_left ?b ?s ?n\<rparr>)"
    using s low len
    by (auto simp: shift_left_def store_def aupdate_def copy_within_def areturn_eq mult.commute right_diff_distrib')
  show ?thesis
    unfolding delete_cell_def
    using h c(1) slot tail len ub
    by (simp add: abind_Ok alift_eq Let_def delete_header_def write_header_image refresh_checksum_image)
qed

lemma delete_success:
  assumes wf: "page_wf crc p" and s: "unat slot < length (page_cells p)"
  obtains p' where "delete_cell crc slot p = (Ok (), p')" and "page_wf crc p'"
    and "page_cells p' = take (unat slot) (page_cells p) @ drop (Suc (unat slot)) (page_cells p)"
    and "free_bytes p' = free_bytes p + 4"
proof -
  from wf obtain h r where h: "header p = Ok h" and b: "header_bounds h (length (pg_bytes p))"
    and lo: "64 \<le> unat (ph_lower h)" "4 dvd unat (ph_lower h)"
    and sl: "slots_wf h (page_slots h (pg_bytes p))"
    and len: "64 \<le> length (pg_bytes p)" "length (pg_bytes p) < 65536"
    by (rule page_wf_obtain)
  let ?b = "pg_bytes p" and ?n = "slot_total h" and ?s = "unat slot" and ?h = "delete_header h"
  let ?b' = "shift_left ?b ?s ?n"
  have low: "unat (ph_lower h) = 64 + 4 * ?n" using lo by (rule slot_total_eq)
  have sn: "?s < ?n" using s by (simp add: length_page_cells [OF h])
  have "68 \<le> unat (ph_lower h)" using low sn by simp
  note f = delete_header_fields [OF this]
  have "unat (ph_lower ?h) = 64 + 4 * (?n - 1)" using f(1) low sn by simp
  then have tot: "?n = Suc (slot_total ?h)" using sn by (simp add: slot_total_def [of ?h])
  have geo: "64 + 4 * ?n \<le> length ?b" using low b by (simp add: header_bounds_def)
  note slots = page_slots_deleted [OF geo sn tot]
  have hb: "header_bounds ?h (length ?b')" using b f by (auto simp: header_bounds_def)
  have "sorted_wrt apart (take ?s (page_slots h ?b) @ drop (Suc ?s) (page_slots h ?b))"
    using sl by (simp add: slots_wf_def sorted_wrt_delete)
  then have sl': "slots_wf ?h (page_slots ?h ?b')"
    using sl f by (auto simp: slots slots_wf_def list_all_iff dest: in_set_takeD in_set_dropD)
  have rb: "64 \<le> length ?b'" "length ?b' < 65536" "64 \<le> unat (ph_lower ?h)" "4 dvd unat (ph_lower ?h)"
    using len f low sn by simp_all
  note new = rebuilt_page [OF rb(1,2) hb rb(3,4) sl', where crc = crc and r = 0]
  have body: "bslice ?b' off n = bslice ?b off n" if "(off, n) \<in> set (page_slots h ?b)" for off n
    using that sl geo b low
    by (intro bslice_shift_left_after [OF geo _ sn]) (fastforce simp: slots_wf_def list_all_iff header_bounds_def)
  have "page_cells (rebuilt crc 0 ?h ?b') = take ?s (page_cells p) @ drop (Suc ?s) (page_cells p)"
    using body by (auto simp: new(3) slots page_cells_eq [OF h] take_map drop_map dest!: in_set_takeD in_set_dropD)
  moreover have "free_bytes (rebuilt crc 0 ?h ?b') = free_bytes p + 4"
    using f new(2) h b low sn by (auto simp: free_bytes_def header_bounds_def)
  moreover have "delete_cell crc slot p = (Ok (), rebuilt crc 0 ?h ?b')"
    by (rule delete_stores [OF h lo len _ sn]) (use b in \<open>simp add: header_bounds_def\<close>)
  ultimately show thesis using new(1) that by simp
qed

lemma delete_bad_slot:
  assumes "page_wf crc p" and "length (page_cells p) \<le> unat slot"
  shows "delete_cell crc slot p = (Err (CorruptPage ''slot out of bounds''), p)"
proof -
  from assms(1) obtain h where h: "header p = Ok h" "64 \<le> unat (ph_lower h)" by (rule page_wf_obtain)
  from slot_count_Ok [OF h] obtain c where "slot_count p = Ok c" "unat c = slot_total h" by blast
  with assms(2) h(1) show ?thesis
    by (simp add: delete_cell_def abind_Ok alift_eq length_page_cells word_le_nat_alt)
qed

section \<open>Overwriting in place\<close>

lemma overwrite_behind_header:
  assumes "pg_bytes p = page_image crc r h (drop 64 (pg_bytes p))" and "64 \<le> off"
    and "off + length xs \<le> length (pg_bytes p)" and "length (pg_bytes p) < usize_bound"
  shows "refresh_checksum crc \<lparr>pg_bytes = overwrite (pg_bytes p) off xs\<rparr>
    = (Ok (), rebuilt crc r h (overwrite (pg_bytes p) off xs))"
proof -
  define c where "c = crc (header_image 0 r h @ drop 64 (pg_bytes p))"
  have "overwrite (pg_bytes p) off xs = take 64 (overwrite (pg_bytes p) off xs) @ drop 64 (overwrite (pg_bytes p) off xs)"
    by simp
  also have "take 64 (overwrite (pg_bytes p) off xs) = take 64 (pg_bytes p)"
    using assms(2,3) by (simp add: take_overwrite_before)
  also have "take 64 (pg_bytes p) = header_image c r h"
    by (subst assms(1)) (simp add: page_image_def c_def)
  finally show ?thesis
    using refresh_checksum_image [of "drop 64 (overwrite (pg_bytes p) off xs)" crc c r h] assms(2,3,4)
    by simp
qed

lemma slots_wf_bound:
  "slots_wf h slots \<Longrightarrow> (off, n) \<in> set slots \<Longrightarrow> unat (ph_upper h) \<le> off \<and> off + n \<le> unat (ph_special h)"
  by (auto simp: slots_wf_def list_all_iff)

lemma overwrite_success:
  assumes wf: "page_wf crc p" and s: "unat slot < length (page_cells p)"
    and same: "length payload = length (page_cells p ! unat slot)"
  obtains p' where "overwrite_cell crc slot payload p = (Ok (), p')" and "page_wf crc p'"
    and "page_cells p' = (page_cells p)[unat slot := payload]" and "free_bytes p' = free_bytes p"
proof -
  from wf obtain h r where h: "header p = Ok h" and b: "header_bounds h (length (pg_bytes p))"
    and img: "pg_bytes p = page_image crc r h (drop 64 (pg_bytes p))"
    and lo: "64 \<le> unat (ph_lower h)" "4 dvd unat (ph_lower h)"
    and sl: "slots_wf h (page_slots h (pg_bytes p))"
    and len: "64 \<le> length (pg_bytes p)" "length (pg_bytes p) < 65536"
    by (rule page_wf_obtain)
  let ?b = "pg_bytes p" and ?n = "slot_total h" and ?s = "unat slot"
  let ?S = "page_slots h ?b"
  obtain o' l' where ol: "slot_at ?b ?s = (o', l')" by fastforce
  let ?b' = "overwrite ?b o' payload"
  have ub: "length ?b < usize_bound" using len(2) by (rule usize_bound_large)
  have low: "unat (ph_lower h) = 64 + 4 * ?n" using lo by (rule slot_total_eq)
  have sn: "?s < ?n" using s by (simp add: length_page_cells [OF h])
  have mem: "?S ! ?s = (o', l')" using sn ol by (simp add: page_slots_nth)
  then have "(o', l') \<in> set ?S" using sn by (metis length_page_slots nth_mem)
  from slots_wf_bound [OF sl this] have bnd: "unat (ph_upper h) \<le> o'" "o' + l' \<le> unat (ph_special h)" by simp_all
  then have inb: "64 + 4 * ?n \<le> o'" "o' + l' \<le> length ?b" using b low by (auto simp: header_bounds_def)
  have l': "length payload = l'"
    using same sn mem inb(2) by (simp add: page_cells_eq [OF h] length_bslice_in)
  have slots: "page_slots h ?b' = ?S"
    using inb l' by (auto simp: page_slots_def slot_at_def buf_simps)
  have rb: "64 \<le> length ?b'" "length ?b' < 65536" "header_bounds h (length ?b')" "slots_wf h (page_slots h ?b')"
    using len b sl slots by simp_all
  note new = rebuilt_page [OF rb(1,2,3) lo rb(4), where crc = crc and r = r]
  have cell_i: "bslice ?b' (fst (?S ! i)) (snd (?S ! i)) = (if i = ?s then payload else bslice ?b (fst (?S ! i)) (snd (?S ! i)))"
    if "i < ?n" for i
  proof (cases "i = ?s")
    case True
    then show ?thesis using mem inb l' by (simp add: buf_simps)
  next
    case False
    then have "apart (?S ! i) (o', l')" using slots_wf_apart [OF sl, of i ?s] that sn mem by simp
    then show ?thesis using False inb l' by (auto simp: apart_def buf_simps)
  qed
  have "page_cells (rebuilt crc r h ?b') = (page_cells p)[?s := payload]"
    unfolding new(3) slots page_cells_eq [OF h]
    by (rule nth_equalityI) (auto simp: cell_i case_prod_beta nth_list_update)
  moreover have "free_bytes (rebuilt crc r h ?b') = free_bytes p"
    using new(2) h by (simp add: free_bytes_def)
  moreover have "overwrite_cell crc slot payload p = (Ok (), rebuilt crc r h ?b')"
  proof -
    obtain c where c: "slot_count p = Ok c" "unat c = ?n" using slot_count_Ok [OF h lo(1)] by blast
    then have slot: "\<not> c \<le> slot" using sn by (simp add: word_le_nat_alt)
    have rd: "read_u16 ?b (64 + ?s * 4) = Ok (from_le_bytes (bslice ?b (64 + 4 * ?s) 2))"
      "read_u16 ?b (64 + ?s * 4 + 2) = Ok (from_le_bytes (bslice ?b (66 + 4 * ?s) 2))"
      using inb sn ub by (simp_all add: read_u16_in mult.commute)
    have "o' + l' < usize_bound" using inb ub by linarith
    then show ?thesis
      using c(1) slot rd ol inb l' ub overwrite_behind_header [OF img, of o' payload]
      by (simp add: overwrite_cell_def abind_Ok alift_eq Let_def slot_at_def checked_add_usize_def
          abind_store_Ok write_bytes_in page_update)
  qed
  ultimately show thesis using new(1) that by simp
qed

lemma overwrite_rejected:
  assumes wf: "page_wf crc p"
  shows "length (page_cells p) \<le> unat slot \<Longrightarrow>
      overwrite_cell crc slot payload p = (Err (CorruptPage ''slot out of bounds''), p)"
    and "unat slot < length (page_cells p) \<Longrightarrow> length payload \<noteq> length (page_cells p ! unat slot) \<Longrightarrow>
      overwrite_cell crc slot payload p = (Err (CorruptPage ''overwrite cell length mismatch''), p)"
proof -
  from wf obtain h r where h: "header p = Ok h" and b: "header_bounds h (length (pg_bytes p))"
    and lo: "64 \<le> unat (ph_lower h)" "4 dvd unat (ph_lower h)"
    and sl: "slots_wf h (page_slots h (pg_bytes p))"
    and len: "64 \<le> length (pg_bytes p)" "length (pg_bytes p) < 65536"
    by (rule page_wf_obtain)
  obtain c where c: "slot_count p = Ok c" "unat c = slot_total h" using slot_count_Ok [OF h lo(1)] by blast
  show "overwrite_cell crc slot payload p = (Err (CorruptPage ''slot out of bounds''), p)"
    if "length (page_cells p) \<le> unat slot"
    using that c h by (simp add: overwrite_cell_def abind_Ok alift_eq length_page_cells word_le_nat_alt)
  show "overwrite_cell crc slot payload p = (Err (CorruptPage ''overwrite cell length mismatch''), p)"
    if s: "unat slot < length (page_cells p)" and ne: "length payload \<noteq> length (page_cells p ! unat slot)"
  proof -
    have sn: "unat slot < slot_total h" using s h by (simp add: length_page_cells)
    have low: "unat (ph_lower h) = 64 + 4 * slot_total h" using lo by (rule slot_total_eq)
    obtain o' l' where ol: "slot_at (pg_bytes p) (unat slot) = (o', l')" by fastforce
    have mem: "page_slots h (pg_bytes p) ! unat slot = (o', l')" using sn ol by (simp add: page_slots_nth)
    then have "o' + l' \<le> length (pg_bytes p)"
      using slots_wf_nth [OF sl, of "unat slot"] sn b by (auto simp: header_bounds_def)
    then have "length payload \<noteq> l'"
      using ne sn mem by (simp add: page_cells_eq [OF h] length_bslice_in)
    moreover have "\<not> c \<le> slot" using c sn by (simp add: word_le_nat_alt)
    moreover have "64 + 4 * slot_total h \<le> length (pg_bytes p)" using low b by (simp add: header_bounds_def)
    ultimately show ?thesis
      using c(1) ol sn usize_bound_large [OF len(2)]
      by (simp add: overwrite_cell_def abind_Ok alift_eq Let_def slot_at_def read_u16_in mult.commute)
  qed
qed

section \<open>Construction\<close>

lemma fresh_header_fields:
  assumes "special < 65536"
  shows "unat (ph_lower (fresh_header kind page_id rel_id g special)) = 64"
    and "unat (ph_upper (fresh_header kind page_id rel_id g special)) = special"
    and "unat (ph_special (fresh_header kind page_id rel_id g special)) = special"
  using assms by (simp_all add: fresh_header_def unat_u16_of_nat)

lemma fresh_page:
  assumes "64 \<le> length b" and "length b < 65536" and "64 \<le> special" and "special \<le> length b"
  shows "page_wf crc (rebuilt crc 0 (fresh_header kind page_id rel_id g special) b)"
    and "page_cells (rebuilt crc 0 (fresh_header kind page_id rel_id g special) b) = []"
    and "header (rebuilt crc 0 (fresh_header kind page_id rel_id g special) b)
      = Ok (fresh_header kind page_id rel_id g special)"
    and "free_bytes (rebuilt crc 0 (fresh_header kind page_id rel_id g special) b) = special - 64"
proof -
  let ?h = "fresh_header kind page_id rel_id g special"
  have f: "unat (ph_lower ?h) = 64" "unat (ph_upper ?h) = special" "unat (ph_special ?h) = special"
    using assms(2,4) fresh_header_fields [of special] by simp_all
  then have tot: "slot_total ?h = 0" by (simp add: slot_total_def)
  have "header_bounds ?h (length b)" "slots_wf ?h (page_slots ?h b)"
    using f assms tot by (simp_all add: header_bounds_def slots_wf_def page_slots_def)
  note new = rebuilt_page [OF assms(1,2) this(1) _ _ this(2), where crc = crc and r = 0]
  from new f tot show "page_wf crc (rebuilt crc 0 ?h b)" "page_cells (rebuilt crc 0 ?h b) = []"
    "header (rebuilt crc 0 ?h b) = Ok ?h" by (simp_all add: page_slots_def)
  with f show "free_bytes (rebuilt crc 0 ?h b) = special - 64" by (simp add: free_bytes_def)
qed

lemma page_new_with_special_Ok:
  assumes "68 \<le> page_size" and "page_size < 65536" and "special_len \<le> page_size - 64"
  shows "page_new_with_special crc page_size kind page_id rel_id special_len =
    Ok (rebuilt crc 0 (fresh_header kind page_id rel_id 1 (page_size - special_len)) (replicate page_size 0))"
  using assms usize_bound_large [OF assms(2)]
  by (simp add: page_new_with_special_def checked_sub_usize_def run_on_def write_header_refresh)

lemma reinitialize_with_special_Ok:
  assumes "64 \<le> length (pg_bytes p)" and "length (pg_bytes p) < 65536"
    and "special_len \<le> length (pg_bytes p) - 64"
  shows "reinitialize_with_special crc kind page_id rel_id g special_len p =
    (Ok (), rebuilt crc 0 (fresh_header kind page_id rel_id g (length (pg_bytes p) - special_len))
       (replicate (length (pg_bytes p)) 0))"
proof -
  let ?n = "length (pg_bytes p)"
  let ?w = "abind (write_header (fresh_header kind page_id rel_id g (?n - special_len))) (\<lambda>_. refresh_checksum crc)"
  have "?w \<lparr>pg_bytes = replicate ?n 0\<rparr> =
      (Ok (), rebuilt crc 0 (fresh_header kind page_id rel_id g (?n - special_len)) (replicate ?n 0))"
    using assms usize_bound_large [OF assms(2)] by (simp add: write_header_refresh)
  moreover have "special_len \<le> ?n" using assms(3) by linarith
  ultimately show ?thesis
    using assms(3)
    by (simp add: reinitialize_with_special_def Let_def abind_store_Ok abind_Ok alift_eq
        checked_sub_usize_def page_update)
qed

lemma page_from_bytes_wf:
  assumes "page_wf crc p"
  shows "page_from_bytes crc (pg_bytes p) = Ok p"
proof -
  from assms obtain h where "64 \<le> length (pg_bytes p)" by (rule page_wf_obtain)
  then show ?thesis using assms by (simp add: page_from_bytes_def page_wf_def)
qed

section \<open>Header field updates\<close>

text \<open>
  The outcome of a setter: the header is the old one with the field replaced, and the cells, the
  free space and the invariant are untouched.
\<close>

definition header_patched :: "crc_fn \<Rightarrow> page \<Rightarrow> (page_header \<Rightarrow> page_header) \<Rightarrow> unit result \<times> page \<Rightarrow> bool" where
  "header_patched crc p f res = (case res of
     (Ok _, p') \<Rightarrow> page_wf crc p' \<and> page_cells p' = page_cells p \<and> free_bytes p' = free_bytes p
        \<and> header p' = (case header p of Ok h \<Rightarrow> Ok (f h) | e \<Rightarrow> e)
   | _ \<Rightarrow> False)"

lemma header_field_overwrite:
  "overwrite (header_image c r h @ body) 32 (to_le_bytes lsn) = header_image c r (h\<lparr>ph_page_lsn := lsn\<rparr>) @ body"
  "overwrite (header_image c r h @ body) 48 (to_le_bytes g) = header_image c r (h\<lparr>ph_generation := g\<rparr>) @ body"
  "(header_image c r h @ body)[52 := page_state_as_u8 st] = header_image c r (h\<lparr>ph_state := st\<rparr>) @ body"
  "(header_image c r h @ body)[53 := x] = header_image c r (h\<lparr>ph_free_class_hint := x\<rparr>) @ body"
  "overwrite (header_image c r h @ body) 54 (to_le_bytes d) = header_image c r (h\<lparr>ph_dead_bytes_hint := d\<rparr>) @ body"
  "overwrite (header_image c r h @ body) 56 (to_le_bytes q) = header_image c r (h\<lparr>ph_horizon_csn_hint := q\<rparr>) @ body"
  by (simp_all add: list_update_overwrite overwrite_in header_image_def)

lemma header_patched_intro:
  assumes wf: "page_wf crc p"
    and same: "\<And>h. ph_lower (f h) = ph_lower h" "\<And>h. ph_upper (f h) = ph_upper h" "\<And>h. ph_special (f h) = ph_special h"
    and upd: "\<And>c r h body. length body + 64 < usize_bound \<Longrightarrow>
       upd (header_image c r h @ body) = Ok (header_image c r (f h) @ body)"
  shows "header_patched crc p f (abind (store upd) (\<lambda>_. refresh_checksum crc) p)"
proof -
  from wf obtain h r where h: "header p = Ok h" and b: "header_bounds h (length (pg_bytes p))"
    and img: "pg_bytes p = page_image crc r h (drop 64 (pg_bytes p))"
    and lo: "64 \<le> unat (ph_lower h)" "4 dvd unat (ph_lower h)"
    and sl: "slots_wf h (page_slots h (pg_bytes p))"
    and len: "64 \<le> length (pg_bytes p)" "length (pg_bytes p) < 65536"
    by (rule page_wf_obtain)
  let ?b = "pg_bytes p"
  have ub: "length (drop 64 ?b) + 64 < usize_bound" using usize_bound_large [OF len(2)] len(1) by simp
  define c where "c = crc (header_image 0 r h @ drop 64 ?b)"
  have "?b = header_image c r h @ drop 64 ?b" using img by (simp only: page_image_def c_def)
  with upd [OF ub, of c r h] have "upd ?b = Ok (header_image c r (f h) @ drop 64 ?b)" by simp
  then have run: "abind (store upd) (\<lambda>_. refresh_checksum crc) p = (Ok (), rebuilt crc r (f h) ?b)"
    using ub by (simp add: abind_store_Ok page_update refresh_checksum_image)
  have tot: "page_slots (f h) ?b = page_slots h ?b" by (simp add: page_slots_def slot_total_def same)
  have rb: "header_bounds (f h) (length ?b)" "64 \<le> unat (ph_lower (f h))" "4 dvd unat (ph_lower (f h))"
    "slots_wf (f h) (page_slots (f h) ?b)"
    using b lo sl tot by (simp_all add: same header_bounds_def slots_wf_def)
  note new = rebuilt_page [OF len rb, where crc = crc and r = r]
  show ?thesis
    using new h tot by (simp add: run header_patched_def page_cells_eq free_bytes_def same)
qed

lemma setters_patch:
  assumes "page_wf crc p"
  shows "header_patched crc p (\<lambda>h. h\<lparr>ph_page_lsn := lsn\<rparr>) (set_page_lsn crc lsn p)"
    and "header_patched crc p (\<lambda>h. h\<lparr>ph_generation := g\<rparr>) (set_generation crc g p)"
    and "header_patched crc p (\<lambda>h. h\<lparr>ph_state := st\<rparr>) (set_state crc st p)"
    and "header_patched crc p (\<lambda>h. h\<lparr>ph_free_class_hint := x\<rparr>) (set_free_class_hint crc x p)"
    and "header_patched crc p (\<lambda>h. h\<lparr>ph_dead_bytes_hint := d\<rparr>) (set_dead_bytes_hint crc d p)"
    and "header_patched crc p (\<lambda>h. h\<lparr>ph_horizon_csn_hint := q\<rparr>) (set_horizon_csn_hint crc q p)"
  unfolding set_page_lsn_def set_generation_def set_state_def set_free_class_hint_def
    set_dead_bytes_hint_def set_horizon_csn_hint_def
  by (rule header_patched_intro [OF assms];
      simp add: write_u64_in write_u32_in write_u16_in set_index_def header_field_overwrite)+

section \<open>The page as a store of cells\<close>

text \<open>
  What the tuple stores above a page rely on: a cell that was put can be fetched under the slot
  number that was returned, cells that were there before stay readable, and a put that does not
  fit reports \<^verbatim>\<open>PageFull\<close> and changes nothing.
\<close>

locale cell_store =
  fixes wf :: "'p \<Rightarrow> bool"
    and cells :: "'p \<Rightarrow> byte list list"
    and room :: "'p \<Rightarrow> nat"
    and put :: "byte list \<Rightarrow> ('p, u16) action"
    and fetch :: "'p \<Rightarrow> u16 \<Rightarrow> byte list result"
  assumes put_fits: "wf p \<Longrightarrow> length x + 4 \<le> room p \<Longrightarrow>
      \<exists>p'. put x p = (Ok (word_of_nat (length (cells p))), p') \<and> wf p' \<and> cells p' = cells p @ [x]
        \<and> room p' = room p - (length x + 4)"
    and put_full: "wf p \<Longrightarrow> room p < length x + 4 \<Longrightarrow> put x p = (Err PageFull, p)"
    and fetch_eq: "wf p \<Longrightarrow> fetch p s =
      (if unat s < length (cells p) then Ok (cells p ! unat s) else Err (CorruptPage ''slot out of bounds''))"
    and cells_bounded: "wf p \<Longrightarrow> length (cells p) < 65536"
begin

lemma put_Ok:
  assumes "wf p" and "put x p = (Ok s, p')"
  shows "wf p'" and "cells p' = cells p @ [x]" and "unat s = length (cells p)"
    and "length x + 4 \<le> room p" and "room p' = room p - (length x + 4)"
proof -
  have fits: "length x + 4 \<le> room p" using put_full [OF assms(1), of x] assms(2) by fastforce
  with put_fits [OF assms(1) fits] assms(2) cells_bounded [OF assms(1)]
  show "wf p'" "cells p' = cells p @ [x]" "unat s = length (cells p)" "length x + 4 \<le> room p"
    "room p' = room p - (length x + 4)" by (auto simp: unat_u16_of_nat)
qed

lemma put_cases:
  assumes "wf p"
  obtains (stored) s p' where "put x p = (Ok s, p')" and "length x + 4 \<le> room p"
  | (full) "put x p = (Err PageFull, p)" and "room p < length x + 4"
  using put_fits [OF assms, of x] put_full [OF assms, of x] by (meson leI)

lemma fetch_put: "wf p \<Longrightarrow> put x p = (Ok s, p') \<Longrightarrow> fetch p' s = Ok x"
  using put_Ok [of p x s p'] fetch_eq [of p' s] by simp

lemma fetch_put_other: "wf p \<Longrightarrow> put x p = (Ok s, p') \<Longrightarrow> unat t < length (cells p) \<Longrightarrow> fetch p' t = fetch p t"
  using put_Ok [of p x s p'] fetch_eq [of p' t] fetch_eq [of p t] by (simp add: nth_append)

end

lemma slot_count_wf: "page_wf crc p \<Longrightarrow> slot_count p = Ok (word_of_nat (length (page_cells p)))"
proof -
  assume "page_wf crc p"
  then obtain h where h: "header p = Ok h" "64 \<le> unat (ph_lower h)" by (rule page_wf_obtain)
  from slot_count_Ok [OF h] obtain c where "slot_count p = Ok c" "unat c = slot_total h" by blast
  then show ?thesis by (simp add: length_page_cells [OF h(1)] flip: \<open>unat c = slot_total h\<close>)
qed

lemma page_cells_bounded: "page_wf crc p \<Longrightarrow> length (page_cells p) < 65536"
proof -
  assume "page_wf crc p"
  then obtain h where h: "header p = Ok h" "64 \<le> unat (ph_lower h)" by (rule page_wf_obtain)
  from slot_count_Ok [OF h] obtain c :: u16 where "unat c = slot_total h" by blast
  then show ?thesis using unat_u16_bound [of c] by (simp add: length_page_cells [OF h(1)])
qed

interpretation slotted: cell_store "page_wf crc" page_cells free_bytes "insert_cell crc" cell
proof
  fix p x
  assume wf: "page_wf crc p"
  let ?s = "word_of_nat (length (page_cells p)) :: u16"
  have s: "unat ?s = length (page_cells p)" using page_cells_bounded [OF wf] by (rule unat_u16_of_nat)
  have ins: "insert_cell crc x p = insert_cell_at crc ?s x p"
    by (simp add: insert_cell_def abind_Ok alift_eq slot_count_wf [OF wf])
  show "\<exists>p'. insert_cell crc x p = (Ok ?s, p') \<and> page_wf crc p' \<and> page_cells p' = page_cells p @ [x]
      \<and> free_bytes p' = free_bytes p - (length x + 4)" if "length x + 4 \<le> free_bytes p"
    using insert_success [OF wf, of ?s x] that s ins by (metis append_Nil2 diff_diff_left drop_all order_refl take_all)
  show "insert_cell crc x p = (Err PageFull, p)" if "free_bytes p < length x + 4"
    using insert_full [OF wf, of ?s x] that s ins by simp
qed (simp_all add: cell_reads page_cells_bounded)

section \<open>Properties\<close>

text \<open>
  C7. On a well-formed page \<^verbatim>\<open>insert_cell_at\<close> inserts the payload into the list of cells at
  the requested position exactly when the position is at most the number of cells and payload
  and slot entry fit; the invariant holds again and the free space shrinks by payload and slot.
  Otherwise it reports the error of the violated condition and leaves the page unchanged.
\<close>

theorem insert_cell_at_correct:
  assumes "page_wf crc p"
  shows "case insert_cell_at crc slot payload p of
      (Ok s, p') \<Rightarrow> s = slot \<and> unat slot \<le> length (page_cells p) \<and> length payload + 4 \<le> free_bytes p
        \<and> page_wf crc p'
        \<and> page_cells p' = take (unat slot) (page_cells p) @ payload # drop (unat slot) (page_cells p)
        \<and> free_bytes p' = free_bytes p - (length payload + 4)
    | (Err e, p') \<Rightarrow> p' = p
        \<and> (if length (page_cells p) < unat slot then e = CorruptPage ''slot out of bounds''
           else e = PageFull \<and> free_bytes p < length payload + 4)
    | (Panic, _) \<Rightarrow> False"
proof (cases "length (page_cells p) < unat slot")
  case True
  then show ?thesis using insert_bad_slot [OF assms] by simp
next
  case in_range: False
  show ?thesis
  proof (cases "length payload + 4 \<le> free_bytes p")
    case True
    have "unat slot \<le> length (page_cells p)" using in_range by simp
    then show ?thesis by (rule insert_success [OF assms _ True]) (use True in_range in simp)
  next
    case False
    with in_range show ?thesis using insert_full [OF assms, of slot payload] by simp
  qed
qed

lemma small_page:
  obtains p where "page_new crc 128 Heap 1 1 = Ok p" and "page_wf crc p" and "page_cells p = []"
    and "free_bytes p = 64"
  using page_new_with_special_Ok [of 128 0 crc Heap 1 1]
    fresh_page [of "replicate 128 0" 128 crc Heap 1 1 1] that
  by (simp add: page_new_def)

theorem insert_cell_at_correct_witness:
  "\<exists>p p'. page_new (\<lambda>_. 7) 128 Heap 1 1 = Ok p \<and> insert_cell_at (\<lambda>_. 7) 0 [1, 2, 3] p = (Ok 0, p')
     \<and> page_cells p' = [[1, 2, 3]]"
proof -
  obtain p where p: "page_new (\<lambda>_. 7) 128 Heap 1 1 = Ok p" "page_wf (\<lambda>_. 7) p" "page_cells p = []"
    "free_bytes p = 64" by (rule small_page)
  then show ?thesis
    using insert_cell_at_correct [OF p(2), of 0 "[1, 2, 3]"]
    by (auto split: prod.splits result.splits)
qed

text \<open>
  C23. On a well-formed page \<^verbatim>\<open>delete_cell\<close> removes exactly the cell at the given slot, moves
  the later slots down and frees one slot entry; a slot outside the directory is an error that
  leaves the page unchanged.
\<close>

theorem delete_cell_correct:
  assumes "page_wf crc p"
  shows "if unat slot < length (page_cells p)
    then \<exists>p'. delete_cell crc slot p = (Ok (), p') \<and> page_wf crc p'
        \<and> page_cells p' = take (unat slot) (page_cells p) @ drop (Suc (unat slot)) (page_cells p)
        \<and> free_bytes p' = free_bytes p + 4
    else delete_cell crc slot p = (Err (CorruptPage ''slot out of bounds''), p)"
proof (cases "unat slot < length (page_cells p)")
  case True
  show ?thesis by (rule delete_success [OF assms True]) (use True in auto)
next
  case False
  then show ?thesis using delete_bad_slot [OF assms] by simp
qed

lemma two_cell_page:
  obtains p where "page_wf crc p" and "page_cells p = [[1], [2, 2]]"
proof -
  obtain p where p: "page_wf crc p" "page_cells p = []" "free_bytes p = 64" by (rule small_page)
  obtain p1 where p1: "page_wf crc p1" "page_cells p1 = [[1]]" "free_bytes p1 = 59"
    by (rule insert_success [OF p(1), of 0 "[1]"]) (use p in simp_all)
  obtain p2 where "page_wf crc p2" "page_cells p2 = [[1], [2, 2]]"
    by (rule insert_success [OF p1(1), of 1 "[2, 2]"]) (use p1 in simp_all)
  then show thesis by (rule that)
qed

theorem delete_cell_correct_witness:
  "\<exists>p p'. page_cells p = [[1], [2, 2]] \<and> delete_cell (\<lambda>_. 7) 0 p = (Ok (), p') \<and> page_cells p' = [[2, 2]]"
proof -
  obtain p where "page_wf (\<lambda>_. 7) p" "page_cells p = [[1], [2, 2]]" by (rule two_cell_page)
  then show ?thesis using delete_cell_correct [of "\<lambda>_. 7" p 0] by auto
qed

text \<open>
  C24. On a well-formed page \<^verbatim>\<open>overwrite_cell\<close> replaces exactly one cell by a payload of the
  same length and keeps every other cell; a bad slot or another length is an error that leaves
  the page unchanged.
\<close>

theorem overwrite_cell_correct:
  assumes "page_wf crc p"
  shows "case overwrite_cell crc slot payload p of
      (Ok _, p') \<Rightarrow> unat slot < length (page_cells p) \<and> length payload = length (page_cells p ! unat slot)
        \<and> page_wf crc p' \<and> page_cells p' = (page_cells p)[unat slot := payload] \<and> free_bytes p' = free_bytes p
    | (Err e, p') \<Rightarrow> p' = p
        \<and> (if length (page_cells p) \<le> unat slot then e = CorruptPage ''slot out of bounds''
           else length payload \<noteq> length (page_cells p ! unat slot)
             \<and> e = CorruptPage ''overwrite cell length mismatch'')
    | (Panic, _) \<Rightarrow> False"
proof (cases "unat slot < length (page_cells p)")
  case out: False
  then show ?thesis using overwrite_rejected(1) [OF assms] by simp
next
  case inside: True
  show ?thesis
  proof (cases "length payload = length (page_cells p ! unat slot)")
    case True
    with inside show ?thesis by (rule overwrite_success [OF assms]) (use True inside in simp)
  next
    case False
    with inside show ?thesis using overwrite_rejected(2) [OF assms inside False] by simp
  qed
qed

theorem overwrite_cell_correct_witness:
  "\<exists>p p'. page_cells p = [[1], [2, 2]] \<and> overwrite_cell (\<lambda>_. 7) 1 [5, 6] p = (Ok (), p')
     \<and> page_cells p' = [[1], [5, 6]]
     \<and> overwrite_cell (\<lambda>_. 7) 1 [5] p = (Err (CorruptPage ''overwrite cell length mismatch''), p)"
proof -
  obtain p where p: "page_wf (\<lambda>_. 7) p" "page_cells p = [[1], [2, 2]]" by (rule two_cell_page)
  then show ?thesis
    using overwrite_cell_correct [OF p(1), of 1 "[5, 6]"] overwrite_cell_correct [OF p(1), of 1 "[5]"]
    by (intro exI [of _ p] exI [of _ "snd (overwrite_cell (\<lambda>_. 7) 1 [5, 6] p)"])
      (auto split: prod.splits result.splits)
qed

text \<open>
  C25. \<^verbatim>\<open>Page::new_with_special\<close> rejects a page size that cannot hold header, special area and
  one slot, and otherwise, for page sizes below 65536, returns a well-formed page without cells
  whose free space is everything between header and special area.
\<close>

theorem page_new_with_special_correct:
  assumes "page_size < 65536"
  shows "case page_new_with_special crc page_size kind page_id rel_id special_len of
      Ok p \<Rightarrow> 68 \<le> page_size \<and> special_len \<le> page_size - 64 \<and> page_wf crc p \<and> page_cells p = []
        \<and> free_bytes p = page_size - special_len - 64
        \<and> header p = Ok (fresh_header kind page_id rel_id 1 (page_size - special_len))
        \<and> page_from_bytes crc (pg_bytes p) = Ok p
    | Err e \<Rightarrow> (if page_size < 68 then e = BufferTooSmall 68 page_size
                else page_size - 64 < special_len \<and> e = BufferTooSmall (64 + special_len) page_size)
    | Panic \<Rightarrow> False"
proof (cases "68 \<le> page_size \<and> special_len \<le> page_size - 64")
  case True
  then have fits: "64 \<le> page_size - special_len" "page_size - special_len \<le> page_size" "64 \<le> page_size" by linarith+
  note new = fresh_page [of "replicate page_size 0", simplified, OF fits(3) assms fits(1,2)]
  have "page_new_with_special crc page_size kind page_id rel_id special_len =
    Ok (rebuilt crc 0 (fresh_header kind page_id rel_id 1 (page_size - special_len)) (replicate page_size 0))"
    using True assms by (intro page_new_with_special_Ok) simp_all
  then show ?thesis
    using True new [of crc kind page_id rel_id 1] page_from_bytes_wf [OF new(1)] by simp
next
  case False
  then show ?thesis by (auto simp: page_new_with_special_def)
qed

theorem page_new_with_special_correct_witness:
  "\<exists>p. page_new_with_special (\<lambda>_. 7) 128 BtreeLeaf 3 9 16 = Ok p \<and> page_cells p = [] \<and> free_bytes p = 48
     \<and> page_from_bytes (\<lambda>_. 7) (pg_bytes p) = Ok p"
  using page_new_with_special_correct [of 128, where crc = "\<lambda>_. 7" and kind = BtreeLeaf and page_id = 3
      and rel_id = 9 and special_len = 16]
  by (auto split: result.splits)

text \<open>
  C26. \<^verbatim>\<open>Page::from_bytes\<close> accepts a buffer of addressable length exactly when it is the image of a
  header and a body whose checksum field holds the CRC of that image with the field zeroed, and
  whose bounds satisfy \<open>lower \<le> upper \<le> special \<le> length\<close>; the page returned has those bytes.
\<close>

theorem page_from_bytes_accepts:
  assumes "length bs < usize_bound"
  shows "page_from_bytes crc bs = Ok p \<longleftrightarrow>
    p = \<lparr>pg_bytes = bs\<rparr> \<and> (\<exists>h r body. bs = page_image crc r h body \<and> header_bounds h (length bs))"
proof
  assume "page_from_bytes crc bs = Ok p"
  then have p: "p = \<lparr>pg_bytes = bs\<rparr>" and v: "validate crc \<lparr>pg_bytes = bs\<rparr> = Ok ()"
    by (auto simp: page_from_bytes_def split: if_splits)
  from assms have "length (pg_bytes \<lparr>pg_bytes = bs\<rparr>) < usize_bound" by simp
  from validate_Ok_image [OF v this] have "\<exists>h r body. bs = page_image crc r h body \<and> header_bounds h (length bs)"
    by (metis page.select_convs(1))
  with p show "p = \<lparr>pg_bytes = bs\<rparr> \<and> (\<exists>h r body. bs = page_image crc r h body \<and> header_bounds h (length bs))" by simp
next
  assume "p = \<lparr>pg_bytes = bs\<rparr> \<and> (\<exists>h r body. bs = page_image crc r h body \<and> header_bounds h (length bs))"
  then show "page_from_bytes crc bs = Ok p"
    using assms by (auto simp: page_from_bytes_def validate_page_image)
qed

theorem page_from_bytes_accepts_witness:
  "page_from_bytes (\<lambda>_. 7) (page_image (\<lambda>_. 7) 0 (fresh_header Heap 1 1 1 72) (replicate 8 0))
     = Ok \<lparr>pg_bytes = page_image (\<lambda>_. 7) 0 (fresh_header Heap 1 1 1 72) (replicate 8 0)\<rparr>"
proof -
  have "header_bounds (fresh_header Heap 1 1 1 72) 72" by (simp add: header_bounds_def fresh_header_def)
  then show ?thesis
    by (subst page_from_bytes_accepts) (auto simp: usize_bound_def)
qed

text \<open>
  Each header setter succeeds on a well-formed page, replaces its own field of the header
  and nothing else, and keeps the cells, the free space and the invariant with a fresh checksum.
\<close>

theorem page_setters_correct:
  assumes "page_wf crc p"
  shows "header_patched crc p (\<lambda>h. h\<lparr>ph_page_lsn := lsn\<rparr>) (set_page_lsn crc lsn p)
    \<and> header_patched crc p (\<lambda>h. h\<lparr>ph_generation := g\<rparr>) (set_generation crc g p)
    \<and> header_patched crc p (\<lambda>h. h\<lparr>ph_state := st\<rparr>) (set_state crc st p)
    \<and> header_patched crc p (\<lambda>h. h\<lparr>ph_free_class_hint := x\<rparr>) (set_free_class_hint crc x p)
    \<and> header_patched crc p (\<lambda>h. h\<lparr>ph_dead_bytes_hint := d\<rparr>) (set_dead_bytes_hint crc d p)
    \<and> header_patched crc p (\<lambda>h. h\<lparr>ph_horizon_csn_hint := q\<rparr>) (set_horizon_csn_hint crc q p)"
  using setters_patch [OF assms] by blast

theorem page_setters_correct_witness:
  "\<exists>p. page_new (\<lambda>_. 7) 128 Heap 1 1 = Ok p
     \<and> header_patched (\<lambda>_. 7) p (\<lambda>h. h\<lparr>ph_page_lsn := 42\<rparr>) (set_page_lsn (\<lambda>_. 7) 42 p)
     \<and> header_patched (\<lambda>_. 7) p (\<lambda>h. h\<lparr>ph_state := Retired\<rparr>) (set_state (\<lambda>_. 7) Retired p)"
proof -
  obtain p where p: "page_new (\<lambda>_. 7) 128 Heap 1 1 = Ok p" "page_wf (\<lambda>_. 7) p" by (rule small_page)
  then show ?thesis using page_setters_correct [OF p(2), of 42 0 Retired 0 0 0] by blast
qed

text \<open>
  C27. \<^verbatim>\<open>Page::from_bytes\<close> accepts pages whose \<open>lower\<close> bound lies inside the header, although
  no constructor produces them; on such a page \<^verbatim>\<open>slot_count\<close> wraps around and reports a
  directory of thousands of slots.
\<close>

theorem validated_slot_count_wraps:
  "\<exists>bs p. length bs = 72 \<and> page_from_bytes crc bs = Ok p \<and> slot_count p = Ok 65535"
proof -
  let ?h = "(fresh_header Heap 1 1 1 72)\<lparr>ph_lower := 60\<rparr>"
  let ?bs = "page_image crc 0 ?h (replicate 8 0)"
  have b: "header_bounds ?h 72" by (simp add: header_bounds_def fresh_header_def)
  then have "page_from_bytes crc ?bs = Ok \<lparr>pg_bytes = ?bs\<rparr>"
    by (simp add: page_from_bytes_def validate_page_image usize_bound_def)
  moreover have "header \<lparr>pg_bytes = ?bs\<rparr> = Ok ?h" by (simp add: usize_bound_def)
  then have "slot_count \<lparr>pg_bytes = ?bs\<rparr> = Ok 65535"
    by (simp add: slot_count_def wrapping_sub_usize_def usize_bound_def)
  ultimately show ?thesis by (intro exI [of _ ?bs] exI conjI) simp_all
qed

end
