(* ===== verification/Format_Tuple.thy ===== *)
theory Format_Tuple
  imports Format_Page
begin

text \<open>
  \<^verbatim>\<open>crates/kernel/src/format/tuple.rs\<close> and \<^verbatim>\<open>txn/undo.rs\<close>: the byte formats of tuple versions
  and of undo records. Both interpret the codec interface.
\<close>

section \<open>Tuple versions\<close>

definition TUPLE_MAGIC :: u32 where "TUPLE_MAGIC = 0x52445450"
definition TUPLE_FORMAT_VERSION :: u16 where "TUPLE_FORMAT_VERSION = 2"
definition TUPLE_FORMAT_VERSION_V1 :: u16 where "TUPLE_FORMAT_VERSION_V1 = 1"

abbreviation TUPLE_HEADER_LEN :: nat where "TUPLE_HEADER_LEN \<equiv> 72"

definition TUPLE_FLAG_DELETED :: u16 where "TUPLE_FLAG_DELETED = 1"

record tuple_version =
  tv_row_id :: row_id
  tv_rel_id :: rel_id
  tv_begin_tx :: tx_id
  tv_end_tx :: tx_id
  tv_begin_csn_hint :: csn
  tv_end_csn_hint :: csn
  tv_undo_head :: undo_ptr
  tv_flags :: u16
  tv_payload :: "byte list"

definition tuple_new :: "row_id \<Rightarrow> rel_id \<Rightarrow> tx_id \<Rightarrow> byte list \<Rightarrow> tuple_version" where
  "tuple_new row_id rel_id begin_tx payload =
     \<lparr>tv_row_id = row_id, tv_rel_id = rel_id, tv_begin_tx = begin_tx, tv_end_tx = 0,
      tv_begin_csn_hint = 0, tv_end_csn_hint = 0, tv_undo_head = 0, tv_flags = 0,
      tv_payload = payload\<rparr>"

definition tuple_deleted :: "row_id \<Rightarrow> rel_id \<Rightarrow> tx_id \<Rightarrow> tuple_version" where
  "tuple_deleted row_id rel_id begin_tx =
     \<lparr>tv_row_id = row_id, tv_rel_id = rel_id, tv_begin_tx = begin_tx, tv_end_tx = 0,
      tv_begin_csn_hint = 0, tv_end_csn_hint = 0, tv_undo_head = 0, tv_flags = TUPLE_FLAG_DELETED,
      tv_payload = []\<rparr>"

definition tuple_encoded_size :: "tuple_version \<Rightarrow> nat result" where
  "tuple_encoded_size t =
     (if length (tv_payload t) > 4294967295 then Err (CorruptPage ''tuple payload too large'')
      else ok_or (CorruptPage ''tuple length overflow'')
             (checked_add_usize TUPLE_HEADER_LEN (length (tv_payload t))))"

definition tuple_encode :: "tuple_version \<Rightarrow> byte list result" where
  "tuple_encode t =
     rbind (tuple_encoded_size t) (\<lambda>size.
     rbind (write_u32 (replicate size 0) 0 TUPLE_MAGIC) (\<lambda>out.
     rbind (write_u16 out 4 TUPLE_FORMAT_VERSION) (\<lambda>out.
     rbind (write_u16 out 6 (tv_flags t)) (\<lambda>out.
     rbind (write_u64 out 8 (tv_row_id t)) (\<lambda>out.
     rbind (write_u64 out 16 (tv_begin_tx t)) (\<lambda>out.
     rbind (write_u64 out 24 (tv_end_tx t)) (\<lambda>out.
     rbind (write_u64 out 32 (tv_begin_csn_hint t)) (\<lambda>out.
     rbind (write_u64 out 40 (tv_end_csn_hint t)) (\<lambda>out.
     rbind (write_u64 out 48 (tv_undo_head t)) (\<lambda>out.
     rbind (write_u32 out 56 (word_of_nat (length (tv_payload t)))) (\<lambda>out.
     rbind (write_u32 out 60 0) (\<lambda>out.
     rbind (write_u64 out 64 (tv_rel_id t)) (\<lambda>out.
     write_bytes out TUPLE_HEADER_LEN (tv_payload t))))))))))))))"

definition tuple_decode :: "byte list \<Rightarrow> tuple_version result" where
  "tuple_decode bytes =
     (if length bytes < TUPLE_HEADER_LEN then Err (BufferTooSmall TUPLE_HEADER_LEN (length bytes)) else
      rbind (read_u32 bytes 0) (\<lambda>magic.
      if magic \<noteq> TUPLE_MAGIC then Err (InvalidMagic TUPLE_MAGIC magic) else
      rbind (read_u16 bytes 4) (\<lambda>version.
      rbind (read_u32 bytes 56) (\<lambda>raw_len.
      rbind (ok_or (CorruptPage ''tuple length overflow'')
               (checked_add_usize TUPLE_HEADER_LEN (unat raw_len))) (\<lambda>end'.
      if length bytes < end' then Err (BufferTooSmall end' (length bytes)) else
      rbind (read_u16 bytes 6) (\<lambda>flags.
      rbind (read_u64 bytes 8) (\<lambda>row_id.
      rbind (if version = TUPLE_FORMAT_VERSION then read_u64 bytes 64
             else if version = TUPLE_FORMAT_VERSION_V1 then Ok 0
             else Err (UnsupportedVersion version)) (\<lambda>rel_id.
      rbind (read_u64 bytes 16) (\<lambda>begin_tx.
      rbind (read_u64 bytes 24) (\<lambda>end_tx.
      rbind (read_u64 bytes 32) (\<lambda>begin_csn_hint.
      rbind (read_u64 bytes 40) (\<lambda>end_csn_hint.
      rbind (read_u64 bytes 48) (\<lambda>undo_head.
      rbind (slice_range bytes TUPLE_HEADER_LEN end') (\<lambda>payload.
      Ok \<lparr>tv_row_id = row_id, tv_rel_id = rel_id, tv_begin_tx = begin_tx, tv_end_tx = end_tx,
          tv_begin_csn_hint = begin_csn_hint, tv_end_csn_hint = end_csn_hint,
          tv_undo_head = undo_head, tv_flags = flags, tv_payload = payload\<rparr>))))))))))))))"

section \<open>Undo records\<close>

definition UNDO_MAGIC :: u32 where "UNDO_MAGIC = 0x5244554e"
definition UNDO_FORMAT_VERSION :: u16 where "UNDO_FORMAT_VERSION = 1"

abbreviation UNDO_HEADER_LEN :: nat where "UNDO_HEADER_LEN \<equiv> 48"

datatype undo_kind = InsertDelete | UpdateBeforeImage | DeleteBeforeImage

fun undo_kind_as_u16 :: "undo_kind \<Rightarrow> u16" where
  "undo_kind_as_u16 InsertDelete = 1"
| "undo_kind_as_u16 UpdateBeforeImage = 2"
| "undo_kind_as_u16 DeleteBeforeImage = 3"

definition undo_kind_from_u16 :: "u16 \<Rightarrow> undo_kind result" where
  "undo_kind_from_u16 v =
     (if v = 1 then Ok InsertDelete
      else if v = 2 then Ok UpdateBeforeImage
      else if v = 3 then Ok DeleteBeforeImage
      else Err (CorruptPage ''unknown undo kind''))"

record undo_record =
  ur_kind :: undo_kind
  ur_tx_id :: tx_id
  ur_row_id :: row_id
  ur_prev_undo :: undo_ptr
  ur_before_image :: "byte list"

definition undo_encode :: "undo_record \<Rightarrow> byte list result" where
  "undo_encode u =
     (if length (ur_before_image u) > 4294967295 then Err (CorruptPage ''undo image too large'') else
      rbind (write_u32 (replicate (UNDO_HEADER_LEN + length (ur_before_image u)) 0) 0 UNDO_MAGIC) (\<lambda>out.
      rbind (write_u16 out 4 UNDO_FORMAT_VERSION) (\<lambda>out.
      rbind (write_u16 out 6 (undo_kind_as_u16 (ur_kind u))) (\<lambda>out.
      rbind (write_u64 out 8 (ur_tx_id u)) (\<lambda>out.
      rbind (write_u64 out 16 (ur_row_id u)) (\<lambda>out.
      rbind (write_u64 out 24 (ur_prev_undo u)) (\<lambda>out.
      rbind (write_u32 out 32 (word_of_nat (length (ur_before_image u)))) (\<lambda>out.
      rbind (write_u32 out 36 0) (\<lambda>out.
      rbind (write_u64 out 40 0) (\<lambda>out.
      write_bytes out UNDO_HEADER_LEN (ur_before_image u)))))))))))"

definition undo_decode :: "byte list \<Rightarrow> undo_record result" where
  "undo_decode bytes =
     (if length bytes < UNDO_HEADER_LEN then Err (BufferTooSmall UNDO_HEADER_LEN (length bytes)) else
      rbind (read_u32 bytes 0) (\<lambda>magic.
      if magic \<noteq> UNDO_MAGIC then Err (InvalidMagic UNDO_MAGIC magic) else
      rbind (read_u16 bytes 4) (\<lambda>version.
      if version \<noteq> UNDO_FORMAT_VERSION then Err (UnsupportedVersion version) else
      rbind (read_u32 bytes 32) (\<lambda>raw_len.
      rbind (ok_or (CorruptPage ''undo length overflow'')
               (checked_add_usize UNDO_HEADER_LEN (unat raw_len))) (\<lambda>end'.
      if length bytes < end' then Err (BufferTooSmall end' (length bytes)) else
      rbind (read_u16 bytes 6) (\<lambda>raw_kind.
      rbind (undo_kind_from_u16 raw_kind) (\<lambda>kind.
      rbind (read_u64 bytes 8) (\<lambda>tx_id.
      rbind (read_u64 bytes 16) (\<lambda>row_id.
      rbind (read_u64 bytes 24) (\<lambda>prev_undo.
      rbind (slice_range bytes UNDO_HEADER_LEN end') (\<lambda>before_image.
      Ok \<lparr>ur_kind = kind, ur_tx_id = tx_id, ur_row_id = row_id, ur_prev_undo = prev_undo,
          ur_before_image = before_image\<rparr>)))))))))))"

section \<open>Byte images\<close>

definition tuple_header_image :: "tuple_version \<Rightarrow> byte list" where
  "tuple_header_image t =
     to_le_bytes TUPLE_MAGIC @ to_le_bytes TUPLE_FORMAT_VERSION @ to_le_bytes (tv_flags t) @
     to_le_bytes (tv_row_id t) @ to_le_bytes (tv_begin_tx t) @ to_le_bytes (tv_end_tx t) @
     to_le_bytes (tv_begin_csn_hint t) @ to_le_bytes (tv_end_csn_hint t) @
     to_le_bytes (tv_undo_head t) @ to_le_bytes (word_of_nat (length (tv_payload t)) :: u32) @
     to_le_bytes (0 :: u32) @ to_le_bytes (tv_rel_id t)"

lemma length_tuple_header_image [simp]: "length (tuple_header_image t) = 72"
  by (simp add: tuple_header_image_def)

lemma usize_bound_u32: "n < 2 ^ 40 \<Longrightarrow> n < usize_bound"
  by (simp add: usize_bound_def)

lemma tuple_encode_Ok:
  assumes "length (tv_payload t) \<le> 4294967295"
  shows "tuple_encode t = Ok (tuple_header_image t @ tv_payload t)"
proof -
  let ?n = "72 + length (tv_payload t)"
  have ub: "?n < usize_bound" using assms by (intro usize_bound_u32) simp
  then have size: "tuple_encoded_size t = Ok ?n"
    using assms by (simp add: tuple_encoded_size_def checked_add_usize_def)
  define b :: "byte list" where "b = replicate ?n 0"
  have len: "length b = ?n" by (simp add: b_def)
  have "tuple_encode t = Ok (((((((((((((([] @
     to_le_bytes TUPLE_MAGIC) @ to_le_bytes TUPLE_FORMAT_VERSION) @ to_le_bytes (tv_flags t)) @
     to_le_bytes (tv_row_id t)) @ to_le_bytes (tv_begin_tx t)) @ to_le_bytes (tv_end_tx t)) @
     to_le_bytes (tv_begin_csn_hint t)) @ to_le_bytes (tv_end_csn_hint t)) @
     to_le_bytes (tv_undo_head t)) @ to_le_bytes (word_of_nat (length (tv_payload t)) :: u32)) @
     to_le_bytes (0 :: u32)) @ to_le_bytes (tv_rel_id t)) @ tv_payload t) @ drop ?n b)"
    unfolding tuple_encode_def size rbind.simps b_def [symmetric]
    apply (subst append_Nil [of b, symmetric])
    using ub len
    by (simp add: write_u16_in write_u32_in write_u64_in write_bytes_in overwrite_next
        del: append_assoc append_Nil append.simps)
  then show ?thesis by (simp add: tuple_header_image_def len)
qed

lemma tuple_header_slices:
  "bslice (tuple_header_image t) 0 4 = to_le_bytes TUPLE_MAGIC"
  "bslice (tuple_header_image t) 4 2 = to_le_bytes TUPLE_FORMAT_VERSION"
  "bslice (tuple_header_image t) 6 2 = to_le_bytes (tv_flags t)"
  "bslice (tuple_header_image t) 8 8 = to_le_bytes (tv_row_id t)"
  "bslice (tuple_header_image t) 16 8 = to_le_bytes (tv_begin_tx t)"
  "bslice (tuple_header_image t) 24 8 = to_le_bytes (tv_end_tx t)"
  "bslice (tuple_header_image t) 32 8 = to_le_bytes (tv_begin_csn_hint t)"
  "bslice (tuple_header_image t) 40 8 = to_le_bytes (tv_end_csn_hint t)"
  "bslice (tuple_header_image t) 48 8 = to_le_bytes (tv_undo_head t)"
  "bslice (tuple_header_image t) 56 4 = to_le_bytes (word_of_nat (length (tv_payload t)) :: u32)"
  "bslice (tuple_header_image t) 64 8 = to_le_bytes (tv_rel_id t)"
  by (simp_all add: bslice_def tuple_header_image_def)

text \<open>Decoding reads the image and ignores what follows it in the buffer.\<close>

lemma tuple_decode_image:
  assumes "length (tv_payload t) \<le> 4294967295" and "72 + length (tv_payload t) + length rest < usize_bound"
  shows "tuple_decode (tuple_header_image t @ tv_payload t @ rest) = Ok t"
  using assms
  by (simp add: tuple_decode_def read_u16_in read_u32_in read_u64_in bslice_append_left tuple_header_slices
      unat_u32_of_nat checked_add_usize_def slice_range_def bslice_append_right)

definition undo_header_image :: "undo_record \<Rightarrow> byte list" where
  "undo_header_image u =
     to_le_bytes UNDO_MAGIC @ to_le_bytes UNDO_FORMAT_VERSION @ to_le_bytes (undo_kind_as_u16 (ur_kind u)) @
     to_le_bytes (ur_tx_id u) @ to_le_bytes (ur_row_id u) @ to_le_bytes (ur_prev_undo u) @
     to_le_bytes (word_of_nat (length (ur_before_image u)) :: u32) @ to_le_bytes (0 :: u32) @
     to_le_bytes (0 :: u64)"

lemma length_undo_header_image [simp]: "length (undo_header_image u) = 48"
  by (simp add: undo_header_image_def)

lemma undo_kind_roundtrip [simp]: "undo_kind_from_u16 (undo_kind_as_u16 k) = Ok k"
  by (cases k) (simp_all add: undo_kind_from_u16_def)

lemma undo_encode_Ok:
  assumes "length (ur_before_image u) \<le> 4294967295"
  shows "undo_encode u = Ok (undo_header_image u @ ur_before_image u)"
proof -
  let ?n = "48 + length (ur_before_image u)"
  have ub: "?n < usize_bound" using assms by (intro usize_bound_u32) simp
  define b :: "byte list" where "b = replicate ?n 0"
  have len: "length b = ?n" by (simp add: b_def)
  have "undo_encode u = Ok ((((((((((([] @
     to_le_bytes UNDO_MAGIC) @ to_le_bytes UNDO_FORMAT_VERSION) @ to_le_bytes (undo_kind_as_u16 (ur_kind u))) @
     to_le_bytes (ur_tx_id u)) @ to_le_bytes (ur_row_id u)) @ to_le_bytes (ur_prev_undo u)) @
     to_le_bytes (word_of_nat (length (ur_before_image u)) :: u32)) @ to_le_bytes (0 :: u32)) @
     to_le_bytes (0 :: u64)) @ ur_before_image u) @ drop ?n b)"
    unfolding undo_encode_def b_def [symmetric]
    apply (subst append_Nil [of b, symmetric])
    using ub len assms
    by (simp add: write_u16_in write_u32_in write_u64_in write_bytes_in overwrite_next
        del: append_assoc append_Nil append.simps)
  then show ?thesis by (simp add: undo_header_image_def len)
qed

lemma undo_header_slices:
  "bslice (undo_header_image u) 0 4 = to_le_bytes UNDO_MAGIC"
  "bslice (undo_header_image u) 4 2 = to_le_bytes UNDO_FORMAT_VERSION"
  "bslice (undo_header_image u) 6 2 = to_le_bytes (undo_kind_as_u16 (ur_kind u))"
  "bslice (undo_header_image u) 8 8 = to_le_bytes (ur_tx_id u)"
  "bslice (undo_header_image u) 16 8 = to_le_bytes (ur_row_id u)"
  "bslice (undo_header_image u) 24 8 = to_le_bytes (ur_prev_undo u)"
  "bslice (undo_header_image u) 32 4 = to_le_bytes (word_of_nat (length (ur_before_image u)) :: u32)"
  by (simp_all add: bslice_def undo_header_image_def)

lemma undo_decode_image:
  assumes "length (ur_before_image u) \<le> 4294967295" and "48 + length (ur_before_image u) + length rest < usize_bound"
  shows "undo_decode (undo_header_image u @ ur_before_image u @ rest) = Ok u"
  using assms
  by (simp add: undo_decode_def read_u16_in read_u32_in read_u64_in bslice_append_left undo_header_slices
      unat_u32_of_nat checked_add_usize_def slice_range_def bslice_append_right)

section \<open>The codec interface\<close>

interpretation tuple_codec: byte_codec tuple_encode tuple_decode "\<lambda>t. length (tv_payload t) \<le> 4294967295"
proof
  fix t :: tuple_version and bs
  assume fits: "length (tv_payload t) \<le> 4294967295"
  show "\<exists>bs. tuple_encode t = Ok bs" using tuple_encode_Ok [OF fits] by blast
  have "72 + length (tv_payload t) < usize_bound" using fits by (intro usize_bound_u32) simp
  then show "tuple_decode bs = Ok t" if "tuple_encode t = Ok bs"
    using that tuple_encode_Ok [OF fits] tuple_decode_image [OF fits, of "[]"] by auto
qed

interpretation undo_codec: byte_codec undo_encode undo_decode "\<lambda>u. length (ur_before_image u) \<le> 4294967295"
proof
  fix u :: undo_record and bs
  assume fits: "length (ur_before_image u) \<le> 4294967295"
  show "\<exists>bs. undo_encode u = Ok bs" using undo_encode_Ok [OF fits] by blast
  have "48 + length (ur_before_image u) < usize_bound" using fits by (intro usize_bound_u32) simp
  then show "undo_decode bs = Ok u" if "undo_encode u = Ok bs"
    using that undo_encode_Ok [OF fits] undo_decode_image [OF fits, of "[]"] by auto
qed

lemma tuple_encode_length: "tuple_encode t = Ok bs \<Longrightarrow> length bs = 72 + length (tv_payload t)"
  using tuple_encode_Ok [of t] by (cases "length (tv_payload t) \<le> 4294967295")
    (auto simp: tuple_encode_def tuple_encoded_size_def)

text \<open>Every decoder of the format either returns a value or an error; malformed bytes cannot panic it.\<close>

lemma tuple_decode_no_panic: "tuple_decode bs \<noteq> Panic"
  by (auto simp: tuple_decode_def panic_simps split: if_splits)

lemma undo_decode_no_panic: "undo_decode bs \<noteq> Panic"
  by (auto simp: undo_decode_def undo_kind_from_u16_def panic_simps split: if_splits)

section \<open>Properties\<close>

lemma tuple_encode_eq:
  "tuple_encode t = (if length (tv_payload t) \<le> 4294967295 then Ok (tuple_header_image t @ tv_payload t)
     else Err (CorruptPage ''tuple payload too large''))"
  using tuple_encode_Ok [of t]
  by (cases "length (tv_payload t) \<le> 4294967295") (simp_all add: tuple_encode_def tuple_encoded_size_def)

lemma undo_encode_eq:
  "undo_encode u = (if length (ur_before_image u) \<le> 4294967295 then Ok (undo_header_image u @ ur_before_image u)
     else Err (CorruptPage ''undo image too large''))"
  using undo_encode_Ok [of u]
  by (cases "length (ur_before_image u) \<le> 4294967295") (simp_all add: undo_encode_def)

text \<open>
  C33. A tuple version survives encoding and decoding; the one that does not fit the 32-bit
  length field is refused by the encoder.
\<close>

theorem tuple_roundtrip:
  "rbind (tuple_encode t) tuple_decode =
     (if length (tv_payload t) \<le> 4294967295 then Ok t else Err (CorruptPage ''tuple payload too large''))"
  using tuple_codec.rbind_decode_encode [of t] by (simp add: tuple_encode_eq)

text \<open>
  An undo record survives encoding and decoding; the one whose before image does not
  fit the 32-bit length field is refused by the encoder.
\<close>

theorem undo_roundtrip:
  "rbind (undo_encode u) undo_decode =
     (if length (ur_before_image u) \<le> 4294967295 then Ok u else Err (CorruptPage ''undo image too large''))"
  using undo_codec.rbind_decode_encode [of u] by (simp add: undo_encode_eq)

end
