(* ===== verification/Tx_Status.thy ===== *)
theory Tx_Status
  imports Format_Bytes "HOL-Library.AList" "HOL-Library.FSet"
begin

text \<open>
  Transaction status. \<^verbatim>\<open>crates/kernel/src/txn/status.rs\<close> is the sequential table used by the
  in-memory heap; \<^verbatim>\<open>engine/tx/status.rs\<close> is the sharded concurrent table with the frontier of
  commit sequence numbers (CSN). Hash maps are association lists, which is what iterating over
  them needs. Both tables interpret the same interface.
\<close>

section \<open>States and snapshots\<close>

datatype isolation = ReadCommitted | SnapshotIsolation | Serializable

datatype tx_state = InProgress | Committed csn | Aborted

record snapshot =
  sn_visible_csn :: csn
  sn_xmin :: tx_id
  sn_xmax :: tx_id
  sn_active :: "tx_id set"

section \<open>The sequential table\<close>

record tx_status_table =
  ts_states :: "(tx_id \<times> tx_state) list"
  ts_next_tx :: u64
  ts_next_csn :: u64

definition table_new :: tx_status_table where
  "table_new = \<lparr>ts_states = [], ts_next_tx = 1, ts_next_csn = 1\<rparr>"

definition table_begin :: "tx_status_table \<Rightarrow> tx_id \<times> tx_status_table" where
  "table_begin t = (let tx = ts_next_tx t in
     (tx, t\<lparr>ts_next_tx := ts_next_tx t + 1, ts_states := AList.update tx InProgress (ts_states t)\<rparr>))"

definition table_commit :: "tx_status_table \<Rightarrow> tx_id \<Rightarrow> csn \<times> tx_status_table" where
  "table_commit t tx = (let csn = ts_next_csn t in
     (csn, t\<lparr>ts_next_csn := ts_next_csn t + 1, ts_states := AList.update tx (Committed csn) (ts_states t)\<rparr>))"

definition table_abort :: "tx_status_table \<Rightarrow> tx_id \<Rightarrow> tx_status_table" where
  "table_abort t tx = t\<lparr>ts_states := AList.update tx Aborted (ts_states t)\<rparr>"

definition table_state :: "tx_status_table \<Rightarrow> tx_id \<Rightarrow> tx_state" where
  "table_state t tx = (case map_of (ts_states t) tx of Some s \<Rightarrow> s | None \<Rightarrow> Aborted)"

definition table_snapshot :: "tx_status_table \<Rightarrow> snapshot" where
  "table_snapshot t =
     (let active = set (map fst (filter (\<lambda>(tx, s). s = InProgress) (ts_states t))) in
      \<lparr>sn_visible_csn = saturating_sub_word (ts_next_csn t) 1,
       sn_xmin = (if active = {} then ts_next_tx t else Min active),
       sn_xmax = ts_next_tx t,
       sn_active = active\<rparr>)"

definition table_is_tx_visible :: "tx_status_table \<Rightarrow> tx_id \<Rightarrow> snapshot \<Rightarrow> tx_id option \<Rightarrow> bool" where
  "table_is_tx_visible t tx sn owner =
     (if Some tx = owner then True
      else case table_state t tx of
        Committed csn \<Rightarrow> csn \<le> sn_visible_csn sn \<and> tx \<notin> sn_active sn
      | InProgress \<Rightarrow> False
      | Aborted \<Rightarrow> False)"

section \<open>The concurrent table\<close>

record csn_frontier =
  fr_pending :: "u64 fset"
  fr_completed :: "u64 fset"
  fr_skipped :: "u64 fset"

record tx_status_inner =
  ti_shards :: "(tx_id \<times> tx_state) list list"
  ti_active_snapshots :: "(tx_id \<times> csn) list"
  ti_next_tx :: u64
  ti_next_csn :: u64
  ti_published_csn :: u64
  ti_frontier :: csn_frontier

definition with_shards :: "nat \<Rightarrow> tx_status_inner" where
  "with_shards shard_count =
     \<lparr>ti_shards = replicate (max shard_count 1) [], ti_active_snapshots = [],
      ti_next_tx = 1, ti_next_csn = 1, ti_published_csn = 0,
      ti_frontier = \<lparr>fr_pending = {||}, fr_completed = {||}, fr_skipped = {||}\<rparr>\<rparr>"

definition concurrent_new :: tx_status_inner where
  "concurrent_new = with_shards 64"

definition shard_index :: "tx_status_inner \<Rightarrow> tx_id \<Rightarrow> nat" where
  "shard_index s tx = unat tx mod length (ti_shards s)"

definition inner_state :: "tx_status_inner \<Rightarrow> tx_id \<Rightarrow> tx_state" where
  "inner_state s tx =
     (case map_of (ti_shards s ! shard_index s tx) tx of Some st \<Rightarrow> st | None \<Rightarrow> Aborted)"

definition inner_set_state :: "tx_status_inner \<Rightarrow> tx_id \<Rightarrow> tx_state \<Rightarrow> tx_status_inner" where
  "inner_set_state s tx st =
     (let i = shard_index s tx in
      s\<lparr>ti_shards := (ti_shards s)[i := AList.update tx st (ti_shards s ! i)]\<rparr>)"

definition set_active_snapshot :: "tx_status_inner \<Rightarrow> tx_id \<Rightarrow> csn \<Rightarrow> tx_status_inner" where
  "set_active_snapshot s tx csn =
     s\<lparr>ti_active_snapshots := AList.update tx csn (ti_active_snapshots s)\<rparr>"

definition unregister_active :: "tx_status_inner \<Rightarrow> tx_id \<Rightarrow> tx_status_inner" where
  "unregister_active s tx =
     s\<lparr>ti_active_snapshots := AList.delete tx (ti_active_snapshots s)\<rparr>"

text \<open>
  The loop of \<^verbatim>\<open>advance_published_csn\<close>. \<^verbatim>\<open>remove\<close> on a set both tests and deletes, and the second
  set is only tried when the first does not hold the number. Every round removes an element.
\<close>

function advance_published_csn :: "u64 \<Rightarrow> csn_frontier \<Rightarrow> u64 \<times> csn_frontier" where
  "advance_published_csn published fr =
     (let next' = saturating_add_word published 1 in
      if next' |\<in>| fr_completed fr
      then advance_published_csn next' (fr\<lparr>fr_completed := fr_completed fr |-| {|next'|}\<rparr>)
      else if next' |\<in>| fr_skipped fr
      then advance_published_csn next' (fr\<lparr>fr_skipped := fr_skipped fr |-| {|next'|}\<rparr>)
      else (published, fr))"
  by pat_completeness auto

lemma fcard_remove_less: "x |\<in>| A \<Longrightarrow> fcard (A |-| {|x|}) < fcard A"
  by (metis fcard_fminus1_less)

lemma fcard_pred_less: "x |\<in>| A \<Longrightarrow> fcard A - Suc 0 < fcard A"
  using fcard_remove_less [of x A] by simp

termination advance_published_csn
  by (relation "measure (\<lambda>(p, fr). fcard (fr_completed fr) + fcard (fr_skipped fr))")
    (auto simp: Let_def fcard_pred_less)

declare advance_published_csn.simps [simp del]

definition complete_csn :: "tx_status_inner \<Rightarrow> csn \<Rightarrow> tx_status_inner" where
  "complete_csn s csn =
     (let fr = ti_frontier s;
          fr' = fr\<lparr>fr_pending := fr_pending fr |-| {|csn|}, fr_completed := finsert csn (fr_completed fr)\<rparr>;
          (published, fr'') = advance_published_csn (ti_published_csn s) fr' in
      s\<lparr>ti_published_csn := published, ti_frontier := fr''\<rparr>)"

definition skip_csn :: "tx_status_inner \<Rightarrow> csn \<Rightarrow> tx_status_inner" where
  "skip_csn s csn =
     (let fr = ti_frontier s;
          fr' = fr\<lparr>fr_pending := fr_pending fr |-| {|csn|}, fr_skipped := finsert csn (fr_skipped fr)\<rparr>;
          (published, fr'') = advance_published_csn (ti_published_csn s) fr' in
      s\<lparr>ti_published_csn := published, ti_frontier := fr''\<rparr>)"

text \<open>The atomic parts of \<^verbatim>\<open>begin\<close> and \<^verbatim>\<open>reserve_commit_csn\<close>: a fetch-and-add, then a locked update.\<close>

definition fetch_add_next_tx :: "tx_status_inner \<Rightarrow> tx_id \<times> tx_status_inner" where
  "fetch_add_next_tx s = (ti_next_tx s, s\<lparr>ti_next_tx := ti_next_tx s + 1\<rparr>)"

definition fetch_add_next_csn :: "tx_status_inner \<Rightarrow> csn \<times> tx_status_inner" where
  "fetch_add_next_csn s = (ti_next_csn s, s\<lparr>ti_next_csn := ti_next_csn s + 1\<rparr>)"

definition insert_pending :: "tx_status_inner \<Rightarrow> csn \<Rightarrow> tx_status_inner" where
  "insert_pending s csn = (let fr = ti_frontier s in
     s\<lparr>ti_frontier := fr\<lparr>fr_pending := finsert csn (fr_pending fr)\<rparr>\<rparr>)"

definition concurrent_begin :: "tx_status_inner \<Rightarrow> tx_id \<times> tx_status_inner" where
  "concurrent_begin s = (let (tx, s1) = fetch_add_next_tx s in (tx, inner_set_state s1 tx InProgress))"

definition reserve_commit_csn :: "tx_status_inner \<Rightarrow> csn \<times> tx_status_inner" where
  "reserve_commit_csn s = (let (csn, s1) = fetch_add_next_csn s in (csn, insert_pending s1 csn))"

definition publish_commit :: "tx_status_inner \<Rightarrow> tx_id \<Rightarrow> csn \<Rightarrow> tx_status_inner" where
  "publish_commit s tx csn =
     unregister_active (complete_csn (inner_set_state s tx (Committed csn)) csn) tx"

definition cancel_reserved_csn :: "tx_status_inner \<Rightarrow> csn \<Rightarrow> tx_status_inner" where
  "cancel_reserved_csn s csn = skip_csn s csn"

definition concurrent_abort :: "tx_status_inner \<Rightarrow> tx_id \<Rightarrow> tx_status_inner" where
  "concurrent_abort s tx = unregister_active (inner_set_state s tx Aborted) tx"

text \<open>Without interference the compare-and-exchange loop stores the larger value.\<close>

definition advance_atomic_to_at_least :: "u64 \<Rightarrow> u64 \<Rightarrow> u64" where
  "advance_atomic_to_at_least value target = (if value < target then target else value)"

definition advance_atomic_past :: "u64 \<Rightarrow> u64 \<Rightarrow> u64" where
  "advance_atomic_past value seen = advance_atomic_to_at_least value (saturating_add_word seen 1)"

definition publish_recovered_commit :: "tx_status_inner \<Rightarrow> tx_id \<Rightarrow> csn \<Rightarrow> tx_status_inner" where
  "publish_recovered_commit s tx csn =
     (let s1 = inner_set_state s tx (Committed csn);
          s2 = s1\<lparr>ti_next_tx := advance_atomic_past (ti_next_tx s1) tx\<rparr>;
          s3 = s2\<lparr>ti_next_csn := advance_atomic_past (ti_next_csn s2) csn\<rparr> in
      complete_csn s3 csn)"

definition restore_frontier :: "tx_status_inner \<Rightarrow> tx_id \<Rightarrow> csn \<Rightarrow> csn \<Rightarrow> tx_status_inner" where
  "restore_frontier s next_tx next_csn published =
     s\<lparr>ti_next_tx := advance_atomic_to_at_least (ti_next_tx s) (max next_tx 1),
       ti_next_csn := advance_atomic_to_at_least (ti_next_csn s) (max next_csn 1),
       ti_published_csn := advance_atomic_to_at_least (ti_published_csn s) published\<rparr>"

definition committed_states :: "tx_status_inner \<Rightarrow> (tx_id \<times> csn) list" where
  "committed_states s =
     sort_key fst (concat (map (\<lambda>shard. List.map_filter
        (\<lambda>(tx, st). case st of Committed csn \<Rightarrow> Some (tx, csn) | _ \<Rightarrow> None) shard) (ti_shards s)))"

definition concurrent_snapshot :: "tx_status_inner \<Rightarrow> snapshot" where
  "concurrent_snapshot s =
     \<lparr>sn_visible_csn = ti_published_csn s, sn_xmin = ti_next_tx s, sn_xmax = ti_next_tx s,
      sn_active = {}\<rparr>"

definition concurrent_is_tx_visible :: "tx_status_inner \<Rightarrow> tx_id \<Rightarrow> snapshot \<Rightarrow> tx_id option \<Rightarrow> bool" where
  "concurrent_is_tx_visible s tx sn owner =
     (if Some tx = owner then True
      else case inner_state s tx of
        Committed csn \<Rightarrow> csn \<le> sn_visible_csn sn
      | InProgress \<Rightarrow> False
      | Aborted \<Rightarrow> False)"

definition oldest_active_snapshot_csn :: "tx_status_inner \<Rightarrow> csn" where
  "oldest_active_snapshot_csn s =
     (case map snd (ti_active_snapshots s) of
        [] \<Rightarrow> ti_published_csn s
      | v # vs \<Rightarrow> fold min vs v)"

definition begin_txn :: "tx_status_inner \<Rightarrow> (tx_id \<times> snapshot) \<times> tx_status_inner" where
  "begin_txn s = (let (tx, s1) = concurrent_begin s; sn = concurrent_snapshot s1 in
     ((tx, sn), set_active_snapshot s1 tx (sn_visible_csn sn)))"

record tx_status_stats =
  st_next_tx :: tx_id
  st_next_csn :: csn
  st_published_csn :: csn
  st_active_transactions :: nat
  st_active_snapshots :: nat
  st_committed_states :: nat
  st_pending_csns :: nat

definition tx_stats :: "tx_status_inner \<Rightarrow> tx_status_stats" where
  "tx_stats s = (let states = map snd (concat (ti_shards s)) in
     \<lparr>st_next_tx = ti_next_tx s, st_next_csn = ti_next_csn s, st_published_csn = ti_published_csn s,
      st_active_transactions = length (filter (\<lambda>st. st = InProgress) states),
      st_active_snapshots = length (ti_active_snapshots s),
      st_committed_states = length (filter (\<lambda>st. case st of Committed _ \<Rightarrow> True | _ \<Rightarrow> False) states),
      st_pending_csns = fcard (fr_pending (ti_frontier s))\<rparr>)"

section \<open>The interface of a status table\<close>

text \<open>
  What visibility relies on: recording the state of one transaction is what is read back for it,
  and leaves every other transaction alone. The sharded table keeps this under its invariant
  that there is at least one shard.
\<close>

locale tx_states =
  fixes valid :: "'s \<Rightarrow> bool"
    and state :: "'s \<Rightarrow> tx_id \<Rightarrow> tx_state"
    and set_state :: "'s \<Rightarrow> tx_id \<Rightarrow> tx_state \<Rightarrow> 's"
  assumes set_valid: "valid s \<Longrightarrow> valid (set_state s tx st)"
    and state_set: "valid s \<Longrightarrow> state (set_state s tx st) tx' = (if tx' = tx then st else state s tx')"
begin

lemma state_set_same: "valid s \<Longrightarrow> state (set_state s tx st) tx = st"
  by (simp add: state_set)

lemma state_set_other: "valid s \<Longrightarrow> tx' \<noteq> tx \<Longrightarrow> state (set_state s tx st) tx' = state s tx'"
  by (simp add: state_set)

text \<open>The set of committed transactions changes at most at the transaction that is recorded.\<close>

lemma committed_set:
  "valid s \<Longrightarrow> {t. \<exists>c. state (set_state s tx st) t = Committed c} =
     (case st of Committed c \<Rightarrow> insert tx {t. \<exists>c. state s t = Committed c}
      | _ \<Rightarrow> {t. \<exists>c. state s t = Committed c} - {tx})"
  by (auto simp: state_set split: tx_state.splits)

end

definition table_set_state :: "tx_status_table \<Rightarrow> tx_id \<Rightarrow> tx_state \<Rightarrow> tx_status_table" where
  "table_set_state t tx st = t\<lparr>ts_states := AList.update tx st (ts_states t)\<rparr>"

lemma table_ops:
  "table_begin t = (ts_next_tx t, (table_set_state t (ts_next_tx t) InProgress)\<lparr>ts_next_tx := ts_next_tx t + 1\<rparr>)"
  "table_commit t tx = (ts_next_csn t, (table_set_state t tx (Committed (ts_next_csn t)))\<lparr>ts_next_csn := ts_next_csn t + 1\<rparr>)"
  "table_abort t tx = table_set_state t tx Aborted"
  by (simp_all add: table_begin_def table_commit_def table_abort_def table_set_state_def Let_def)

lemma table_set_state_fields [simp]:
  "ts_states (table_set_state t tx st) = AList.update tx st (ts_states t)"
  "ts_next_tx (table_set_state t tx st) = ts_next_tx t"
  "ts_next_csn (table_set_state t tx st) = ts_next_csn t"
  by (simp_all add: table_set_state_def)

lemma table_state_cong [simp]:
  "table_state (t\<lparr>ts_next_tx := n\<rparr>) = table_state t"
  "table_state (t\<lparr>ts_next_csn := c\<rparr>) = table_state t"
  by (simp_all add: table_state_def fun_eq_iff)

interpretation table: tx_states "\<lambda>_. True" table_state table_set_state
  by unfold_locales (simp_all add: table_state_def table_set_state_def update_conv')

lemma shards_index_less: "ti_shards s \<noteq> [] \<Longrightarrow> shard_index s tx < length (ti_shards s)"
  by (simp add: shard_index_def)

interpretation shards: tx_states "\<lambda>s. ti_shards s \<noteq> []" inner_state inner_set_state
proof
  fix s :: tx_status_inner and tx st tx'
  assume s: "ti_shards s \<noteq> []"
  then show "ti_shards (inner_set_state s tx st) \<noteq> []" by (simp add: inner_set_state_def Let_def)
  show "inner_state (inner_set_state s tx st) tx' = (if tx' = tx then st else inner_state s tx')"
    using shards_index_less [OF s]
    by (auto simp: inner_state_def inner_set_state_def Let_def shard_index_def update_conv' nth_list_update)
qed

section \<open>Snapshots of the sequential table\<close>

text \<open>
  The calls a client makes: a transaction begins, and each transaction that is in progress is
  committed or aborted. The counters are assumed not to wrap.
\<close>

inductive table_step :: "tx_status_table \<Rightarrow> tx_status_table \<Rightarrow> bool" where
  step_begin: "ts_next_tx t \<noteq> - 1 \<Longrightarrow> table_begin t = (tx, t') \<Longrightarrow> table_step t t'"
| step_commit: "ts_next_csn t \<noteq> - 1 \<Longrightarrow> table_state t tx = InProgress \<Longrightarrow> table_commit t tx = (csn, t') \<Longrightarrow>
    table_step t t'"
| step_abort: "table_state t tx = InProgress \<Longrightarrow> table_step t (table_abort t tx)"

inductive_cases table_stepE: "table_step t t'"

definition table_inv :: "tx_status_table \<Rightarrow> bool" where
  "table_inv t \<longleftrightarrow>
     distinct (map fst (ts_states t)) \<and> ts_next_csn t \<noteq> 0 \<and>
     (\<forall>tx. ts_next_tx t \<le> tx \<longrightarrow> map_of (ts_states t) tx = None) \<and>
     (\<forall>tx csn. table_state t tx = Committed csn \<longrightarrow> csn < ts_next_csn t)"

lemma word_plus_one:
  fixes p :: u64
  assumes "p \<noteq> - 1"
  shows "unat (p + 1) = unat p + 1" and "x < p + 1 \<longleftrightarrow> x \<le> p" and "p + 1 \<le> x \<longleftrightarrow> p < x" and "p < p + 1"
    and "p + 1 \<noteq> 0"
proof -
  show nz: "p + 1 \<noteq> 0" using assms by (metis add.commute add_eq_0_iff)
  have "unat (p + 1) = (unat p + 1) mod 2 ^ 64" by (simp add: unat_word_ariths)
  moreover have "unat (p + 1) \<noteq> 0" using nz by (simp add: unat_eq_zero)
  moreover have "unat p < 2 ^ 64" using unat_word_bound [of p] by simp
  ultimately show s: "unat (p + 1) = unat p + 1"
    by (metis Suc_eq_plus1 Suc_lessI mod_less mod_self)
  show "x < p + 1 \<longleftrightarrow> x \<le> p" "p + 1 \<le> x \<longleftrightarrow> p < x" "p < p + 1"
    using s by (auto simp: word_less_nat_alt word_le_nat_alt)
qed

lemma word_minus_one:
  fixes p :: u64
  assumes "p \<noteq> 0"
  shows "x \<le> p - 1 \<longleftrightarrow> x < p"
proof -
  have "p - 1 \<noteq> - 1" using assms by (metis add.left_neutral diff_add_cancel diff_minus_eq_add)
  then show ?thesis using word_plus_one(2) [of "p - 1" x] by simp
qed

lemma table_state_None: "map_of (ts_states t) tx = None \<Longrightarrow> table_state t tx = Aborted"
  by (simp add: table_state_def)

lemma table_step_inv:
  assumes "table_step t t'" and "table_inv t"
  shows "table_inv t'"
  using assms
proof (induction rule: table_step.induct)
  case (step_begin t tx t')
  note w = word_plus_one [OF step_begin(1)]
  show ?case
    using step_begin w unfolding table_inv_def table_ops
    by (auto simp: table.state_set distinct_update update_conv' split: if_splits)
next
  case (step_commit t tx csn t')
  note w = word_plus_one [OF step_commit(1)]
  have tx: "\<not> ts_next_tx t \<le> tx" using step_commit(2,4) table_state_None by (fastforce simp: table_inv_def)
  show ?case
    using step_commit w tx unfolding table_inv_def table_ops
    by (auto simp: table.state_set distinct_update update_conv' split: if_splits) (meson less_imp_le)
next
  case (step_abort t tx)
  have tx: "\<not> ts_next_tx t \<le> tx" using step_abort table_state_None by (fastforce simp: table_inv_def)
  show ?case
    using step_abort tx unfolding table_inv_def table_ops
    by (auto simp: table.state_set distinct_update update_conv' split: if_splits)
qed

text \<open>Committed and aborted are final, and later commits get larger sequence numbers.\<close>

lemma table_step_frame:
  assumes "table_step t t'" and "table_inv t"
  shows "ts_next_csn t \<le> ts_next_csn t'"
    and "table_state t tx = Committed csn \<Longrightarrow> table_state t' tx = Committed csn"
    and "table_state t' tx = Committed csn \<Longrightarrow> table_state t tx = Committed csn \<or> ts_next_csn t \<le> csn"
proof -
  have unborn: "table_state t (ts_next_tx t) = Aborted"
    using assms(2) by (intro table_state_None) (simp add: table_inv_def)
  show "ts_next_csn t \<le> ts_next_csn t'"
    using assms(1) by (cases rule: table_step.cases) (auto simp: table_ops dest: word_plus_one(4))
  show "table_state t' tx = Committed csn" if "table_state t tx = Committed csn"
    using assms(1) that unborn by (cases rule: table_step.cases) (auto simp: table_ops table.state_set)
  show "table_state t tx = Committed csn \<or> ts_next_csn t \<le> csn" if "table_state t' tx = Committed csn"
    using assms(1) that by (cases rule: table_step.cases) (auto simp: table_ops table.state_set split: if_splits)
qed

lemma table_steps_frame:
  assumes "table_step\<^sup>*\<^sup>* t t'" and "table_inv t"
  shows "table_inv t' \<and> ts_next_csn t \<le> ts_next_csn t'
    \<and> (\<forall>tx csn. table_state t tx = Committed csn \<longrightarrow> table_state t' tx = Committed csn)
    \<and> (\<forall>tx csn. table_state t' tx = Committed csn \<longrightarrow> table_state t tx = Committed csn \<or> ts_next_csn t \<le> csn)"
  using assms
proof (induction rule: rtranclp_induct)
  case (step u v)
  then have ih: "table_inv u" "ts_next_csn t \<le> ts_next_csn u" by auto
  note fr = table_step_frame [OF step(2) ih(1)]
  have "ts_next_csn t \<le> ts_next_csn v" using ih(2) fr(1) by simp
  moreover have "table_state t tx = Committed csn \<or> ts_next_csn t \<le> csn" if "table_state v tx = Committed csn" for tx csn
    using fr(3) [OF that] step.IH step.prems ih(2) by auto
  moreover have "table_state v tx = Committed csn" if "table_state t tx = Committed csn" for tx csn
    using that step.IH step.prems fr(2) by blast
  ultimately show ?case using table_step_inv [OF step(2) ih(1)] by blast
qed auto

lemma table_new_inv: "table_inv table_new"
  by (simp add: table_inv_def table_new_def table_state_def)

lemma table_snapshot_active:
  "table_inv t \<Longrightarrow> tx \<in> sn_active (table_snapshot t) \<longleftrightarrow> table_state t tx = InProgress"
proof -
  assume "table_inv t"
  then have d: "distinct (map fst (ts_states t))" by (simp add: table_inv_def)
  have "tx \<in> sn_active (table_snapshot t) \<longleftrightarrow> (tx, InProgress) \<in> set (ts_states t)"
    by (force simp: table_snapshot_def Let_def)
  also have "\<dots> \<longleftrightarrow> map_of (ts_states t) tx = Some InProgress" using map_of_eq_Some_iff [OF d] by simp
  also have "\<dots> \<longleftrightarrow> table_state t tx = InProgress" by (simp add: table_state_def split: option.splits)
  finally show ?thesis .
qed

lemma table_snapshot_csn:
  "table_inv t \<Longrightarrow> csn \<le> sn_visible_csn (table_snapshot t) \<longleftrightarrow> csn < ts_next_csn t"
proof -
  assume "table_inv t"
  then have nz: "ts_next_csn t \<noteq> 0" by (simp add: table_inv_def)
  then have "1 \<le> ts_next_csn t" by (simp add: word_le_nat_alt Suc_leI unat_gt_0)
  then show ?thesis using nz by (simp add: table_snapshot_def Let_def saturating_sub_word_def word_minus_one)
qed

section \<open>Properties\<close>

text \<open>
  C28. Snapshot isolation of the sequential table: a snapshot taken at any reachable table shows,
  now and after any further begins, commits and aborts, exactly the transactions that were
  committed when it was taken, and the reader's own transaction.
\<close>

theorem table_snapshot_stable:
  assumes "table_step\<^sup>*\<^sup>* table_new t" and "table_step\<^sup>*\<^sup>* t t'"
  shows "table_is_tx_visible t' tx (table_snapshot t) owner \<longleftrightarrow>
    Some tx = owner \<or> (\<exists>csn. table_state t tx = Committed csn)"
proof -
  have inv: "table_inv t" using table_steps_frame [OF assms(1) table_new_inv] by blast
  note fr = table_steps_frame [OF assms(2) inv]
  have "(\<exists>csn. table_state t' tx = Committed csn \<and> csn < ts_next_csn t \<and> table_state t tx \<noteq> InProgress)
      \<longleftrightarrow> (\<exists>csn. table_state t tx = Committed csn)"
    using fr inv by (fastforce simp: table_inv_def)
  then show ?thesis
    by (cases "table_state t' tx")
      (auto simp: table_is_tx_visible_def table_snapshot_active [OF inv] table_snapshot_csn [OF inv])
qed

theorem table_snapshot_stable_witness:
  "let t = snd (table_commit (snd (table_begin (snd (table_begin table_new)))) 1);
       t' = snd (table_commit t 2)
   in table_is_tx_visible t' 1 (table_snapshot t) None \<and> \<not> table_is_tx_visible t' 2 (table_snapshot t) None
      \<and> table_is_tx_visible t' 2 (table_snapshot t') None"
proof -
  define t0 where "t0 = snd (table_begin (snd (table_begin table_new)))"
  define t where "t = snd (table_commit t0 1)"
  define t' where "t' = snd (table_commit t 2)"
  have b: "table_step u (snd (table_begin u))" if "ts_next_tx u \<noteq> - 1" for u
    using step_begin [OF that, of "fst (table_begin u)"] by simp
  have c: "table_step u (snd (table_commit u tx))" if "ts_next_csn u \<noteq> - 1" "table_state u tx = InProgress" for u tx
    using step_commit [OF that, of "fst (table_commit u tx)"] by simp
  note ev = t_def t'_def t0_def table_new_def table_begin_def table_commit_def table_state_def
  have "table_step table_new (snd (table_begin table_new))" by (rule b) (simp add: ev)
  moreover have "table_step (snd (table_begin table_new)) t0" unfolding t0_def by (rule b) (simp add: ev)
  moreover have s: "table_step t0 t" unfolding t_def by (rule c) (simp_all add: ev)
  ultimately have "table_step\<^sup>*\<^sup>* table_new t" by (meson converse_rtranclp_into_rtranclp rtranclp.rtrancl_refl)
  moreover have s': "table_step t t'" unfolding t'_def by (rule c) (simp_all add: ev)
  ultimately have r: "table_step\<^sup>*\<^sup>* table_new t" "table_step\<^sup>*\<^sup>* t t'" "table_step\<^sup>*\<^sup>* table_new t'" by simp_all
  have st: "table_state t 1 = Committed 1" "table_state t 2 = InProgress" "table_state t' 2 = Committed 2"
    by (simp_all add: ev)
  have "table_is_tx_visible t' 1 (table_snapshot t) None" "\<not> table_is_tx_visible t' 2 (table_snapshot t) None"
    "table_is_tx_visible t' 2 (table_snapshot t') None"
    using st by (simp_all add: table_snapshot_stable [OF r(1,2)] table_snapshot_stable [OF r(3) rtranclp.rtrancl_refl])
  then show ?thesis by (simp add: Let_def t'_def t_def t0_def)
qed

end
