(* ===== verification/Mem_Heap.thy ===== *)
theory Mem_Heap
  imports Page_Cells Format_Tuple Tx_Status
begin

unbundle bit_operations_syntax

text \<open>
  \<^verbatim>\<open>crates/kernel/src/heap/mem.rs\<close> and \<^verbatim>\<open>TupleVersion::visibility\<close> of \<^verbatim>\<open>format/tuple.rs\<close>: the
  in-memory multi-version heap. Tuples live in slotted pages, the row directory points to the
  newest version of a row, and undo records hold the before images of the older ones. The
  abstract view of a row is the list of its versions, newest first; the operations push onto
  that list and \<open>heap_get\<close> returns the value of the first version whose creator is visible.
\<close>

section \<open>Visibility of a tuple version\<close>

datatype tuple_visibility = Visible | Deleted | Invisible

definition visibility :: "tuple_version \<Rightarrow> tx_status_table \<Rightarrow> snapshot \<Rightarrow> tx_id option \<Rightarrow> tuple_visibility" where
  "visibility tv tx_status sn owner =
     (if \<not> table_is_tx_visible tx_status (tv_begin_tx tv) sn owner then Invisible
      else if tv_end_tx tv \<noteq> 0 \<and> table_is_tx_visible tx_status (tv_end_tx tv) sn owner then Invisible
      else if tv_flags tv AND TUPLE_FLAG_DELETED \<noteq> 0 then Deleted else Visible)"

section \<open>The heap\<close>

record mem_heap =
  mh_rel_id :: rel_id
  mh_pages :: "page list"
  mh_row_dir :: "row_id \<Rightarrow> tuple_ptr option"
  mh_undo :: "undo_record list"
  mh_next_row_id :: u64
  mh_page_size :: nat

definition heap_new :: "crc_fn \<Rightarrow> rel_id \<Rightarrow> mem_heap result" where
  "heap_new crc rel_id =
     rbind (page_new crc DEFAULT_PAGE_SIZE Heap 1 rel_id) (\<lambda>p.
     Ok \<lparr>mh_rel_id = rel_id, mh_pages = [p], mh_row_dir = Map.empty, mh_undo = [],
         mh_next_row_id = 1, mh_page_size = DEFAULT_PAGE_SIZE\<rparr>)"

definition read_tuple :: "mem_heap \<Rightarrow> tuple_ptr \<Rightarrow> tuple_version result" where
  "read_tuple h ptr =
     (if tuple_ptr_is_null ptr \<or> tp_page_id ptr = 0 then Err (CorruptPage ''null tuple pointer'') else
      let page_index = unat (tp_page_id ptr) - 1 in
      rbind (ok_or (CorruptPage ''tuple page missing'')
               (if page_index < length (mh_pages h) then Some (mh_pages h ! page_index) else None)) (\<lambda>p.
      rbind (cell p (tp_slot ptr)) tuple_decode))"

definition current_tuple :: "mem_heap \<Rightarrow> row_id \<Rightarrow> tuple_version result" where
  "current_tuple h row_id =
     rbind (ok_or (CorruptPage ''row id missing from row directory'') (mh_row_dir h row_id)) (read_tuple h)"

text \<open>\<^verbatim>\<open>self.pages[i].insert_cell(encoded)\<close>: the page is updated in place, also on its error paths.\<close>

definition insert_in_page :: "crc_fn \<Rightarrow> nat \<Rightarrow> byte list \<Rightarrow> (mem_heap, u16) action" where
  "insert_in_page crc i encoded h =
     (if i < length (mh_pages h)
      then case insert_cell crc encoded (mh_pages h ! i) of
        (res, p') \<Rightarrow> (res, h\<lparr>mh_pages := (mh_pages h)[i := p']\<rparr>)
      else (Panic, h))"

definition push_page :: "crc_fn \<Rightarrow> (mem_heap, unit) action" where
  "push_page crc =
     aupdate (\<lambda>h.
       rbind (page_new crc (mh_page_size h) Heap (word_of_nat (length (mh_pages h) + 1)) (mh_rel_id h)) (\<lambda>p.
       rbind (vec_push (mh_pages h) p) (\<lambda>ps. Ok (h\<lparr>mh_pages := ps\<rparr>))))"

definition append_tuple :: "crc_fn \<Rightarrow> tuple_version \<Rightarrow> (mem_heap, tuple_ptr) action" where
  "append_tuple crc tv =
     abind (alift (\<lambda>_. tuple_encode tv)) (\<lambda>encoded.
     abind (alift (\<lambda>h. Ok (wrapping_sub_usize (length (mh_pages h)) 1))) (\<lambda>page_index h.
       case insert_in_page crc page_index encoded h of
         (Ok slot, h') \<Rightarrow> (Ok (tuple_ptr_new (word_of_nat (page_index + 1)) slot), h')
       | (Err e, h') \<Rightarrow>
           if e = PageFull
           then abind (push_page crc) (\<lambda>_.
                abind (insert_in_page crc (page_index + 1) encoded) (\<lambda>slot.
                areturn (tuple_ptr_new (word_of_nat (page_index + 1 + 1)) slot))) h'
           else (Err e, h')
       | (Panic, h') \<Rightarrow> (Panic, h')))"

definition append_undo :: "undo_record \<Rightarrow> (mem_heap, undo_ptr) action" where
  "append_undo u =
     abind (aupdate (\<lambda>h. rbind (vec_push (mh_undo h) u) (\<lambda>us. Ok (h\<lparr>mh_undo := us\<rparr>)))) (\<lambda>_.
     alift (\<lambda>h. Ok (word_of_nat (length (mh_undo h)))))"

definition read_undo :: "mem_heap \<Rightarrow> undo_ptr \<Rightarrow> undo_record result" where
  "read_undo h ptr =
     (if ptr = 0 then Err (CorruptPage ''null undo pointer'') else
      ok_or (CorruptPage ''undo pointer out of bounds'')
        (if unat ptr - 1 < length (mh_undo h) then Some (mh_undo h ! (unat ptr - 1)) else None))"

definition set_row_head :: "row_id \<Rightarrow> tuple_ptr \<Rightarrow> (mem_heap, unit) action" where
  "set_row_head row_id ptr = aupdate (\<lambda>h. Ok (h\<lparr>mh_row_dir := (mh_row_dir h)(row_id \<mapsto> ptr)\<rparr>))"

definition heap_insert :: "crc_fn \<Rightarrow> tx_id \<Rightarrow> byte list \<Rightarrow> (mem_heap, row_id) action" where
  "heap_insert crc tx_id payload =
     abind (alift (\<lambda>h. Ok (mh_next_row_id h))) (\<lambda>row_id.
     abind (aupdate (\<lambda>h. Ok (h\<lparr>mh_next_row_id := mh_next_row_id h + 1\<rparr>))) (\<lambda>_.
     abind (alift (\<lambda>h. Ok (tuple_new row_id (mh_rel_id h) tx_id payload))) (\<lambda>tv.
     abind (append_tuple crc tv) (\<lambda>ptr.
     abind (set_row_head row_id ptr) (\<lambda>_.
     areturn row_id)))))"

definition heap_update :: "crc_fn \<Rightarrow> tx_id \<Rightarrow> row_id \<Rightarrow> byte list \<Rightarrow> (mem_heap, unit) action" where
  "heap_update crc tx_id row_id payload =
     abind (alift (\<lambda>h. current_tuple h row_id)) (\<lambda>current.
     abind (alift (\<lambda>_. tuple_encode (current\<lparr>tv_end_tx := tx_id\<rparr>))) (\<lambda>before.
     abind (append_undo \<lparr>ur_kind = UpdateBeforeImage, ur_tx_id = tx_id, ur_row_id = row_id,
                         ur_prev_undo = tv_undo_head current, ur_before_image = before\<rparr>) (\<lambda>undo_ptr.
     abind (alift (\<lambda>h. Ok ((tuple_new row_id (mh_rel_id h) tx_id payload)\<lparr>tv_undo_head := undo_ptr\<rparr>))) (\<lambda>next'.
     abind (append_tuple crc next') (\<lambda>ptr.
     set_row_head row_id ptr)))))"

definition heap_delete :: "crc_fn \<Rightarrow> tx_id \<Rightarrow> row_id \<Rightarrow> (mem_heap, unit) action" where
  "heap_delete crc tx_id row_id =
     abind (alift (\<lambda>h. current_tuple h row_id)) (\<lambda>current.
     abind (alift (\<lambda>_. tuple_encode (current\<lparr>tv_end_tx := tx_id\<rparr>))) (\<lambda>before.
     abind (append_undo \<lparr>ur_kind = DeleteBeforeImage, ur_tx_id = tx_id, ur_row_id = row_id,
                         ur_prev_undo = tv_undo_head current, ur_before_image = before\<rparr>) (\<lambda>undo_ptr.
     abind (alift (\<lambda>h. Ok ((tuple_deleted row_id (mh_rel_id h) tx_id)\<lparr>tv_undo_head := undo_ptr\<rparr>))) (\<lambda>tombstone.
     abind (append_tuple crc tombstone) (\<lambda>ptr.
     set_row_head row_id ptr)))))"

text \<open>
  The walk along the undo chain is a loop without a bound of its own: on a chain with a cycle it
  does not return, which is the value \<open>None\<close>.
\<close>

partial_function (option) get_from_undo ::
    "mem_heap \<Rightarrow> tx_status_table \<Rightarrow> snapshot \<Rightarrow> tx_id option \<Rightarrow> undo_ptr \<Rightarrow> byte list option result option" where
  "get_from_undo h tx_status sn owner cursor =
     (if cursor = 0 then Some (Ok None) else
      case read_undo h cursor of
        Err e \<Rightarrow> Some (Err e)
      | Panic \<Rightarrow> Some Panic
      | Ok u \<Rightarrow>
          (case tuple_decode (ur_before_image u) of
             Err e \<Rightarrow> Some (Err e)
           | Panic \<Rightarrow> Some Panic
           | Ok tv \<Rightarrow>
               (case visibility tv tx_status sn owner of
                  Visible \<Rightarrow> Some (Ok (Some (tv_payload tv)))
                | Deleted \<Rightarrow> Some (Ok None)
                | Invisible \<Rightarrow> get_from_undo h tx_status sn owner (ur_prev_undo u))))"

definition heap_get ::
    "mem_heap \<Rightarrow> tx_status_table \<Rightarrow> snapshot \<Rightarrow> tx_id option \<Rightarrow> row_id \<Rightarrow> byte list option result option" where
  "heap_get h tx_status sn owner row_id =
     (case mh_row_dir h row_id of
        None \<Rightarrow> Some (Ok None)
      | Some ptr \<Rightarrow>
          (case read_tuple h ptr of
             Err e \<Rightarrow> Some (Err e)
           | Panic \<Rightarrow> Some Panic
           | Ok current \<Rightarrow>
               (case visibility current tx_status sn owner of
                  Visible \<Rightarrow> Some (Ok (Some (tv_payload current)))
                | Deleted \<Rightarrow> Some (Ok None)
                | Invisible \<Rightarrow> get_from_undo h tx_status sn owner (tv_undo_head current))))"

definition row_head :: "mem_heap \<Rightarrow> row_id \<Rightarrow> tuple_ptr option" where
  "row_head h row_id = mh_row_dir h row_id"

section \<open>Histories\<close>

type_synonym row_version = "tx_id \<times> byte list option"

definition tuple_value :: "tuple_version \<Rightarrow> byte list option" where
  "tuple_value tv = (if tv_flags tv AND TUPLE_FLAG_DELETED \<noteq> 0 then None else Some (tv_payload tv))"

text \<open>
  \<open>undo_chain us newer ptr vs\<close>: the undo records from \<open>ptr\<close> on hold the versions \<open>vs\<close>, newest
  first, each ended by the transaction that created the version before it.
\<close>

fun undo_chain :: "undo_record list \<Rightarrow> tx_id \<Rightarrow> undo_ptr \<Rightarrow> row_version list \<Rightarrow> bool" where
  "undo_chain us newer ptr [] \<longleftrightarrow> ptr = 0"
| "undo_chain us newer ptr ((tx, w) # vs) \<longleftrightarrow>
     ptr \<noteq> 0 \<and> unat ptr \<le> length us \<and>
     (case tuple_decode (ur_before_image (us ! (unat ptr - 1))) of
        Ok tv \<Rightarrow> tv_begin_tx tv = tx \<and> tv_end_tx tv = newer \<and> tuple_value tv = w
          \<and> undo_chain us tx (ur_prev_undo (us ! (unat ptr - 1))) vs
      | _ \<Rightarrow> False)"

definition row_history :: "mem_heap \<Rightarrow> row_id \<Rightarrow> row_version list \<Rightarrow> bool" where
  "row_history h row vs \<longleftrightarrow>
     (case mh_row_dir h row of
        None \<Rightarrow> vs = []
      | Some ptr \<Rightarrow>
          (case read_tuple h ptr of
             Ok tv \<Rightarrow> vs \<noteq> [] \<and> hd vs = (tv_begin_tx tv, tuple_value tv) \<and> tv_end_tx tv = 0
               \<and> undo_chain (mh_undo h) (tv_begin_tx tv) (tv_undo_head tv) (tl vs)
           | _ \<Rightarrow> False))"

text \<open>What a reader sees of a history: the newest version whose creator is visible.\<close>

definition visible_value :: "tx_status_table \<Rightarrow> snapshot \<Rightarrow> tx_id option \<Rightarrow> row_version list \<Rightarrow> byte list option" where
  "visible_value tx_status sn owner vs =
     (case find (\<lambda>v. table_is_tx_visible tx_status (fst v) sn owner) vs of
        None \<Rightarrow> None | Some v \<Rightarrow> snd v)"

definition heap_inv :: "crc_fn \<Rightarrow> mem_heap \<Rightarrow> bool" where
  "heap_inv crc h \<longleftrightarrow>
     mh_pages h \<noteq> [] \<and> length (mh_pages h) \<le> isize_max \<and> length (mh_undo h) \<le> isize_max \<and>
     mh_page_size h = DEFAULT_PAGE_SIZE \<and> list_all (page_wf crc) (mh_pages h) \<and>
     (\<forall>row. \<exists>vs. row_history h row vs)"

section \<open>Reading\<close>

declare get_from_undo.simps [simp del]

lemma visible_value_simps [simp]:
  "visible_value t sn own [] = None"
  "visible_value t sn own ((tx, v) # vs) =
     (if table_is_tx_visible t tx sn own then v else visible_value t sn own vs)"
  by (simp_all add: visible_value_def)

lemma visibility_cases:
  "visibility tv t sn own =
     (if \<not> table_is_tx_visible t (tv_begin_tx tv) sn own
         \<or> tv_end_tx tv \<noteq> 0 \<and> table_is_tx_visible t (tv_end_tx tv) sn own then Invisible
      else case tuple_value tv of None \<Rightarrow> Deleted | Some _ \<Rightarrow> Visible)"
  by (simp add: visibility_def tuple_value_def)

lemma tuple_value_Some: "tuple_value tv = Some p \<Longrightarrow> tv_payload tv = p"
  by (simp add: tuple_value_def split: if_splits)

lemma get_from_undo_chain:
  assumes "undo_chain (mh_undo h) newer ptr vs" and "newer = 0 \<or> \<not> table_is_tx_visible t newer sn own"
  shows "get_from_undo h t sn own ptr = Some (Ok (visible_value t sn own vs))"
  using assms
proof (induction vs arbitrary: newer ptr)
  case Nil
  then show ?case by (simp add: get_from_undo.simps)
next
  case (Cons v vs)
  obtain tx w where v: "v = (tx, w)" by fastforce
  let ?u = "mh_undo h ! (unat ptr - 1)"
  from Cons.prems v obtain tv where ptr: "ptr \<noteq> 0" "unat ptr \<le> length (mh_undo h)"
    and tv: "tuple_decode (ur_before_image ?u) = Ok tv" "tv_begin_tx tv = tx" "tv_end_tx tv = newer" "tuple_value tv = w"
    and rest: "undo_chain (mh_undo h) tx (ur_prev_undo ?u) vs"
    by (auto split: result.splits)
  have "0 < unat ptr" using ptr(1) by (simp add: unat_gt_0)
  then have "read_undo h ptr = Ok ?u" using ptr by (simp add: read_undo_def)
  then have step: "get_from_undo h t sn own ptr =
      (case visibility tv t sn own of Visible \<Rightarrow> Some (Ok (Some (tv_payload tv))) | Deleted \<Rightarrow> Some (Ok None)
       | Invisible \<Rightarrow> get_from_undo h t sn own (ur_prev_undo ?u))"
    using ptr tv(1) by (subst get_from_undo.simps) (simp del: One_nat_def)
  show ?case
  proof (cases "table_is_tx_visible t tx sn own")
    case True
    then show ?thesis
      using step tv Cons.prems(2) v by (auto simp: visibility_cases dest: tuple_value_Some split: option.splits)
  next
    case False
    then show ?thesis using step tv v Cons.IH [OF rest] by (simp add: visibility_cases)
  qed
qed

lemma heap_get_history:
  assumes "row_history h row vs"
  shows "heap_get h t sn own row = Some (Ok (visible_value t sn own vs))"
proof (cases "mh_row_dir h row")
  case None
  then show ?thesis using assms by (simp add: heap_get_def row_history_def)
next
  case (Some ptr)
  with assms obtain tv where tv: "read_tuple h ptr = Ok tv" and vs: "vs = (tv_begin_tx tv, tuple_value tv) # tl vs"
    and "end": "tv_end_tx tv = 0" and ch: "undo_chain (mh_undo h) (tv_begin_tx tv) (tv_undo_head tv) (tl vs)"
    by (auto simp: row_history_def split: result.splits) (metis list.collapse)
  have get: "heap_get h t sn own row =
      (case visibility tv t sn own of Visible \<Rightarrow> Some (Ok (Some (tv_payload tv))) | Deleted \<Rightarrow> Some (Ok None)
       | Invisible \<Rightarrow> get_from_undo h t sn own (tv_undo_head tv))"
    using Some tv by (simp add: heap_get_def)
  show ?thesis
  proof (cases "table_is_tx_visible t (tv_begin_tx tv) sn own")
    case True
    then show ?thesis
      using "end" by (subst vs) (auto simp: get visibility_cases dest: tuple_value_Some split: option.splits)
  next
    case False
    then show ?thesis using get_from_undo_chain [OF ch, of t sn own]
      by (subst vs) (simp add: get visibility_cases)
  qed
qed

section \<open>Appending tuples\<close>

definition pages_ok :: "crc_fn \<Rightarrow> mem_heap \<Rightarrow> bool" where
  "pages_ok crc h \<longleftrightarrow> mh_pages h \<noteq> [] \<and> length (mh_pages h) \<le> isize_max \<and>
     mh_page_size h = DEFAULT_PAGE_SIZE \<and> list_all (page_wf crc) (mh_pages h)"

lemma read_tuple_Ok_iff:
  "read_tuple h ptr = Ok tv \<longleftrightarrow>
     tp_page_id ptr \<noteq> 0 \<and> unat (tp_page_id ptr) - 1 < length (mh_pages h) \<and>
     (\<exists>bs. cell (mh_pages h ! (unat (tp_page_id ptr) - 1)) (tp_slot ptr) = Ok bs \<and> tuple_decode bs = Ok tv)"
  by (auto simp: read_tuple_def tuple_ptr_is_null_def Let_def split: if_splits)

lemma tuple_decode_encoded: "tuple_encode tv = Ok bs \<Longrightarrow> tuple_decode bs = Ok tv"
  using tuple_codec.decode_encode [of tv bs]
  by (cases "length (tv_payload tv) \<le> 4294967295") (simp_all add: tuple_encode_def tuple_encoded_size_def)

lemma unat_page_number: "n < isize_max \<Longrightarrow> unat (word_of_nat (n + 1) :: u64) = n + 1"
  by (rule unat_u64_of_nat) (simp add: isize_max_def)

lemma page_number_nonzero: "n < isize_max \<Longrightarrow> (word_of_nat (n + 1) :: u64) \<noteq> 0"
  using unat_page_number [of n] by (metis Suc_eq_plus1 nat.distinct(1) unat_0)

text \<open>A cell added to one page: the tuple reads back and every other pointer reads as before.\<close>

lemma insert_in_page_Ok:
  assumes ok: "pages_ok crc h" and run: "insert_in_page crc i bs h = (Ok slot, h')"
    and enc: "tuple_encode tv = Ok bs"
  shows "pages_ok crc h'" and "h' = h\<lparr>mh_pages := mh_pages h'\<rparr>"
    and "read_tuple h' (tuple_ptr_new (word_of_nat (i + 1)) slot) = Ok tv"
    and "read_tuple h ptr = Ok old \<Longrightarrow> read_tuple h' ptr = Ok old"
proof -
  let ?p = "mh_pages h ! i"
  from run obtain p' where i: "i < length (mh_pages h)" and ins: "insert_cell crc bs ?p = (Ok slot, p')"
    and h': "h' = h\<lparr>mh_pages := (mh_pages h)[i := p']\<rparr>"
    by (auto simp: insert_in_page_def split: if_splits prod.splits)
  have wf: "page_wf crc ?p" using ok i by (simp add: pages_ok_def list_all_length)
  note put = slotted.put_Ok [OF wf ins]
  show "pages_ok crc h'" using ok put(1) h' 
    by (auto simp: pages_ok_def list_all_iff dest!: set_update_subset_insert [THEN subsetD])
  show "h' = h\<lparr>mh_pages := mh_pages h'\<rparr>" using h' by simp
  have "i < isize_max" using ok i by (simp add: pages_ok_def)
  then show "read_tuple h' (tuple_ptr_new (word_of_nat (i + 1)) slot) = Ok tv"
    using i h' slotted.fetch_put [OF wf ins] tuple_decode_encoded [OF enc] unat_page_number [of i] page_number_nonzero [of i]
    by (simp add: read_tuple_Ok_iff tuple_ptr_new_def)
  show "read_tuple h' ptr = Ok old" if "read_tuple h ptr = Ok old"
  proof (cases "unat (tp_page_id ptr) - 1 = i")
    case True
    with that obtain cbs where c: "cell ?p (tp_slot ptr) = Ok cbs" by (auto simp: read_tuple_Ok_iff)
    then have "unat (tp_slot ptr) < length (page_cells ?p)" using slotted.fetch_eq [OF wf, of "tp_slot ptr"] by (simp split: if_splits)
    then have "cell p' (tp_slot ptr) = Ok cbs" using slotted.fetch_put_other [OF wf ins] c by simp
    then show ?thesis using that True i h' c by (auto simp: read_tuple_Ok_iff)
  next
    case False
    then show ?thesis using that h' by (auto simp: read_tuple_Ok_iff)
  qed
qed

lemma push_page_Ok:
  assumes ok: "pages_ok crc h" and run: "push_page crc h = (Ok (), h')"
  shows "pages_ok crc h'" and "h' = h\<lparr>mh_pages := mh_pages h'\<rparr>"
    and "length (mh_pages h') = Suc (length (mh_pages h))"
    and "read_tuple h ptr = Ok old \<Longrightarrow> read_tuple h' ptr = Ok old"
proof -
  from run obtain p where p: "page_new crc (mh_page_size h) Heap (word_of_nat (length (mh_pages h) + 1)) (mh_rel_id h) = Ok p"
    and len: "length (mh_pages h) < isize_max" and h': "h' = h\<lparr>mh_pages := mh_pages h @ [p]\<rparr>"
    by (auto simp: push_page_def aupdate_def vec_push_def split: result.splits if_splits)
  have "page_wf crc p"
    using p ok page_new_with_special_Ok [of DEFAULT_PAGE_SIZE 0 crc Heap]
      fresh_page(1) [of "replicate DEFAULT_PAGE_SIZE 0" DEFAULT_PAGE_SIZE]
    by (auto simp: page_new_def pages_ok_def DEFAULT_PAGE_SIZE_def)
  then show "pages_ok crc h'" using ok len h' by (auto simp: pages_ok_def)
  show "h' = h\<lparr>mh_pages := mh_pages h'\<rparr>" "length (mh_pages h') = Suc (length (mh_pages h))" using h' by simp_all
  show "read_tuple h' ptr = Ok old" if "read_tuple h ptr = Ok old"
    using that h' by (auto simp: read_tuple_Ok_iff nth_append)
qed

lemma insert_in_page_full:
  assumes "pages_ok crc h" and "insert_in_page crc i bs h = (Err PageFull, h')"
  shows "h' = h"
proof -
  have i: "i < length (mh_pages h)" using assms(2) by (auto simp: insert_in_page_def split: if_splits)
  then have "page_wf crc (mh_pages h ! i)" using assms(1) by (simp add: pages_ok_def list_all_length)
  then show ?thesis
    using assms(2) i by (cases rule: slotted.put_cases [where x = bs]) (auto simp: insert_in_page_def split: prod.splits)
qed

lemma append_tuple_eq:
  assumes ok: "pages_ok crc h" and enc: "tuple_encode tv = Ok bs"
    and ins: "insert_in_page crc (length (mh_pages h) - 1) bs h = (res, h1)"
  shows "append_tuple crc tv h = (case res of
      Ok slot \<Rightarrow> (Ok (tuple_ptr_new (word_of_nat (length (mh_pages h))) slot), h1)
    | Err e \<Rightarrow> if e = PageFull
        then abind (push_page crc) (\<lambda>_. abind (insert_in_page crc (length (mh_pages h)) bs) (\<lambda>slot.
             areturn (tuple_ptr_new (word_of_nat (length (mh_pages h) + 1)) slot))) h1
        else (Err e, h1)
    | Panic \<Rightarrow> (Panic, h1))"
proof -
  let ?n = "length (mh_pages h)"
  have "?n < usize_bound" "1 \<le> ?n"
    using ok by (simp_all add: pages_ok_def isize_max_def usize_bound_def Suc_leI)
  then have i: "wrapping_sub_usize ?n 1 = ?n - 1" "?n - 1 + 1 = ?n" by (simp_all add: wrapping_sub_usize_le)
  then show ?thesis
    unfolding append_tuple_def abind_def [of "alift f" for f] alift_eq enc prod.case result.case i ins i(2) by simp
qed

lemma append_tuple_Ok:
  assumes ok: "pages_ok crc h" and run: "append_tuple crc tv h = (Ok ptr, h')"
  shows "pages_ok crc h' \<and> h' = h\<lparr>mh_pages := mh_pages h'\<rparr> \<and> read_tuple h' ptr = Ok tv
    \<and> (\<forall>q old. read_tuple h q = Ok old \<longrightarrow> read_tuple h' q = Ok old)"
proof -
  let ?n = "length (mh_pages h)"
  obtain bs where enc: "tuple_encode tv = Ok bs"
    using run by (cases "tuple_encode tv") (simp_all add: append_tuple_def abind_def alift_def)
  obtain res h1 where ins: "insert_in_page crc (?n - 1) bs h = (res, h1)" by fastforce
  have n: "?n - 1 + 1 = ?n" using ok by (simp add: pages_ok_def Suc_leI)
  note app = run [unfolded append_tuple_eq [OF ok enc ins]]
  show ?thesis
  proof (cases res)
    case (Ok slot)
    then have "ptr = tuple_ptr_new (word_of_nat ?n) slot" "h' = h1" using app by auto
    then show ?thesis using insert_in_page_Ok [OF ok ins [unfolded Ok] enc, unfolded n] by blast
  next
    case (Err e)
    then have e: "e = PageFull" using app by (simp split: if_splits)
    with ins Err have h1: "h1 = h" using insert_in_page_full [OF ok] by blast
    obtain h2 slot where h2: "push_page crc h = (Ok (), h2)" and put: "insert_in_page crc ?n bs h2 = (Ok slot, h')"
      and ptr: "ptr = tuple_ptr_new (word_of_nat (?n + 1)) slot"
      using app Err e h1 by (auto simp: abind_def areturn_def split: prod.splits result.splits)
    note p = push_page_Ok [OF ok h2]
    note q = insert_in_page_Ok [OF p(1) put enc]
    have "h' = h\<lparr>mh_pages := mh_pages h'\<rparr>" by (subst q(2), subst p(2)) simp
    then show ?thesis using p(4) q ptr by blast
  next
    case Panic
    then show ?thesis using app by simp
  qed
qed

section \<open>Pushing versions\<close>

lemma append_undo_Ok:
  assumes "append_undo u h = (Ok ptr, h')" and "length (mh_undo h) \<le> isize_max"
  shows "h' = h\<lparr>mh_undo := mh_undo h @ [u]\<rparr>" and "unat ptr = Suc (length (mh_undo h))" and "ptr \<noteq> 0"
    and "length (mh_undo h') \<le> isize_max"
proof -
  from assms(1) have h': "length (mh_undo h) < isize_max" "h' = h\<lparr>mh_undo := mh_undo h @ [u]\<rparr>"
    "ptr = word_of_nat (length (mh_undo h) + 1)"
    by (auto simp: append_undo_def abind_def aupdate_def alift_def vec_push_def split: if_splits)
  then show "h' = h\<lparr>mh_undo := mh_undo h @ [u]\<rparr>" "length (mh_undo h') \<le> isize_max" by simp_all
  show "unat ptr = Suc (length (mh_undo h))" "ptr \<noteq> 0"
    using h' unat_page_number page_number_nonzero by simp_all
qed

lemma undo_chain_append: "undo_chain us newer ptr vs \<Longrightarrow> undo_chain (us @ [u]) newer ptr vs"
proof (induction vs arbitrary: newer ptr)
  case (Cons v vs)
  obtain tx w where v: "v = (tx, w)" by fastforce
  from Cons.prems v have "ptr \<noteq> 0" "unat ptr \<le> length us" by simp_all
  then have "unat ptr - 1 < length us" using unat_gt_0 [of ptr] by linarith
  then have "(us @ [u]) ! (unat ptr - 1) = us ! (unat ptr - 1)" by (simp add: nth_append)
  then show ?case using Cons v by (auto split: result.splits)
qed simp

lemma row_history_frame:
  assumes "row_history h row vs" and "mh_row_dir h' row = mh_row_dir h row"
    and "mh_undo h' = mh_undo h \<or> (\<exists>u. mh_undo h' = mh_undo h @ [u])"
    and "\<And>q old. read_tuple h q = Ok old \<Longrightarrow> read_tuple h' q = Ok old"
  shows "row_history h' row vs"
proof (cases "mh_row_dir h row")
  case None
  then show ?thesis using assms(1,2) by (simp add: row_history_def)
next
  case (Some ptr)
  with assms(1) obtain tv where tv: "read_tuple h ptr = Ok tv" "vs \<noteq> []" "hd vs = (tv_begin_tx tv, tuple_value tv)"
    "tv_end_tx tv = 0" "undo_chain (mh_undo h) (tv_begin_tx tv) (tv_undo_head tv) (tl vs)"
    by (auto simp: row_history_def split: result.splits)
  moreover have "undo_chain (mh_undo h') (tv_begin_tx tv) (tv_undo_head tv) (tl vs)"
    using tv(5) assms(3) undo_chain_append by auto
  ultimately show ?thesis using Some assms(2) assms(4) [OF tv(1)] by (simp add: row_history_def)
qed

lemma heap_inv_pages: "heap_inv crc h \<Longrightarrow> pages_ok crc h"
  by (simp add: heap_inv_def pages_ok_def)

lemma read_tuple_frame [simp]:
  "read_tuple (h\<lparr>mh_undo := us\<rparr>) = read_tuple h"
  "read_tuple (h\<lparr>mh_row_dir := d\<rparr>) = read_tuple h"
  "read_tuple (h\<lparr>mh_next_row_id := n\<rparr>) = read_tuple h"
  by (simp_all add: fun_eq_iff read_tuple_def Let_def)

lemma pages_ok_frame [simp]:
  "pages_ok crc (h\<lparr>mh_undo := us\<rparr>) = pages_ok crc h"
  "pages_ok crc (h\<lparr>mh_row_dir := d\<rparr>) = pages_ok crc h"
  "pages_ok crc (h\<lparr>mh_next_row_id := n\<rparr>) = pages_ok crc h"
  by (simp_all add: pages_ok_def)

text \<open>
  The common end of the three mutations: a tuple is appended and becomes the head of a row. The
  versions below it are those its undo pointer leads to.
\<close>

lemma new_head:
  assumes ok: "pages_ok crc h" and len: "length (mh_undo h) \<le> isize_max"
    and app: "append_tuple crc tv h = (Ok ptr, h1)" and fin: "set_row_head row ptr h1 = (res, h')"
    and tv: "tv_end_tx tv = 0" "undo_chain (mh_undo h) (tv_begin_tx tv) (tv_undo_head tv) vs"
    and hist: "\<And>r. r \<noteq> row \<Longrightarrow> \<exists>us. row_history h r us"
  shows "res = Ok ()" and "heap_inv crc h'"
    and "row_history h' row ((tv_begin_tx tv, tuple_value tv) # vs)"
    and "r \<noteq> row \<Longrightarrow> row_history h r us \<Longrightarrow> row_history h' r us"
    and "mh_next_row_id h' = mh_next_row_id h"
proof -
  note a = append_tuple_Ok [OF ok app]
  have h1: "h1 = h\<lparr>mh_pages := mh_pages h1\<rparr>" using a by blast
  have f1: "mh_undo h1 = mh_undo h" "mh_row_dir h1 = mh_row_dir h" "mh_next_row_id h1 = mh_next_row_id h"
    using h1 by (metis mem_heap.select_convs(3-5) mem_heap.surjective mem_heap.update_convs(2))+
  have h': "h' = h1\<lparr>mh_row_dir := (mh_row_dir h1)(row \<mapsto> ptr)\<rparr>" "res = Ok ()"
    using fin by (simp_all add: set_row_head_def aupdate_def)
  show "res = Ok ()" by (rule h'(2))
  have new: "row_history h' row ((tv_begin_tx tv, tuple_value tv) # vs)"
    using a tv f1 h' by (simp add: row_history_def)
  show "row_history h' row ((tv_begin_tx tv, tuple_value tv) # vs)" by (rule new)
  have old: "row_history h' r us" if "r \<noteq> row" "row_history h r us" for r us
    using that(2) by (rule row_history_frame) (use that(1) a f1 h' in auto)
  then show "r \<noteq> row \<Longrightarrow> row_history h r us \<Longrightarrow> row_history h' r us" .
  have "\<exists>us. row_history h' r us" for r using new old hist by (cases "r = row") blast+
  then show "heap_inv crc h'" using a len f1 h' by (simp add: heap_inv_def pages_ok_def)
  show "mh_next_row_id h' = mh_next_row_id h" using f1 h' by simp
qed

lemma heap_insert_Ok:
  assumes inv: "heap_inv crc h" and run: "heap_insert crc tx payload h = (Ok row, h')"
  shows "heap_inv crc h' \<and> row = mh_next_row_id h \<and> mh_next_row_id h' = mh_next_row_id h + 1
    \<and> row_history h' row [(tx, Some payload)]
    \<and> (\<forall>r us. r \<noteq> row \<longrightarrow> row_history h r us \<longrightarrow> row_history h' r us)"
proof -
  let ?h0 = "h\<lparr>mh_next_row_id := mh_next_row_id h + 1\<rparr>"
  let ?tv = "tuple_new (mh_next_row_id h) (mh_rel_id h) tx payload"
  from run obtain ptr h1 where app: "append_tuple crc ?tv ?h0 = (Ok ptr, h1)"
    and row: "row = mh_next_row_id h" and fin: "set_row_head row ptr h1 = (Ok (), h')"
    by (auto simp: heap_insert_def abind_def alift_def aupdate_def areturn_def split: prod.splits result.splits)
  have ok: "pages_ok crc ?h0" "length (mh_undo ?h0) \<le> isize_max"
    using inv heap_inv_pages by (auto simp: heap_inv_def)
  have same: "row_history ?h0 r us = row_history h r us" for r us
    by (simp add: row_history_def cong: option.case_cong result.case_cong)
  have "undo_chain (mh_undo ?h0) (tv_begin_tx ?tv) (tv_undo_head ?tv) []" "tv_end_tx ?tv = 0"
    "tuple_value ?tv = Some payload" "tv_begin_tx ?tv = tx"
    by (simp_all add: tuple_new_def tuple_value_def)
  with new_head [OF ok app fin this(2,1)] inv row show ?thesis
    by (auto simp: same heap_inv_def)
qed

lemma push_version:
  assumes inv: "heap_inv crc h" and hist: "row_history h row vs"
    and cur: "current_tuple h row = Ok cur" and enc: "tuple_encode (cur\<lparr>tv_end_tx := tx\<rparr>) = Ok before"
    and undo: "append_undo u h = (Ok uptr, h0)" "ur_prev_undo u = tv_undo_head cur" "ur_before_image u = before"
    and app: "append_tuple crc tv h0 = (Ok ptr, h1)" and fin: "set_row_head row ptr h1 = (res, h')"
    and tv: "tv_end_tx tv = 0" "tv_begin_tx tv = tx" "tv_undo_head tv = uptr"
  shows "heap_inv crc h' \<and> row_history h' row ((tx, tuple_value tv) # vs)
    \<and> (\<forall>r us. r \<noteq> row \<longrightarrow> row_history h r us \<longrightarrow> row_history h' r us)
    \<and> mh_next_row_id h' = mh_next_row_id h"
proof -
  have len: "length (mh_undo h) \<le> isize_max" using inv by (simp add: heap_inv_def)
  note un = append_undo_Ok [OF undo(1) len]
  have ok: "pages_ok crc h0" using heap_inv_pages [OF inv] un(1) by simp
  have keep: "row_history h0 r us" if "row_history h r us" for r us
    using that by (rule row_history_frame) (use un(1) in auto)
  obtain p where p: "mh_row_dir h row = Some p" "read_tuple h p = Ok cur"
    using cur by (auto simp: current_tuple_def)
  with hist have vs: "vs = (tv_begin_tx cur, tuple_value cur) # tl vs" and "end": "tv_end_tx cur = 0"
    and ch: "undo_chain (mh_undo h) (tv_begin_tx cur) (tv_undo_head cur) (tl vs)"
    by (auto simp: row_history_def) (metis list.collapse)
  have dec: "tuple_decode before = Ok (cur\<lparr>tv_end_tx := tx\<rparr>)" using enc by (rule tuple_decode_encoded)
  have "undo_chain (mh_undo h0) tx uptr vs"
  proof (subst vs)
    show "undo_chain (mh_undo h0) tx uptr ((tv_begin_tx cur, tuple_value cur) # tl vs)"
      using un undo(2,3) dec undo_chain_append [OF ch] by (simp add: nth_append tuple_value_def)
  qed
  moreover have "\<exists>us. row_history h0 r us" for r using inv keep unfolding heap_inv_def by blast
  ultimately show ?thesis
    using new_head [OF ok un(4) app fin tv(1), of vs] keep tv un(1) by auto
qed

section \<open>When the operations succeed\<close>

text \<open>The largest payload that fits into a fresh page: page minus page header, slot and tuple header.\<close>

definition MAX_TUPLE_PAYLOAD :: nat where "MAX_TUPLE_PAYLOAD = 16244"

lemma push_page_total:
  assumes ok: "pages_ok crc h" and room: "length (mh_pages h) < isize_max"
  obtains p h' where "push_page crc h = (Ok (), h')" and "mh_pages h' = mh_pages h @ [p]" and "free_bytes p = 16320"
proof -
  let ?id = "word_of_nat (length (mh_pages h) + 1)"
  obtain p where "page_new crc (mh_page_size h) Heap ?id (mh_rel_id h) = Ok p" "free_bytes p = 16320"
    using page_new_with_special_Ok [of 16384 0 crc Heap ?id "mh_rel_id h"]
      fresh_page(4) [of "replicate 16384 0" 16384 crc Heap ?id "mh_rel_id h" 1] ok
    by (simp add: page_new_def pages_ok_def DEFAULT_PAGE_SIZE_def)
  with room that show thesis by (simp add: push_page_def aupdate_def vec_push_def)
qed

lemma insert_in_page_cases:
  assumes "pages_ok crc h" and "i < length (mh_pages h)"
  obtains (stored) slot h' where "insert_in_page crc i bs h = (Ok slot, h')"
  | (full) "insert_in_page crc i bs h = (Err PageFull, h)" and "free_bytes (mh_pages h ! i) < length bs + 4"
proof -
  have wf: "page_wf crc (mh_pages h ! i)" using assms by (simp add: pages_ok_def list_all_length)
  show thesis
    using that assms(2) by (cases rule: slotted.put_cases [OF wf, where x = bs]) (simp_all add: insert_in_page_def)
qed

lemma append_tuple_cases:
  assumes ok: "pages_ok crc h" and room: "length (mh_pages h) < isize_max"
  obtains (appended) ptr h' where "append_tuple crc tv h = (Ok ptr, h')"
  | (failed) e h' where "append_tuple crc tv h = (Err e, h')" and "MAX_TUPLE_PAYLOAD < length (tv_payload tv)"
      and "pages_ok crc h'" and "h' = h\<lparr>mh_pages := mh_pages h'\<rparr>"
      and "\<And>q old. read_tuple h q = Ok old \<Longrightarrow> read_tuple h' q = Ok old"
proof (cases "length (tv_payload tv) \<le> 4294967295")
  case False
  then have "append_tuple crc tv h = (Err (CorruptPage ''tuple payload too large''), h)"
    by (simp add: append_tuple_def abind_def alift_def tuple_encode_def tuple_encoded_size_def)
  then show thesis using False ok by (intro failed) (simp_all add: MAX_TUPLE_PAYLOAD_def)
next
  case True
  then obtain bs where enc: "tuple_encode tv = Ok bs" using tuple_encode_Ok by blast
  then have lbs: "length bs = 72 + length (tv_payload tv)" by (rule tuple_encode_length)
  let ?n = "length (mh_pages h)"
  have i: "?n - 1 < ?n" using ok by (simp add: pages_ok_def)
  show thesis
  proof (cases rule: insert_in_page_cases [OF ok i, where bs = bs])
    case (1 slot h')
    then show thesis using appended append_tuple_eq [OF ok enc 1] by simp
  next
    case 2
    note eq = append_tuple_eq [OF ok enc 2(1), simplified]
    obtain p h2 where h2: "push_page crc h = (Ok (), h2)" "mh_pages h2 = mh_pages h @ [p]" "free_bytes p = 16320"
      using ok room by (rule push_page_total)
    note pp = push_page_Ok [OF ok h2(1)]
    have n2: "?n < length (mh_pages h2)" using h2 by simp
    show thesis
    proof (cases rule: insert_in_page_cases [OF pp(1) n2, where bs = bs])
      case (1 slot h')
      then show thesis using appended eq h2(1) by (simp add: abind_def areturn_def)
    next
      case 2
      then have "append_tuple crc tv h = (Err PageFull, h2)" using eq h2(1) by (simp add: abind_def)
      moreover have "MAX_TUPLE_PAYLOAD < length (tv_payload tv)"
        using 2(2) h2(2,3) lbs by (simp add: MAX_TUPLE_PAYLOAD_def)
      ultimately show thesis using pp(1,2,4) by (rule failed)
    qed
  qed
qed

lemma heap_new_Ok:
  obtains h where "heap_new crc rel_id = Ok h" and "heap_inv crc h" and "\<And>row. row_history h row []"
    and "mh_next_row_id h = 1" and "length (mh_pages h) = 1" and "mh_undo h = []"
proof -
  obtain p where p: "page_new crc DEFAULT_PAGE_SIZE Heap 1 rel_id = Ok p" "page_wf crc p"
    using page_new_with_special_Ok [of 16384 0 crc Heap 1 rel_id]
      fresh_page(1) [of "replicate 16384 0" 16384 crc Heap 1 rel_id 1]
    by (simp add: page_new_def DEFAULT_PAGE_SIZE_def)
  let ?h = "\<lparr>mh_rel_id = rel_id, mh_pages = [p], mh_row_dir = Map.empty, mh_undo = [], mh_next_row_id = 1,
    mh_page_size = DEFAULT_PAGE_SIZE\<rparr>"
  have hist: "row_history ?h row []" for row by (simp add: row_history_def)
  then have "heap_inv crc ?h" using p(2) by (auto simp: heap_inv_def isize_max_def)
  with p(1) hist show thesis by (intro that [of ?h]) (simp_all add: heap_new_def)
qed

text \<open>A failed append leaves every history readable.\<close>

lemma failed_append_frame:
  assumes inv: "heap_inv crc h" and h0: "mh_undo h0 = mh_undo h \<or> (\<exists>u. mh_undo h0 = mh_undo h @ [u])"
    "mh_row_dir h0 = mh_row_dir h" "read_tuple h0 = read_tuple h" "length (mh_undo h0) \<le> isize_max"
    and ok: "pages_ok crc h'" and h': "h' = h0\<lparr>mh_pages := mh_pages h'\<rparr>"
    and rd: "\<And>q old. read_tuple h0 q = Ok old \<Longrightarrow> read_tuple h' q = Ok old"
  shows "heap_inv crc h' \<and> (\<forall>r us. row_history h r us \<longrightarrow> row_history h' r us)"
proof -
  have f: "mh_undo h' = mh_undo h0" "mh_row_dir h' = mh_row_dir h0"
    using h' by (metis mem_heap.select_convs(3,4) mem_heap.surjective mem_heap.update_convs(2))+
  have keep: "row_history h' r us" if "row_history h r us" for r us
    using that by (rule row_history_frame) (use f h0 rd in auto)
  moreover have "\<exists>us. row_history h' r us" for r using inv keep unfolding heap_inv_def by blast
  ultimately show ?thesis using ok f(1) h0(4) by (simp add: heap_inv_def pages_ok_def)
qed

lemma history_current:
  assumes "row_history h row vs"
  shows "vs = [] \<Longrightarrow> current_tuple h row = Err (CorruptPage ''row id missing from row directory'')"
    and "vs \<noteq> [] \<Longrightarrow> \<exists>cur. current_tuple h row = Ok cur"
  using assms by (auto simp: row_history_def current_tuple_def split: option.splits result.splits)

lemma current_payload_small:
  assumes "current_tuple h row = Ok cur"
  shows "length (tv_payload cur) \<le> 4294967295"
proof -
  obtain bs where "tuple_decode bs = Ok cur" using assms by (auto simp: current_tuple_def read_tuple_Ok_iff)
  then obtain w :: u32 where "tv_payload cur = bslice bs 72 (unat w)"
    by (auto simp: tuple_decode_def slice_range_Ok_iff split: if_splits)
  then have "length (tv_payload cur) \<le> unat w" by (simp add: length_bslice)
  then show ?thesis using unat_u32_bound [of w] by linarith
qed

lemma append_undo_total:
  "length (mh_undo h) < isize_max \<Longrightarrow> \<exists>ptr. append_undo u h = (Ok ptr, h\<lparr>mh_undo := mh_undo h @ [u]\<rparr>)"
  by (simp add: append_undo_def abind_def aupdate_def alift_def vec_push_def)

section \<open>Properties\<close>

text \<open>
  C4. On a heap that satisfies the invariant, \<^verbatim>\<open>get\<close> returns, without running into a corrupt
  chain or a cycle, the value of the newest version of the row whose creating transaction the
  snapshot shows, and nothing when that version is a deletion or no version is visible.
\<close>

theorem heap_get_newest_visible:
  assumes "heap_inv crc h"
  shows "\<exists>vs. row_history h row vs \<and>
    heap_get h tx_status sn owner row = Some (Ok (visible_value tx_status sn owner vs))"
proof -
  obtain vs where vs: "row_history h row vs" using assms unfolding heap_inv_def by blast
  show ?thesis using vs heap_get_history [OF vs] by blast
qed

theorem heap_get_newest_visible_witness:
  "\<exists>h. heap_new (\<lambda>_. 7) 5 = Ok h \<and> heap_get h table_new (table_snapshot table_new) None 3 = Some (Ok None)"
proof -
  obtain h where h: "heap_new (\<lambda>_. 7) 5 = Ok h" "heap_inv (\<lambda>_. 7) h" by (rule heap_new_Ok)
  from heap_get_newest_visible [OF h(2), of 3 table_new "table_snapshot table_new" None] obtain vs where
    "row_history h 3 vs" "heap_get h table_new (table_snapshot table_new) None 3
      = Some (Ok (visible_value table_new (table_snapshot table_new) None vs))" by blast
  moreover have "mh_row_dir h 3 = None" using h(1) by (auto simp: heap_new_def)
  ultimately show ?thesis using h(1) by (auto simp: row_history_def)
qed

text \<open>
  C16. \<^verbatim>\<open>insert\<close> allocates the next row id, gives it the history of one version and leaves every
  other row alone; it fails only for a payload that does not fit into a page, and then every
  history stays readable. The page vector is assumed not to be at its capacity limit.
\<close>

theorem heap_insert_correct:
  assumes inv: "heap_inv crc h" and room: "length (mh_pages h) < isize_max"
  shows "case heap_insert crc tx payload h of
      (Ok row, h') \<Rightarrow> heap_inv crc h' \<and> row = mh_next_row_id h \<and> mh_next_row_id h' = mh_next_row_id h + 1
        \<and> row_history h' row [(tx, Some payload)]
        \<and> (\<forall>r us. r \<noteq> row \<longrightarrow> row_history h r us \<longrightarrow> row_history h' r us)
    | (Err e, h') \<Rightarrow> MAX_TUPLE_PAYLOAD < length payload \<and> heap_inv crc h'
        \<and> (\<forall>r us. row_history h r us \<longrightarrow> row_history h' r us)
    | (Panic, _) \<Rightarrow> False"
proof -
  let ?h0 = "h\<lparr>mh_next_row_id := mh_next_row_id h + 1\<rparr>"
  let ?tv = "tuple_new (mh_next_row_id h) (mh_rel_id h) tx payload"
  have ok: "pages_ok crc ?h0" "length (mh_pages ?h0) < isize_max" using heap_inv_pages [OF inv] room by simp_all
  have ins: "heap_insert crc tx payload h =
      abind (append_tuple crc ?tv) (\<lambda>ptr. abind (set_row_head (mh_next_row_id h) ptr) (\<lambda>_. areturn (mh_next_row_id h))) ?h0"
    by (simp add: heap_insert_def abind_def alift_def aupdate_def)
  show ?thesis
  proof (cases rule: append_tuple_cases [OF ok, where tv = ?tv])
    case (1 ptr h1)
    then obtain h' where run: "heap_insert crc tx payload h = (Ok (mh_next_row_id h), h')"
      by (simp add: ins abind_def set_row_head_def aupdate_def areturn_def)
    show ?thesis unfolding run prod.case result.case by (rule heap_insert_Ok [OF inv run])
  next
    case (2 e h1)
    then have "heap_insert crc tx payload h = (Err e, h1)" by (simp add: ins abind_def)
    moreover have "heap_inv crc h1 \<and> (\<forall>r us. row_history h r us \<longrightarrow> row_history h1 r us)"
      by (rule failed_append_frame [OF inv _ _ _ _ 2(3-5)]) (use inv in \<open>simp_all add: heap_inv_def\<close>)
    ultimately show ?thesis using 2(2) by (simp add: tuple_new_def)
  qed
qed

theorem heap_insert_correct_witness:
  "\<exists>h h' row. heap_new (\<lambda>_. 7) 5 = Ok h \<and> heap_insert (\<lambda>_. 7) 1 [10, 20] h = (Ok row, h') \<and> row = 1
     \<and> row_history h' 1 [(1, Some [10, 20])]"
proof -
  obtain h where h: "heap_new (\<lambda>_. 7) 5 = Ok h" "heap_inv (\<lambda>_. 7) h" "mh_next_row_id h = 1" "length (mh_pages h) = 1"
    by (rule heap_new_Ok)
  then have "length (mh_pages h) < isize_max" by (simp add: isize_max_def)
  then show ?thesis using heap_insert_correct [OF h(2), of 1 "[10, 20]"] h
    by (intro exI [of _ h] exI [of _ "snd (heap_insert (\<lambda>_. 7) 1 [10, 20] h)"] exI [of _ 1])
      (auto simp: MAX_TUPLE_PAYLOAD_def split: prod.splits result.splits)
qed

text \<open>The common part of \<^verbatim>\<open>update\<close> and \<^verbatim>\<open>delete\<close>: which branch is taken, and what it leaves.\<close>

definition push_outcome :: "crc_fn \<Rightarrow> mem_heap \<Rightarrow> row_id \<Rightarrow> row_version list \<Rightarrow> row_version \<Rightarrow> nat \<Rightarrow> unit result \<times> mem_heap \<Rightarrow> bool" where
  "push_outcome crc h row vs v len res = (case res of
     (Ok _, h') \<Rightarrow> vs \<noteq> [] \<and> heap_inv crc h' \<and> row_history h' row (v # vs)
        \<and> (\<forall>r us. r \<noteq> row \<longrightarrow> row_history h r us \<longrightarrow> row_history h' r us)
   | (Err e, h') \<Rightarrow> heap_inv crc h' \<and> (\<forall>r us. row_history h r us \<longrightarrow> row_history h' r us)
        \<and> (if vs = [] then e = CorruptPage ''row id missing from row directory'' \<and> h' = h
           else MAX_TUPLE_PAYLOAD < len)
   | (Panic, _) \<Rightarrow> False)"

text \<open>
  The body the two share, for the undo record \<open>U\<close> and the new head \<open>T\<close> that each of them writes.
\<close>

definition push_body :: "crc_fn \<Rightarrow> tx_id \<Rightarrow> row_id \<Rightarrow> (tuple_version \<Rightarrow> byte list \<Rightarrow> undo_record) \<Rightarrow>
    (undo_ptr \<Rightarrow> mem_heap \<Rightarrow> tuple_version) \<Rightarrow> (mem_heap, unit) action" where
  "push_body crc tx row U T =
     abind (alift (\<lambda>h. current_tuple h row)) (\<lambda>current.
     abind (alift (\<lambda>_. tuple_encode (current\<lparr>tv_end_tx := tx\<rparr>))) (\<lambda>before.
     abind (append_undo (U current before)) (\<lambda>undo_ptr.
     abind (alift (\<lambda>h. Ok (T undo_ptr h))) (\<lambda>tv.
     abind (append_tuple crc tv) (\<lambda>ptr. set_row_head row ptr)))))"

lemma push_body_outcome:
  assumes inv: "heap_inv crc h" and hist: "row_history h row vs"
    and room: "length (mh_pages h) < isize_max" "length (mh_undo h) < isize_max"
    and U: "\<And>c b. ur_prev_undo (U c b) = tv_undo_head c" "\<And>c b. ur_before_image (U c b) = b"
    and T: "\<And>u g. tv_end_tx (T u g) = 0" "\<And>u g. tv_begin_tx (T u g) = tx" "\<And>u g. tv_undo_head (T u g) = u"
      "\<And>u g. tuple_value (T u g) = w" "\<And>u g. length (tv_payload (T u g)) = len"
  shows "push_outcome crc h row vs (tx, w) len (push_body crc tx row U T h)"
proof (cases "vs = []")
  case True
  then show ?thesis using history_current(1) [OF hist] inv
    by (simp add: push_body_def push_outcome_def abind_def alift_def)
next
  case False
  then obtain cur where cur: "current_tuple h row = Ok cur" using history_current(2) [OF hist] by blast
  then obtain before where enc: "tuple_encode (cur\<lparr>tv_end_tx := tx\<rparr>) = Ok before"
    using tuple_codec.encode_total [of "cur\<lparr>tv_end_tx := tx\<rparr>"] current_payload_small [OF cur] by auto
  let ?h0 = "h\<lparr>mh_undo := mh_undo h @ [U cur before]\<rparr>"
  obtain uptr where un: "append_undo (U cur before) h = (Ok uptr, ?h0)" using append_undo_total [OF room(2)] by blast
  let ?tv = "T uptr ?h0"
  have eq: "push_body crc tx row U T h = abind (append_tuple crc ?tv) (set_row_head row) ?h0"
    using cur enc un by (simp add: push_body_def abind_def alift_def)
  have ok: "pages_ok crc ?h0" "length (mh_pages ?h0) < isize_max" using heap_inv_pages [OF inv] room(1) by simp_all
  show ?thesis
  proof (cases rule: append_tuple_cases [OF ok, where tv = ?tv])
    case (1 ptr h1)
    obtain res h' where fin: "set_row_head row ptr h1 = (res, h')" by fastforce
    then have "push_body crc tx row U T h = (Ok (), h')"
      using 1 by (simp add: eq abind_def set_row_head_def aupdate_def)
    then show ?thesis
      using push_version [OF inv hist cur enc un U 1 fin T(1-3)] False T(4) by (simp add: push_outcome_def)
  next
    case (2 e h1)
    then have "push_body crc tx row U T h = (Err e, h1)" by (simp add: eq abind_def)
    moreover have "heap_inv crc h1 \<and> (\<forall>r us. row_history h r us \<longrightarrow> row_history h1 r us)"
      by (rule failed_append_frame [OF inv _ _ _ _ 2(3-5)]) (use room in auto)
    ultimately show ?thesis using 2(2) False T(5) by (simp add: push_outcome_def)
  qed
qed

text \<open>
  C17. \<^verbatim>\<open>update\<close> of a row pushes the new value as the newest version of the row's history and
  leaves every other row alone. A row id that was never inserted is an error that changes
  nothing; a payload that does not fit into a page is an error after which every history,
  including that of the row itself, reads as before.
\<close>

theorem heap_update_correct:
  assumes "heap_inv crc h" and "row_history h row vs"
    and "length (mh_pages h) < isize_max" and "length (mh_undo h) < isize_max"
  shows "push_outcome crc h row vs (tx, Some payload) (length payload) (heap_update crc tx row payload h)"
  unfolding heap_update_def push_body_def [symmetric]
  by (rule push_body_outcome [OF assms]) (simp_all add: tuple_new_def tuple_value_def)

text \<open>
  C18. \<^verbatim>\<open>delete\<close> of a row pushes a deletion as the newest version of the row's history and leaves
  every other row alone; a row id that was never inserted is an error that changes nothing.
\<close>

theorem heap_delete_correct:
  assumes "heap_inv crc h" and "row_history h row vs"
    and "length (mh_pages h) < isize_max" and "length (mh_undo h) < isize_max"
  shows "push_outcome crc h row vs (tx, None) 0 (heap_delete crc tx row h)"
  unfolding heap_delete_def push_body_def [symmetric]
  by (rule push_body_outcome [OF assms]) (simp_all add: tuple_deleted_def tuple_value_def TUPLE_FLAG_DELETED_def)

lemma insert_in_page_shape:
  "insert_in_page crc i bs h = (res, h') \<Longrightarrow> length (mh_pages h') = length (mh_pages h) \<and> mh_undo h' = mh_undo h"
  by (auto simp: insert_in_page_def split: if_splits prod.splits)

lemma push_page_shape:
  "push_page crc h = (res, h') \<Longrightarrow> length (mh_pages h') \<le> Suc (length (mh_pages h)) \<and> mh_undo h' = mh_undo h"
  by (auto simp: push_page_def aupdate_def vec_push_def split: result.splits if_splits)

lemma append_tuple_shape:
  assumes "pages_ok crc h" and "append_tuple crc tv h = (Ok ptr, h')"
  shows "length (mh_pages h') \<le> Suc (length (mh_pages h)) \<and> mh_undo h' = mh_undo h"
proof -
  obtain bs where enc: "tuple_encode tv = Ok bs"
    using assms(2) by (cases "tuple_encode tv") (simp_all add: append_tuple_def abind_def alift_def)
  obtain res h1 where ins: "insert_in_page crc (length (mh_pages h) - 1) bs h = (res, h1)" by fastforce
  show ?thesis
    using assms(2) insert_in_page_shape [OF ins] unfolding append_tuple_eq [OF assms(1) enc ins]
    by (fastforce simp: abind_def areturn_def split: result.splits if_splits prod.splits
        dest: push_page_shape insert_in_page_shape)
qed

lemma one_row_heap:
  obtains h where "heap_inv (\<lambda>_. 7) h" and "row_history h 1 [(1, Some [10, 20])]"
    and "length (mh_pages h) < isize_max" and "length (mh_undo h) < isize_max"
proof -
  obtain h where h: "heap_inv (\<lambda>_. 7) h" "mh_next_row_id h = 1" "length (mh_pages h) = 1" "mh_undo h = []"
    by (rule heap_new_Ok)
  let ?h0 = "h\<lparr>mh_next_row_id := mh_next_row_id h + 1\<rparr>"
  let ?tv = "tuple_new (mh_next_row_id h) (mh_rel_id h) 1 [10, 20]"
  have ok: "pages_ok (\<lambda>_. 7) ?h0" "length (mh_pages ?h0) < isize_max"
    using heap_inv_pages [OF h(1)] h(3) by (simp_all add: isize_max_def)
  obtain ptr h1 where app: "append_tuple (\<lambda>_. 7) ?tv ?h0 = (Ok ptr, h1)"
    by (rule append_tuple_cases [OF ok, of ?tv]) (auto simp: MAX_TUPLE_PAYLOAD_def tuple_new_def)
  then obtain h' where run: "heap_insert (\<lambda>_. 7) 1 [10, 20] h = (Ok 1, h')"
    and h': "mh_pages h' = mh_pages h1" "mh_undo h' = mh_undo h1"
    using h(2) by (simp add: heap_insert_def abind_def alift_def aupdate_def set_row_head_def areturn_def)
  note sh = append_tuple_shape [OF ok(1) app]
  show thesis
    by (rule that [of h']) (use heap_insert_Ok [OF h(1) run] sh h h' in \<open>auto simp: isize_max_def\<close>)
qed

theorem heap_update_correct_witness:
  "\<exists>h h'. row_history h 1 [(1, Some [10, 20])] \<and> heap_update (\<lambda>_. 7) 2 1 [30] h = (Ok (), h')
     \<and> row_history h' 1 [(2, Some [30]), (1, Some [10, 20])]"
proof -
  obtain h where h: "heap_inv (\<lambda>_. 7) h" "row_history h 1 [(1, Some [10, 20])]"
    "length (mh_pages h) < isize_max" "length (mh_undo h) < isize_max" by (rule one_row_heap)
  obtain res h' where r: "heap_update (\<lambda>_. 7) 2 1 [30] h = (res, h')" by fastforce
  show ?thesis
    using heap_update_correct [OF h, of 2 "[30]"] h(2) r
    by (intro exI [of _ h] exI [of _ h']) (auto simp: push_outcome_def MAX_TUPLE_PAYLOAD_def split: result.splits)
qed

theorem heap_delete_correct_witness:
  "\<exists>h h'. row_history h 1 [(1, Some [10, 20])] \<and> heap_delete (\<lambda>_. 7) 2 1 h = (Ok (), h')
     \<and> row_history h' 1 [(2, None), (1, Some [10, 20])]"
proof -
  obtain h where h: "heap_inv (\<lambda>_. 7) h" "row_history h 1 [(1, Some [10, 20])]"
    "length (mh_pages h) < isize_max" "length (mh_undo h) < isize_max" by (rule one_row_heap)
  obtain res h' where r: "heap_delete (\<lambda>_. 7) 2 1 h = (res, h')" by fastforce
  show ?thesis
    using heap_delete_correct [OF h, of 2] h(2) r
    by (intro exI [of _ h] exI [of _ h']) (auto simp: push_outcome_def split: result.splits)
qed

end
