(* ===== verification/Csn_Frontier.thy ===== *)
theory Csn_Frontier
  imports Tx_Status
begin

text \<open>
  Interleavings of the concurrent transaction status (\<^verbatim>\<open>engine/tx/status.rs\<close>) as the engine
  drives it (\<^verbatim>\<open>engine/runtime/commit.rs\<close>, \<^verbatim>\<open>engine/tx.rs\<close>). Every locked or atomic section is one
  step; each transaction carries the point it has reached in begin, commit or abort. Snapshots
  read the published CSN, so the ordering of the sections inside \<^verbatim>\<open>publish_commit\<close> matters: the
  state is recorded before the CSN is completed.
\<close>

section \<open>The loop over the frontier\<close>

definition fr_done :: "csn_frontier \<Rightarrow> u64 fset" where
  "fr_done fr = fr_completed fr |\<union>| fr_skipped fr"

lemma advance_published_csn_spec:
  assumes "advance_published_csn p fr = (p', fr')"
    and "fr_completed fr |\<inter>| fr_skipped fr = {||}"
    and "\<forall>c. c |\<in>| fr_done fr \<longrightarrow> p < c" and "- 1 |\<notin>| fr_done fr" and "p \<noteq> - 1"
  shows "p \<le> p' \<and> p' \<noteq> - 1 \<and> (\<forall>c. p < c \<and> c \<le> p' \<longrightarrow> c |\<in>| fr_done fr)
    \<and> (\<forall>c. c |\<in>| fr_done fr' \<longleftrightarrow> c |\<in>| fr_done fr \<and> p' < c)
    \<and> fr_completed fr' |\<inter>| fr_skipped fr' = {||} \<and> p' + 1 |\<notin>| fr_done fr'
    \<and> fr_pending fr' = fr_pending fr"
  using assms
proof (induction p fr arbitrary: p' fr' rule: advance_published_csn.induct)
  case (1 p fr)
  note w = word_plus_one [OF \<open>p \<noteq> - 1\<close>]
  have "unat p + unat (1 :: u64) < 2 ^ 64"
    using w(1) unat_word_bound [of "p + 1"] by simp
  then have sat: "saturating_add_word p 1 = p + 1" by (simp add: saturating_add_word_def)
  have disj: "\<And>c. c |\<in>| fr_completed fr \<Longrightarrow> c |\<notin>| fr_skipped fr" using "1.prems"(2) by blast
  define fc where "fc = fr\<lparr>fr_completed := fr_completed fr |-| {|p + 1|}\<rparr>"
  define fs where "fs = fr\<lparr>fr_skipped := fr_skipped fr |-| {|p + 1|}\<rparr>"
  show ?case
  proof (cases "p + 1 |\<in>| fr_done fr")
    case False
    then have "p' = p" "fr' = fr"
      using "1.prems"(1) by (subst (asm) advance_published_csn.simps, simp add: sat Let_def fr_done_def)+
    then show ?thesis using False 1(4-7) by auto
  next
    case True
    then have nm: "p + 1 \<noteq> - 1" using 1(6) by metis
    define g where "g = (if p + 1 |\<in>| fr_completed fr then fc else fs)"
    have run: "advance_published_csn (p + 1) g = (p', fr')"
      using "1.prems"(1) True
      by (subst (asm) advance_published_csn.simps) (auto simp: sat Let_def fr_done_def g_def fc_def fs_def)
    have dn: "c |\<in>| fr_done g \<longleftrightarrow> c |\<in>| fr_done fr \<and> c \<noteq> p + 1" for c
      using True disj by (auto simp: g_def fc_def fs_def fr_done_def)
    have gd: "fr_completed g |\<inter>| fr_skipped g = {||}" "fr_pending g = fr_pending fr"
      using "1.prems"(2) by (auto simp: g_def fc_def fs_def)
    have gt: "\<forall>c. c |\<in>| fr_done g \<longrightarrow> p + 1 < c"
      using dn 1(5) w(3) by (metis order.not_eq_order_implies_strict)
    have gm: "- 1 |\<notin>| fr_done g" using dn 1(6) by blast
    have "p + 1 \<le> p' \<and> p' \<noteq> - 1 \<and> (\<forall>c. p + 1 < c \<and> c \<le> p' \<longrightarrow> c |\<in>| fr_done g)
      \<and> (\<forall>c. c |\<in>| fr_done fr' \<longleftrightarrow> c |\<in>| fr_done g \<and> p' < c)
      \<and> fr_completed fr' |\<inter>| fr_skipped fr' = {||} \<and> p' + 1 |\<notin>| fr_done fr'
      \<and> fr_pending fr' = fr_pending g"
    proof (cases "p + 1 |\<in>| fr_completed fr")
      case c: True
      then have "g = fc" by (simp add: g_def)
      with 1(1) [OF sat [symmetric]] c run gd gt gm nm show ?thesis unfolding sat fc_def by blast
    next
      case c: False
      then have s: "g = fs" "p + 1 |\<in>| fr_skipped fr" using True by (simp_all add: g_def fr_done_def)
      with 1(2) [OF sat [symmetric]] c run gd gt gm nm show ?thesis unfolding sat fs_def by blast
    qed
    moreover have "p \<le> p + 1" using w(4) by simp
    ultimately show ?thesis
      using dn True w(3) gd(2) by (metis (no_types, lifting) order.order_iff_strict order_trans linorder_not_le)
  qed
qed

section \<open>Steps\<close>

datatype tx_phase =
    Unborn | Born | Live
  | Reserved csn | Pending csn | StateSet csn | Completed | Closed
  | Aborting | Dying | Dead

type_synonym tx_system = "tx_status_inner \<times> (tx_id \<Rightarrow> tx_phase)"

fun holds :: "tx_phase \<Rightarrow> csn option" where
  "holds (Reserved c) = Some c"
| "holds (Pending c) = Some c"
| "holds (StateSet c) = Some c"
| "holds _ = None"

text \<open>
  \<open>begin_fetch\<close> and \<open>begin_state\<close> are \<^verbatim>\<open>begin\<close>; \<open>take_snapshot\<close> is the registration in
  \<^verbatim>\<open>begin_txn\<close> and \<^verbatim>\<open>replace_snapshot\<close>, of a CSN that was published when it was read;
  \<open>reserve_fetch\<close> and \<open>reserve_pending\<close> are \<^verbatim>\<open>reserve_commit_csn\<close>; the three \<open>publish\<close> steps are
  \<^verbatim>\<open>publish_commit\<close>; \<open>cancel\<close> is the failed durability barrier; the \<open>abort\<close> steps are
  \<^verbatim>\<open>abort\<close>, from \<^verbatim>\<open>rollback\<close>, from the error paths of \<^verbatim>\<open>commit\<close> or from dropping the handle.
\<close>

inductive sys_step :: "tx_system \<Rightarrow> tx_system \<Rightarrow> bool" where
  begin_fetch: "ti_next_tx s \<noteq> - 1 \<Longrightarrow> fetch_add_next_tx s = (tx, s') \<Longrightarrow>
    sys_step (s, ph) (s', ph(tx := Born))"
| begin_state: "ph tx = Born \<Longrightarrow>
    sys_step (s, ph) (inner_set_state s tx InProgress, ph(tx := Live))"
| take_snapshot: "ph tx = Live \<Longrightarrow> csn \<le> ti_published_csn s \<Longrightarrow>
    sys_step (s, ph) (set_active_snapshot s tx csn, ph)"
| reserve_fetch: "ph tx = Live \<Longrightarrow> ti_next_csn s \<noteq> - 1 \<Longrightarrow> fetch_add_next_csn s = (csn, s') \<Longrightarrow>
    sys_step (s, ph) (s', ph(tx := Reserved csn))"
| reserve_pending: "ph tx = Reserved csn \<Longrightarrow>
    sys_step (s, ph) (insert_pending s csn, ph(tx := Pending csn))"
| publish_state: "ph tx = Pending csn \<Longrightarrow>
    sys_step (s, ph) (inner_set_state s tx (Committed csn), ph(tx := StateSet csn))"
| publish_complete: "ph tx = StateSet csn \<Longrightarrow>
    sys_step (s, ph) (complete_csn s csn, ph(tx := Completed))"
| publish_unregister: "ph tx = Completed \<Longrightarrow>
    sys_step (s, ph) (unregister_active s tx, ph(tx := Closed))"
| cancel: "ph tx = Pending csn \<Longrightarrow>
    sys_step (s, ph) (cancel_reserved_csn s csn, ph(tx := Aborting))"
| abort_state: "ph tx = Live \<or> ph tx = Aborting \<Longrightarrow>
    sys_step (s, ph) (inner_set_state s tx Aborted, ph(tx := Dying))"
| abort_unregister: "ph tx = Dying \<Longrightarrow>
    sys_step (s, ph) (unregister_active s tx, ph(tx := Dead))"

definition sys_init :: "nat \<Rightarrow> tx_system" where
  "sys_init shard_count = (with_shards shard_count, \<lambda>_. Unborn)"

section \<open>The invariant\<close>

definition frontier_inv :: "tx_status_inner \<Rightarrow> bool" where
  "frontier_inv s \<longleftrightarrow>
     ti_published_csn s < ti_next_csn s \<and>
     fr_completed (ti_frontier s) |\<inter>| fr_skipped (ti_frontier s) = {||} \<and>
     (\<forall>c. c |\<in>| fr_done (ti_frontier s) \<longrightarrow> ti_published_csn s < c \<and> c < ti_next_csn s) \<and>
     ti_published_csn s + 1 |\<notin>| fr_done (ti_frontier s)"

definition flight_inv :: "tx_system \<Rightarrow> bool" where
  "flight_inv = (\<lambda>(s, ph).
     (\<forall>tx c. holds (ph tx) = Some c \<longrightarrow>
        ti_published_csn s < c \<and> c < ti_next_csn s \<and> c |\<notin>| fr_done (ti_frontier s)) \<and>
     (\<forall>tx tx' c. holds (ph tx) = Some c \<longrightarrow> holds (ph tx') = Some c \<longrightarrow> tx = tx') \<and>
     (\<forall>c. ti_published_csn s < c \<longrightarrow> c < ti_next_csn s \<longrightarrow>
        c |\<in>| fr_done (ti_frontier s) \<or> (\<exists>tx. holds (ph tx) = Some c)))"

definition committed_inv :: "tx_system \<Rightarrow> bool" where
  "committed_inv = (\<lambda>(s, ph). ti_shards s \<noteq> [] \<and>
     (\<forall>tx. ti_next_tx s \<le> tx \<longrightarrow> ph tx = Unborn) \<and>
     (\<forall>tx c. inner_state s tx = Committed c \<longrightarrow>
        c < ti_next_csn s \<and> (ph tx = StateSet c \<or> ph tx = Completed \<or> ph tx = Closed)))"

definition sys_inv :: "tx_system \<Rightarrow> bool" where
  "sys_inv \<sigma> \<longleftrightarrow> frontier_inv (fst \<sigma>) \<and> flight_inv \<sigma> \<and> committed_inv \<sigma>"

text \<open>Which fields the atomic sections leave alone.\<close>

lemma inner_set_state_fields [simp]:
  "ti_published_csn (inner_set_state s tx st) = ti_published_csn s"
  "ti_next_csn (inner_set_state s tx st) = ti_next_csn s"
  "ti_next_tx (inner_set_state s tx st) = ti_next_tx s"
  "ti_frontier (inner_set_state s tx st) = ti_frontier s"
  by (simp_all add: inner_set_state_def Let_def)

lemma inner_state_cong [simp]:
  "inner_state (s\<lparr>ti_next_tx := a\<rparr>) = inner_state s"
  "inner_state (s\<lparr>ti_next_csn := a\<rparr>) = inner_state s"
  "inner_state (s\<lparr>ti_active_snapshots := as\<rparr>) = inner_state s"
  "inner_state (s\<lparr>ti_frontier := f\<rparr>) = inner_state s"
  "inner_state (s\<lparr>ti_published_csn := p\<rparr>) = inner_state s"
  by (simp_all add: fun_eq_iff inner_state_def shard_index_def)

lemmas section_defs = set_active_snapshot_def unregister_active_def insert_pending_def
  fetch_add_next_tx_def fetch_add_next_csn_def Let_def

text \<open>What completing or skipping a CSN in flight does to the frontier.\<close>

definition closes :: "csn \<Rightarrow> tx_status_inner \<Rightarrow> tx_status_inner \<Rightarrow> bool" where
  "closes csn s s' \<longleftrightarrow> frontier_inv s' \<and> ti_published_csn s \<le> ti_published_csn s' \<and>
     ti_next_csn s' = ti_next_csn s \<and> ti_next_tx s' = ti_next_tx s \<and> ti_shards s' = ti_shards s \<and>
     inner_state s' = inner_state s \<and>
     (\<forall>c. c |\<in>| fr_done (ti_frontier s') \<longleftrightarrow>
        (c |\<in>| fr_done (ti_frontier s) \<or> c = csn) \<and> ti_published_csn s' < c) \<and>
     (\<forall>c. ti_published_csn s < c \<and> c \<le> ti_published_csn s' \<longrightarrow> c |\<in>| fr_done (ti_frontier s) \<or> c = csn)"

lemma closes_advance:
  assumes inv: "frontier_inv s" and c: "ti_published_csn s < csn" "csn < ti_next_csn s"
    and fr: "fr_done fr = finsert csn (fr_done (ti_frontier s))" "fr_completed fr |\<inter>| fr_skipped fr = {||}"
    and run: "advance_published_csn (ti_published_csn s) fr = (p', fr')"
  shows "closes csn s (s\<lparr>ti_published_csn := p', ti_frontier := fr'\<rparr>)"
proof -
  have top: "x \<noteq> - 1" if "x < ti_next_csn s" for x
    using that by (metis max_word_max linorder_not_le)
  have "\<forall>x. x |\<in>| fr_done fr \<longrightarrow> ti_published_csn s < x" "- 1 |\<notin>| fr_done fr" "ti_published_csn s \<noteq> - 1"
    using inv c top fr(1) by (auto simp: frontier_inv_def)
  note spec = advance_published_csn_spec [OF run fr(2) this]
  have lt: "p' < ti_next_csn s"
  proof (cases "p' = ti_published_csn s")
    case True
    then show ?thesis using inv by (simp add: frontier_inv_def)
  next
    case False
    then have "ti_published_csn s < p'" using spec by (simp add: order.not_eq_order_implies_strict)
    then have "p' |\<in>| fr_done fr" using spec by simp
    then show ?thesis using inv c fr(1) by (auto simp: frontier_inv_def)
  qed
  show ?thesis
    using spec lt inv c fr(1) by (auto simp: closes_def frontier_inv_def)
qed

lemma closes_complete:
  assumes "frontier_inv s" and "ti_published_csn s < csn" "csn < ti_next_csn s"
    and "csn |\<notin>| fr_done (ti_frontier s)"
  shows "closes csn s (complete_csn s csn)" and "closes csn s (skip_csn s csn)"
proof -
  let ?fr = "ti_frontier s"
  let ?c = "?fr\<lparr>fr_pending := fr_pending ?fr |-| {|csn|}, fr_completed := finsert csn (fr_completed ?fr)\<rparr>"
  let ?k = "?fr\<lparr>fr_pending := fr_pending ?fr |-| {|csn|}, fr_skipped := finsert csn (fr_skipped ?fr)\<rparr>"
  have d: "fr_completed ?fr |\<inter>| fr_skipped ?fr = {||}" using assms(1) by (simp add: frontier_inv_def)
  have "fr_done ?c = finsert csn (fr_done ?fr)" "fr_completed ?c |\<inter>| fr_skipped ?c = {||}"
    "fr_done ?k = finsert csn (fr_done ?fr)" "fr_completed ?k |\<inter>| fr_skipped ?k = {||}"
    using d assms(4) by (auto simp: fr_done_def)
  note adv = closes_advance [OF assms(1-3) this(1,2)] closes_advance [OF assms(1-3) this(3,4)]
  show "closes csn s (complete_csn s csn)" by (simp add: complete_csn_def Let_def adv(1) split: prod.split)
  show "closes csn s (skip_csn s csn)" by (simp add: skip_csn_def Let_def adv(2) split: prod.split)
qed

section \<open>Preservation\<close>

lemma frontier_inv_cong:
  "ti_published_csn s' = ti_published_csn s \<Longrightarrow> ti_next_csn s' = ti_next_csn s \<Longrightarrow>
   fr_completed (ti_frontier s') = fr_completed (ti_frontier s) \<Longrightarrow>
   fr_skipped (ti_frontier s') = fr_skipped (ti_frontier s) \<Longrightarrow> frontier_inv s' = frontier_inv s"
  by (simp add: frontier_inv_def fr_done_def)

lemma flight_inv_cong:
  assumes "ti_published_csn s' = ti_published_csn s" "ti_next_csn s' = ti_next_csn s"
    "fr_completed (ti_frontier s') = fr_completed (ti_frontier s)"
    "fr_skipped (ti_frontier s') = fr_skipped (ti_frontier s)"
    and "holds q = holds (ph tx)"
  shows "flight_inv (s', ph(tx := q)) = flight_inv (s, ph)"
proof -
  have "holds ((ph(tx := q)) t) = holds (ph t)" for t using assms(5) by simp
  then show ?thesis using assms by (simp only: flight_inv_def case_prod_conv fr_done_def)
qed

lemma flight_invD:
  assumes "flight_inv (s, ph)"
  shows "holds (ph tx) = Some c \<Longrightarrow>
      ti_published_csn s < c \<and> c < ti_next_csn s \<and> c |\<notin>| fr_done (ti_frontier s)"
    and "holds (ph tx) = Some c \<Longrightarrow> holds (ph tx') = Some c \<Longrightarrow> tx = tx'"
    and "ti_published_csn s < c \<Longrightarrow> c < ti_next_csn s \<Longrightarrow>
      c |\<in>| fr_done (ti_frontier s) \<or> (\<exists>tx. holds (ph tx) = Some c)"
  using assms unfolding flight_inv_def case_prod_conv by blast+

lemma flight_invI:
  assumes "\<And>tx c. holds (ph tx) = Some c \<Longrightarrow>
      ti_published_csn s < c \<and> c < ti_next_csn s \<and> c |\<notin>| fr_done (ti_frontier s)"
    and "\<And>tx tx' c. holds (ph tx) = Some c \<Longrightarrow> holds (ph tx') = Some c \<Longrightarrow> tx = tx'"
    and "\<And>c. ti_published_csn s < c \<Longrightarrow> c < ti_next_csn s \<Longrightarrow>
      c |\<in>| fr_done (ti_frontier s) \<or> (\<exists>tx. holds (ph tx) = Some c)"
  shows "flight_inv (s, ph)"
  unfolding flight_inv_def case_prod_conv using assms by blast

lemma closes_flight:
  assumes inv: "flight_inv (s, ph)" and h: "holds (ph tx) = Some csn" "holds q = None" and cl: "closes csn s s'"
  shows "flight_inv (s', ph(tx := q))"
proof -
  have other: "holds ((ph(tx := q)) t) = Some c \<longleftrightarrow> holds (ph t) = Some c \<and> c \<noteq> csn" for t c
  proof (cases "t = tx")
    case False
    then have "holds (ph t) \<noteq> Some csn" using flight_invD(2) [OF inv _ h(1)] by blast
    then show ?thesis using False by auto
  qed (use h in simp)
  note fl = flight_invD(1) [OF inv]
  have "ti_published_csn s' < c \<and> c < ti_next_csn s' \<and> c |\<notin>| fr_done (ti_frontier s')"
    if "holds ((ph(tx := q)) t) = Some c" for t c
  proof -
    have t: "holds (ph t) = Some c" "c \<noteq> csn" using that unfolding other by auto
    have "\<not> c \<le> ti_published_csn s'" "c |\<notin>| fr_done (ti_frontier s')" "ti_next_csn s' = ti_next_csn s"
      using cl fl [OF t(1)] t(2) unfolding closes_def by blast+
    then show ?thesis using fl [OF t(1)] by simp
  qed
  moreover have "t = t'" if "holds ((ph(tx := q)) t) = Some c" "holds ((ph(tx := q)) t') = Some c" for t t' c
  proof -
    have "holds (ph t) = Some c" "holds (ph t') = Some c" using that unfolding other by auto
    then show ?thesis by (rule flight_invD(2) [OF inv])
  qed
  moreover have "c |\<in>| fr_done (ti_frontier s') \<or> (\<exists>t. holds ((ph(tx := q)) t) = Some c)"
    if "ti_published_csn s' < c" "c < ti_next_csn s'" for c
  proof -
    have "ti_published_csn s < c" "c < ti_next_csn s" using that cl by (auto simp: closes_def)
    then have "c |\<in>| fr_done (ti_frontier s) \<or> (\<exists>t. holds (ph t) = Some c)" by (rule flight_invD(3) [OF inv])
    then show ?thesis using that cl unfolding other closes_def by blast
  qed
  ultimately show ?thesis unfolding flight_inv_def case_prod_conv by (intro conjI allI impI; blast)
qed

lemma reserve_flight:
  assumes fi: "frontier_inv s" and inv: "flight_inv (s, ph)" and h: "holds (ph tx) = None"
    and nm: "ti_next_csn s \<noteq> - 1"
  shows "flight_inv (s\<lparr>ti_next_csn := ti_next_csn s + 1\<rparr>, ph(tx := Reserved (ti_next_csn s)))"
proof -
  note w = word_plus_one [OF nm]
  note fl = flight_invD(1) [OF inv]
  let ?ph = "ph(tx := Reserved (ti_next_csn s))"
  have hp: "holds (?ph t) = Some c \<longleftrightarrow> (if t = tx then c = ti_next_csn s else holds (ph t) = Some c)" for t c
    by auto
  have nx: "ti_published_csn s < ti_next_csn s" "ti_next_csn s |\<notin>| fr_done (ti_frontier s)"
    using fi by (auto simp: frontier_inv_def)
  show ?thesis
  proof (rule flight_invI)
    fix t c
    assume "holds (?ph t) = Some c"
    then have "c = ti_next_csn s \<or> holds (ph t) = Some c" unfolding hp by (simp split: if_splits)
    then show "ti_published_csn (s\<lparr>ti_next_csn := ti_next_csn s + 1\<rparr>) < c
      \<and> c < ti_next_csn (s\<lparr>ti_next_csn := ti_next_csn s + 1\<rparr>)
      \<and> c |\<notin>| fr_done (ti_frontier (s\<lparr>ti_next_csn := ti_next_csn s + 1\<rparr>))"
      using nx fl [of t c] by (auto simp: w(2))
  next
    fix t t' c
    assume "holds (?ph t) = Some c" "holds (?ph t') = Some c"
    moreover have "holds (ph u) \<noteq> Some (ti_next_csn s)" for u using fl [of u "ti_next_csn s"] by blast
    ultimately show "t = t'" unfolding hp using flight_invD(2) [OF inv, of t c t'] by (metis (full_types))
  next
    fix c
    assume "ti_published_csn (s\<lparr>ti_next_csn := ti_next_csn s + 1\<rparr>) < c"
      "c < ti_next_csn (s\<lparr>ti_next_csn := ti_next_csn s + 1\<rparr>)"
    then have "ti_published_csn s < c" "c \<le> ti_next_csn s" by (simp_all add: w(2))
    then have "c = ti_next_csn s \<or> c |\<in>| fr_done (ti_frontier s) \<or> (\<exists>t. holds (ph t) = Some c)"
      using flight_invD(3) [OF inv, of c] by (auto simp: order.order_iff_strict)
    then show "c |\<in>| fr_done (ti_frontier (s\<lparr>ti_next_csn := ti_next_csn s + 1\<rparr>)) \<or> (\<exists>t. holds (?ph t) = Some c)"
      using h unfolding hp by (auto intro: exI [of _ tx]) (metis option.distinct(1))
  qed
qed

lemma committed_invD:
  assumes "committed_inv (s, ph)"
  shows "ti_shards s \<noteq> []" and "ti_next_tx s \<le> tx \<Longrightarrow> ph tx = Unborn"
    and "inner_state s tx = Committed c \<Longrightarrow>
      c < ti_next_csn s \<and> (ph tx = StateSet c \<or> ph tx = Completed \<or> ph tx = Closed)"
  using assms unfolding committed_inv_def case_prod_conv by blast+

lemma committed_inv_frame:
  assumes "committed_inv (s, ph)" and "ti_shards s' \<noteq> []" and "ti_next_tx s \<le> ti_next_tx s'"
    and "ti_next_csn s \<le> ti_next_csn s'" and "tx < ti_next_tx s'"
    and "\<And>t. t \<noteq> tx \<Longrightarrow> inner_state s' t = inner_state s t"
    and "\<And>c. inner_state s' tx = Committed c \<Longrightarrow>
      c < ti_next_csn s' \<and> (q = StateSet c \<or> q = Completed \<or> q = Closed)"
  shows "committed_inv (s', ph(tx := q))"
proof -
  have "(ph(tx := q)) t = Unborn" if "ti_next_tx s' \<le> t" for t
    using that assms(3,5) committed_invD(2) [OF assms(1), of t] by auto
  moreover have "c < ti_next_csn s' \<and> ((ph(tx := q)) t = StateSet c \<or> (ph(tx := q)) t = Completed \<or> (ph(tx := q)) t = Closed)"
    if "inner_state s' t = Committed c" for t c
    using that assms(4,6,7) committed_invD(3) [OF assms(1), of t c]
    by (cases "t = tx") (auto intro: order.strict_trans2)
  ultimately show ?thesis unfolding committed_inv_def case_prod_conv using assms(2) by blast
qed

lemma live_tx:
  assumes "committed_inv (s, ph)" and "ph tx \<noteq> Unborn"
  shows "tx < ti_next_tx s"
  using committed_invD(2) [OF assms(1), of tx] assms(2) by (meson linorder_not_le)

lemma not_committed:
  assumes "committed_inv (s, ph)" and "\<forall>c. ph tx \<noteq> StateSet c" and "ph tx \<noteq> Completed" and "ph tx \<noteq> Closed"
  shows "inner_state s tx \<noteq> Committed c"
  using committed_invD(3) [OF assms(1), of tx c] assms by blast

text \<open>A section that leaves the CSN counters alone and moves one transaction.\<close>

lemma sys_inv_local:
  assumes inv: "sys_inv (s, ph)"
    and csn: "ti_published_csn s' = ti_published_csn s" "ti_next_csn s' = ti_next_csn s"
      "fr_completed (ti_frontier s') = fr_completed (ti_frontier s)"
      "fr_skipped (ti_frontier s') = fr_skipped (ti_frontier s)"
    and tx: "ti_next_tx s \<le> ti_next_tx s'" "tx < ti_next_tx s'" "holds q = holds (ph tx)"
    and st: "ti_shards s' \<noteq> []" "\<And>t. t \<noteq> tx \<Longrightarrow> inner_state s' t = inner_state s t"
      "\<And>c. inner_state s' tx = Committed c \<Longrightarrow>
        c < ti_next_csn s \<and> (q = StateSet c \<or> q = Completed \<or> q = Closed)"
  shows "sys_inv (s', ph(tx := q))"
  using inv frontier_inv_cong [OF csn] flight_inv_cong [where ph = ph and tx = tx, OF csn tx(3)]
    committed_inv_frame [of s ph s' tx q, OF _ st(1) tx(1) _ tx(2) st(2)] st(3) csn(2)
  by (simp add: sys_inv_def)

lemma sys_inv_set_state:
  assumes inv: "sys_inv (s, ph)" and tx: "ph tx \<noteq> Unborn" "holds q = holds (ph tx)"
    and q: "\<And>c. st = Committed c \<Longrightarrow> c < ti_next_csn s \<and> q = StateSet c"
  shows "sys_inv (inner_set_state s tx st, ph(tx := q))"
proof -
  have c: "committed_inv (s, ph)" using inv by (simp add: sys_inv_def)
  note v = committed_invD(1) [OF c]
  show ?thesis
    using live_tx [OF c tx(1)] tx(2) q
    by (intro sys_inv_local [OF inv]) (auto simp: shards.state_set [OF v] shards.set_valid [OF v])
qed

lemma sys_inv_quiet:
  assumes inv: "sys_inv (s, ph)" and tx: "ph tx \<noteq> Unborn"
    and same: "ti_published_csn s' = ti_published_csn s" "ti_next_csn s' = ti_next_csn s"
      "ti_next_tx s' = ti_next_tx s" "ti_shards s' = ti_shards s" "inner_state s' = inner_state s"
      "fr_completed (ti_frontier s') = fr_completed (ti_frontier s)"
      "fr_skipped (ti_frontier s') = fr_skipped (ti_frontier s)"
    and q: "holds q = holds (ph tx)"
      "q = Closed \<or> (\<forall>c. ph tx \<noteq> StateSet c) \<and> ph tx \<noteq> Completed \<and> ph tx \<noteq> Closed"
  shows "sys_inv (s', ph(tx := q))"
proof -
  have c: "committed_inv (s, ph)" using inv by (simp add: sys_inv_def)
  have "c' < ti_next_csn s \<and> (q = StateSet c' \<or> q = Completed \<or> q = Closed)" if "inner_state s' tx = Committed c'" for c'
  proof -
    have st: "inner_state s tx = Committed c'" using that same(5) by simp
    then have "q = Closed" using q(2) not_committed [OF c, of tx] by blast
    then show ?thesis using committed_invD(3) [OF c st] by blast
  qed
  then show ?thesis
    using live_tx [OF c tx] committed_invD(1) [OF c] q(1) same
    by (intro sys_inv_local [OF inv]) simp_all
qed

text \<open>Completing or skipping the CSN a transaction holds.\<close>

lemma sys_inv_closes:
  assumes inv: "sys_inv (s, ph)" and h: "holds (ph tx) = Some csn" "holds q = None"
    and q: "q = Completed \<or> (\<forall>c. inner_state s tx \<noteq> Committed c)"
    and s': "s' = complete_csn s csn \<or> s' = skip_csn s csn"
  shows "sys_inv (s', ph(tx := q))"
proof -
  have i: "frontier_inv s" "flight_inv (s, ph)" "committed_inv (s, ph)" using inv by (simp_all add: sys_inv_def)
  have "ti_published_csn s < csn" "csn < ti_next_csn s" "csn |\<notin>| fr_done (ti_frontier s)"
    using flight_invD(1) [OF i(2) h(1)] by simp_all
  with i(1) s' have cl: "closes csn s s'" using closes_complete by blast
  have "ph tx \<noteq> Unborn" using h(1) by auto
  then have "committed_inv (s', ph(tx := q))"
    using cl q live_tx [OF i(3), of tx] committed_invD(1,3) [OF i(3)]
    by (intro committed_inv_frame [OF i(3)]) (auto simp: closes_def)
  then show ?thesis using closes_flight [OF i(2) h cl] cl by (simp add: sys_inv_def closes_def)
qed

lemma sys_step_inv:
  assumes "sys_step \<sigma> \<sigma>'" and "sys_inv \<sigma>"
  shows "sys_inv \<sigma>'"
  using assms
proof (induction rule: sys_step.induct)
  case (begin_fetch s tx s' ph)
  have c: "committed_inv (s, ph)" using begin_fetch by (simp add: sys_inv_def)
  have s': "tx = ti_next_tx s" "s' = s\<lparr>ti_next_tx := ti_next_tx s + 1\<rparr>" using begin_fetch by (auto simp: section_defs)
  then have "ph tx = Unborn" using committed_invD(2) [OF c] by simp
  then show ?case
    using not_committed [OF c, of tx] word_plus_one(4) [OF begin_fetch(1)] committed_invD(1) [OF c] s'
    by (intro sys_inv_local [OF begin_fetch(3)]) auto
next
  case (reserve_fetch ph tx s csn s')
  have i: "frontier_inv s" "flight_inv (s, ph)" "committed_inv (s, ph)" using reserve_fetch by (simp_all add: sys_inv_def)
  have s': "csn = ti_next_csn s" "s' = s\<lparr>ti_next_csn := ti_next_csn s + 1\<rparr>"
    using reserve_fetch by (auto simp: section_defs)
  note w = word_plus_one [OF reserve_fetch(2)]
  have "committed_inv (s', ph(tx := Reserved csn))"
    using reserve_fetch(1) w(4) live_tx [OF i(3), of tx] committed_invD(1) [OF i(3)] not_committed [OF i(3), of tx]
    by (intro committed_inv_frame [OF i(3)]) (auto simp: s')
  moreover have "frontier_inv s'" using i(1) w by (auto simp: frontier_inv_def s' less_imp_le)
  moreover have "flight_inv (s', ph(tx := Reserved csn))"
    using reserve_flight [OF i(1,2) _ reserve_fetch(2), of tx] reserve_fetch(1) s' by simp
  ultimately show ?case by (simp add: sys_inv_def)
next
  case (take_snapshot ph tx csn s)
  then show ?case
    using sys_inv_quiet [of s ph tx "set_active_snapshot s tx csn" Live] fun_upd_idem [of ph tx Live]
    by (simp add: section_defs)
next
  case (publish_complete ph tx csn s)
  then show ?case using sys_inv_closes [of s ph tx csn Completed "complete_csn s csn"] by simp
next
  case (cancel ph tx csn s)
  then have "committed_inv (s, ph)" by (simp add: sys_inv_def)
  with cancel show ?case
    using not_committed [of s ph tx] sys_inv_closes [of s ph tx csn Aborting "skip_csn s csn"]
    by (simp add: cancel_reserved_csn_def)
next
  case (begin_state ph tx s)
  then show ?case by (intro sys_inv_set_state) simp_all
next
  case (publish_state ph tx csn s)
  then have "csn < ti_next_csn s" using flight_invD(1) [of s ph tx csn] by (simp add: sys_inv_def)
  with publish_state show ?case by (intro sys_inv_set_state) simp_all
next
  case (abort_state ph tx s)
  then have "holds (ph tx) = None" "ph tx \<noteq> Unborn" by auto
  with abort_state show ?case by (intro sys_inv_set_state) simp_all
next
  case (reserve_pending ph tx csn s)
  then show ?case using sys_inv_quiet [of s ph tx "insert_pending s csn" "Pending csn"] by (simp add: section_defs)
next
  case (publish_unregister ph tx s)
  then show ?case using sys_inv_quiet [of s ph tx "unregister_active s tx" Closed] by (simp add: section_defs)
next
  case (abort_unregister ph tx s)
  then show ?case using sys_inv_quiet [of s ph tx "unregister_active s tx" Dead] by (simp add: section_defs)
qed

section \<open>Stability of snapshots\<close>

lemma sys_init_inv: "sys_inv (sys_init n)"
proof -
  have "inner_state (with_shards n) tx = Aborted" for tx
    by (simp add: inner_state_def with_shards_def shard_index_def)
  then show ?thesis
    by (auto simp: sys_inv_def sys_init_def frontier_inv_def flight_inv_def committed_inv_def with_shards_def
        fr_done_def word_less_nat_alt)
qed

lemma sys_steps_inv: "sys_step\<^sup>*\<^sup>* \<sigma> \<sigma>' \<Longrightarrow> sys_inv \<sigma> \<Longrightarrow> sys_inv \<sigma>'"
  by (induction rule: rtranclp_induct) (auto intro: sys_step_inv)

text \<open>The transactions a snapshot with visible CSN \<open>v\<close> shows.\<close>

definition visible_at :: "csn \<Rightarrow> tx_status_inner \<Rightarrow> tx_id \<Rightarrow> bool" where
  "visible_at v s tx = (case inner_state s tx of Committed c \<Rightarrow> c \<le> v | _ \<Rightarrow> False)"

lemma snapshot_shows:
  "concurrent_is_tx_visible s' tx (concurrent_snapshot s) owner \<longleftrightarrow>
     Some tx = owner \<or> visible_at (ti_published_csn s) s' tx"
  by (cases "inner_state s' tx") (simp_all add: concurrent_is_tx_visible_def concurrent_snapshot_def visible_at_def)

lemma closes_frame:
  assumes "sys_inv (s, ph)" and "holds (ph tx) = Some csn"
  shows "inner_state (complete_csn s csn) = inner_state s \<and> ti_published_csn s \<le> ti_published_csn (complete_csn s csn)"
    and "inner_state (skip_csn s csn) = inner_state s \<and> ti_published_csn s \<le> ti_published_csn (skip_csn s csn)"
proof -
  have "frontier_inv s" "flight_inv (s, ph)" using assms(1) by (simp_all add: sys_inv_def)
  with flight_invD(1) [OF this(2) assms(2)] show
    "inner_state (complete_csn s csn) = inner_state s \<and> ti_published_csn s \<le> ti_published_csn (complete_csn s csn)"
    "inner_state (skip_csn s csn) = inner_state s \<and> ti_published_csn s \<le> ti_published_csn (skip_csn s csn)"
    using closes_complete [of s csn] by (simp_all add: closes_def)
qed

lemma visible_at_set_state:
  assumes inv: "sys_inv (s, ph)" and v: "v \<le> ti_published_csn s"
    and old: "\<And>c. inner_state s tx \<noteq> Committed c" and new: "\<And>c. st = Committed c \<Longrightarrow> ti_published_csn s < c"
  shows "visible_at v (inner_set_state s tx st) = visible_at v s"
proof -
  have ne: "ti_shards s \<noteq> []" using inv committed_invD(1) by (auto simp: sys_inv_def)
  have "\<not> visible_at v s tx" using old by (simp add: visible_at_def split: tx_state.split)
  moreover have "\<not> visible_at v (inner_set_state s tx st) tx"
    using new v by (cases st) (auto simp: visible_at_def shards.state_set [OF ne] dest: order.strict_trans2)
  ultimately show ?thesis
    by (intro ext) (auto simp: visible_at_def shards.state_set [OF ne])
qed

lemma sys_step_visible:
  assumes "sys_step \<sigma> \<sigma>'" and "sys_inv \<sigma>" and "v \<le> ti_published_csn (fst \<sigma>)"
  shows "visible_at v (fst \<sigma>') = visible_at v (fst \<sigma>) \<and> ti_published_csn (fst \<sigma>) \<le> ti_published_csn (fst \<sigma>')"
  using assms
proof (induction rule: sys_step.induct)
  case (publish_state ph tx csn s)
  then have "ti_published_csn s < csn" "\<And>c. inner_state s tx \<noteq> Committed c"
    using flight_invD(1) [of s ph tx csn] not_committed [of s ph tx] by (simp_all add: sys_inv_def)
  with publish_state show ?case using visible_at_set_state [of s ph v tx "Committed csn"] by simp
next
  case (begin_state ph tx s)
  then have "\<And>c. inner_state s tx \<noteq> Committed c" using not_committed [of s ph tx] by (simp add: sys_inv_def)
  with begin_state show ?case using visible_at_set_state [of s ph v tx InProgress] by simp
next
  case (abort_state ph tx s)
  then have "\<And>c. inner_state s tx \<noteq> Committed c"
    by (intro not_committed [of s ph]) (auto simp: sys_inv_def)
  with abort_state show ?case using visible_at_set_state [of s ph v tx Aborted] by simp
next
  case (publish_complete ph tx csn s)
  then show ?case using closes_frame(1) [of s ph tx csn] by (simp add: visible_at_def fun_eq_iff)
next
  case (cancel ph tx csn s)
  then show ?case using closes_frame(2) [of s ph tx csn]
    by (simp add: cancel_reserved_csn_def visible_at_def fun_eq_iff)
qed (auto simp: visible_at_def fun_eq_iff section_defs)

lemma sys_steps_visible:
  assumes "sys_step\<^sup>*\<^sup>* \<sigma> \<sigma>'" and "sys_inv \<sigma>" and "v \<le> ti_published_csn (fst \<sigma>)"
  shows "visible_at v (fst \<sigma>') = visible_at v (fst \<sigma>) \<and> ti_published_csn (fst \<sigma>) \<le> ti_published_csn (fst \<sigma>')"
  using assms
proof (induction rule: rtranclp_induct)
  case (step \<tau> \<tau>')
  then have "sys_inv \<tau>" using sys_steps_inv by blast
  with step show ?case using sys_step_visible [of \<tau> \<tau>' v] by (auto intro: order_trans)
qed simp

section \<open>The operations as paths of steps\<close>

lemma begin_path:
  assumes "ti_next_tx s \<noteq> - 1" and "concurrent_begin s = (tx, s')"
  shows "sys_step\<^sup>*\<^sup>* (s, ph) (s', ph(tx := Live))"
proof -
  obtain s1 where s1: "fetch_add_next_tx s = (tx, s1)" "s' = inner_set_state s1 tx InProgress"
    using assms(2) by (auto simp: concurrent_begin_def split: prod.splits)
  have "sys_step (s, ph) (s1, ph(tx := Born))" using assms(1) s1(1) by (rule sys_step.begin_fetch)
  moreover have "sys_step (s1, ph(tx := Born)) (s', ph(tx := Live))"
    using sys_step.begin_state [of "ph(tx := Born)" tx s1] s1(2) by simp
  ultimately show ?thesis by (meson r_into_rtranclp rtranclp.rtrancl_into_rtrancl)
qed

lemma reserve_path:
  assumes "ph tx = Live" and "ti_next_csn s \<noteq> - 1" and "reserve_commit_csn s = (csn, s')"
  shows "sys_step\<^sup>*\<^sup>* (s, ph) (s', ph(tx := Pending csn))"
proof -
  obtain s1 where s1: "fetch_add_next_csn s = (csn, s1)" "s' = insert_pending s1 csn"
    using assms(3) by (auto simp: reserve_commit_csn_def split: prod.splits)
  have "sys_step (s, ph) (s1, ph(tx := Reserved csn))" using assms(1,2) s1(1) by (rule sys_step.reserve_fetch)
  moreover have "sys_step (s1, ph(tx := Reserved csn)) (s', ph(tx := Pending csn))"
    using sys_step.reserve_pending [of "ph(tx := Reserved csn)" tx csn s1] s1(2) by simp
  ultimately show ?thesis by (meson r_into_rtranclp rtranclp.rtrancl_into_rtrancl)
qed

lemma publish_path:
  assumes "ph tx = Pending csn"
  shows "sys_step\<^sup>*\<^sup>* (s, ph) (publish_commit s tx csn, ph(tx := Closed))"
proof -
  let ?s1 = "inner_set_state s tx (Committed csn)"
  let ?s2 = "complete_csn ?s1 csn"
  have "sys_step (s, ph) (?s1, ph(tx := StateSet csn))" using assms by (rule sys_step.publish_state)
  moreover have "sys_step (?s1, ph(tx := StateSet csn)) (?s2, ph(tx := Completed))"
    using sys_step.publish_complete [of "ph(tx := StateSet csn)" tx csn ?s1] by simp
  moreover have "sys_step (?s2, ph(tx := Completed)) (publish_commit s tx csn, ph(tx := Closed))"
    using sys_step.publish_unregister [of "ph(tx := Completed)" tx ?s2] by (simp add: publish_commit_def)
  ultimately show ?thesis by (meson r_into_rtranclp rtranclp.rtrancl_into_rtrancl)
qed

lemma abort_path:
  assumes "ph tx = Live"
  shows "sys_step\<^sup>*\<^sup>* (s, ph) (concurrent_abort s tx, ph(tx := Dead))"
proof -
  let ?s1 = "inner_set_state s tx Aborted"
  have "sys_step (s, ph) (?s1, ph(tx := Dying))" using assms by (intro sys_step.abort_state) simp
  moreover have "sys_step (?s1, ph(tx := Dying)) (concurrent_abort s tx, ph(tx := Dead))"
    using sys_step.abort_unregister [of "ph(tx := Dying)" tx ?s1] by (simp add: concurrent_abort_def)
  ultimately show ?thesis by (meson r_into_rtranclp rtranclp.rtrancl_into_rtrancl)
qed

text \<open>
  A concrete interleaving: two transactions begin and reserve sequence numbers 1 and 2; the
  second publishes first, then the first.
\<close>

definition two_reserved :: tx_status_inner where
  "two_reserved =
     snd (reserve_commit_csn (snd (reserve_commit_csn (snd (concurrent_begin (snd (concurrent_begin (with_shards 1))))))))"

definition second_published :: tx_status_inner where
  "second_published = publish_commit two_reserved 2 2"

definition both_published :: tx_status_inner where
  "both_published = publish_commit second_published 1 1"

lemma two_reserved_eq:
  "two_reserved = \<lparr>ti_shards = [[(1, InProgress), (2, InProgress)]], ti_active_snapshots = [],
     ti_next_tx = 3, ti_next_csn = 3, ti_published_csn = 0,
     ti_frontier = \<lparr>fr_pending = {|2, 1|}, fr_completed = {||}, fr_skipped = {||}\<rparr>\<rparr>"
  by (simp add: two_reserved_def with_shards_def concurrent_begin_def reserve_commit_csn_def section_defs
      inner_set_state_def shard_index_def)

lemma second_published_eq:
  "second_published = \<lparr>ti_shards = [[(1, InProgress), (2, Committed 2)]], ti_active_snapshots = [],
     ti_next_tx = 3, ti_next_csn = 3, ti_published_csn = 0,
     ti_frontier = \<lparr>fr_pending = {|1|}, fr_completed = {|2|}, fr_skipped = {||}\<rparr>\<rparr>"
  by (simp add: second_published_def two_reserved_eq publish_commit_def complete_csn_def section_defs
      inner_set_state_def shard_index_def advance_published_csn.simps saturating_add_word_def)

lemma both_published_eq:
  "both_published = \<lparr>ti_shards = [[(1, Committed 1), (2, Committed 2)]], ti_active_snapshots = [],
     ti_next_tx = 3, ti_next_csn = 3, ti_published_csn = 2,
     ti_frontier = \<lparr>fr_pending = {||}, fr_completed = {||}, fr_skipped = {||}\<rparr>\<rparr>"
  by (simp add: both_published_def second_published_eq publish_commit_def complete_csn_def section_defs
      inner_set_state_def shard_index_def advance_published_csn.simps saturating_add_word_def)

section \<open>Properties\<close>

text \<open>
  C9. Snapshot stability under concurrency: in every interleaving of begins, commits, cancelled
  commits and aborts, a snapshot taken at some moment shows the same transactions at every later
  moment, although commits with smaller and larger sequence numbers are still running.
\<close>

theorem concurrent_snapshot_stable:
  assumes "sys_step\<^sup>*\<^sup>* (sys_init n) (s, ph)" and "sys_step\<^sup>*\<^sup>* (s, ph) (s', ph')"
  shows "concurrent_is_tx_visible s' tx (concurrent_snapshot s) owner
    = concurrent_is_tx_visible s tx (concurrent_snapshot s) owner"
proof -
  have inv: "sys_inv (s, ph)" using sys_steps_inv [OF assms(1) sys_init_inv] .
  have "visible_at (ti_published_csn s) s' = visible_at (ti_published_csn s) s"
    using sys_steps_visible [OF assms(2) inv, of "ti_published_csn s"] by simp
  then show ?thesis by (simp add: snapshot_shows)
qed

text \<open>
  C21. The frontier closes: whenever no commit is between reserving and completing its sequence
  number, every sequence number handed out is published, so a fresh snapshot shows every
  committed transaction.
\<close>

theorem frontier_quiescent:
  assumes "sys_step\<^sup>*\<^sup>* (sys_init n) (s, ph)" and "\<forall>tx. holds (ph tx) = None"
  shows "ti_published_csn s + 1 = ti_next_csn s \<and>
    (\<forall>tx. concurrent_is_tx_visible s tx (concurrent_snapshot s) None \<longleftrightarrow> (\<exists>csn. inner_state s tx = Committed csn))"
proof -
  have inv: "sys_inv (s, ph)" using sys_steps_inv [OF assms(1) sys_init_inv] .
  then have i: "frontier_inv s" "flight_inv (s, ph)" "committed_inv (s, ph)" by (simp_all add: sys_inv_def)
  have lt: "ti_published_csn s < ti_next_csn s" "ti_published_csn s + 1 |\<notin>| fr_done (ti_frontier s)"
    using i(1) by (simp_all add: frontier_inv_def)
  then have "ti_published_csn s \<noteq> - 1" by (metis max_word_max linorder_not_le)
  note w = word_plus_one [OF this]
  have "\<not> ti_published_csn s + 1 < ti_next_csn s"
    using flight_invD(3) [OF i(2) w(4)] lt(2) assms(2) by auto
  then have eq: "ti_published_csn s + 1 = ti_next_csn s" using lt(1) w(3) by (meson order.not_eq_order_implies_strict)
  moreover have "csn \<le> ti_published_csn s" if "inner_state s tx = Committed csn" for tx csn
    using committed_invD(3) [OF i(3) that] eq w(2) by metis
  ultimately show ?thesis
    by (auto simp: concurrent_is_tx_visible_def concurrent_snapshot_def split: tx_state.splits)
qed

lemma two_reserved_reached: "sys_step\<^sup>*\<^sup>* (sys_init 1) (two_reserved, (\<lambda>_. Unborn)(1 := Pending 1, 2 := Pending 2))"
proof -
  let ?p0 = "\<lambda>_ :: tx_id. Unborn" and ?f = "\<lparr>fr_pending = {||}, fr_completed = {||}, fr_skipped = {||}\<rparr>"
  let ?p1 = "?p0(1 := Live)" and ?p2 = "?p0(1 := Live, 2 := Live)"
  define s1 where "s1 = \<lparr>ti_shards = [[(1, InProgress)]], ti_active_snapshots = [], ti_next_tx = 2,
    ti_next_csn = 1, ti_published_csn = 0, ti_frontier = ?f\<rparr>"
  define s2 where "s2 = \<lparr>ti_shards = [[(1, InProgress), (2, InProgress)]], ti_active_snapshots = [], ti_next_tx = 3,
    ti_next_csn = 1, ti_published_csn = 0, ti_frontier = ?f\<rparr>"
  define s3 where "s3 = s2\<lparr>ti_next_csn := 2, ti_frontier := ?f\<lparr>fr_pending := {|1|}\<rparr>\<rparr>"
  note ev = concurrent_begin_def reserve_commit_csn_def section_defs inner_set_state_def shard_index_def
  have b: "concurrent_begin (with_shards 1) = (1, s1)" "concurrent_begin s1 = (2, s2)"
    by (simp_all add: ev with_shards_def s1_def s2_def)
  have r: "reserve_commit_csn s2 = (1, s3)" "reserve_commit_csn s3 = (2, two_reserved)"
    by (simp_all add: ev s2_def s3_def two_reserved_eq)
  have t1: "sys_step\<^sup>*\<^sup>* (sys_init 1) (s1, ?p1)"
    unfolding sys_init_def by (rule begin_path [OF _ b(1)]) (simp add: with_shards_def)
  have t2: "sys_step\<^sup>*\<^sup>* (s1, ?p1) (s2, ?p2)" by (rule begin_path [OF _ b(2)]) (simp add: s1_def)
  have t3: "sys_step\<^sup>*\<^sup>* (s2, ?p2) (s3, ?p2(1 := Pending 1))"
    by (rule reserve_path [OF _ _ r(1)]) (simp_all add: s2_def)
  have t4: "sys_step\<^sup>*\<^sup>* (s3, ?p2(1 := Pending 1)) (two_reserved, ?p2(1 := Pending 1, 2 := Pending 2))"
    by (rule reserve_path [OF _ _ r(2)]) (simp_all add: s3_def s2_def)
  have "?p2(1 := Pending 1, 2 := Pending 2) = ?p0(1 := Pending 1, 2 := Pending 2)"
    by (rule ext, unfold fun_upd_def) simp
  then show ?thesis
    using rtranclp_trans [OF rtranclp_trans [OF rtranclp_trans [OF t1 t2] t3] t4] by (simp only:)
qed

lemma second_published_reached:
  "sys_step\<^sup>*\<^sup>* (sys_init 1) (second_published, (\<lambda>_. Unborn)(1 := Pending 1, 2 := Closed))"
proof -
  let ?ph = "(\<lambda>_. Unborn)(1 := Pending 1, 2 := Pending 2)"
  have "sys_step\<^sup>*\<^sup>* (two_reserved, ?ph) (second_published, ?ph(2 := Closed))"
    unfolding second_published_def by (rule publish_path) simp
  from rtranclp_trans [OF two_reserved_reached this] show ?thesis by simp
qed

lemma both_published_reached:
  "sys_step\<^sup>*\<^sup>* (second_published, (\<lambda>_. Unborn)(1 := Pending 1, 2 := Closed))
     (both_published, (\<lambda>_. Unborn)(1 := Pending 1, 2 := Closed, 1 := Closed))"
  unfolding both_published_def by (rule publish_path) simp

theorem concurrent_snapshot_stable_witness:
  "\<not> concurrent_is_tx_visible both_published 2 (concurrent_snapshot second_published) None
   \<and> concurrent_is_tx_visible both_published 2 (concurrent_snapshot both_published) None"
proof -
  have "concurrent_is_tx_visible both_published 2 (concurrent_snapshot second_published) None
      = concurrent_is_tx_visible second_published 2 (concurrent_snapshot second_published) None"
    using second_published_reached both_published_reached by (rule concurrent_snapshot_stable)
  then show ?thesis
    by (simp add: snapshot_shows visible_at_def inner_state_def shard_index_def second_published_eq both_published_eq)
qed

theorem frontier_quiescent_witness: "ti_published_csn both_published + 1 = ti_next_csn both_published"
proof -
  have "sys_step\<^sup>*\<^sup>* (sys_init 1) (both_published, (\<lambda>_. Unborn)(1 := Pending 1, 2 := Closed, 1 := Closed))"
    using second_published_reached both_published_reached by (rule rtranclp_trans)
  from frontier_quiescent [OF this] show ?thesis by simp
qed

text \<open>
  C29. A commit can return before it is visible: there is an interleaving in which a transaction
  has run \<^verbatim>\<open>publish_commit\<close> to its end, and a snapshot taken afterwards, such as that of the
  next transaction of the same session, does not show it, because a smaller sequence number is
  still in flight.
\<close>

theorem commit_returns_before_visible:
  "\<exists>s ph tx csn. sys_step\<^sup>*\<^sup>* (sys_init 1) (s, ph) \<and> ph tx = Closed \<and> inner_state s tx = Committed csn
     \<and> \<not> concurrent_is_tx_visible s tx (concurrent_snapshot s) None"
proof -
  have "inner_state second_published 2 = Committed 2" "\<not> concurrent_is_tx_visible second_published 2 (concurrent_snapshot second_published) None"
    by (simp_all add: snapshot_shows visible_at_def inner_state_def shard_index_def second_published_eq)
  then show ?thesis using second_published_reached
    by (intro exI [of _ second_published] exI [of _ "(\<lambda>_. Unborn)(1 := Pending 1, 2 := Closed)"] exI [of _ 2] exI conjI)
      simp_all
qed

end
