(* ===== verification/Wal_Record.thy ===== *)
theory Wal_Record
  imports Format_Tuple
begin

text \<open>
  \<^verbatim>\<open>crates/kernel/src/wal/record.rs\<close>: one framed record of the write-ahead log. The frame
  carries the record's own position, the position of its predecessor and a checksum of every
  other byte. The codec interface is interpreted, and the decoder is shown to accept a buffer
  only when the stored checksum is the checksum of the frame.
\<close>

section \<open>Record kinds\<close>

definition WAL_MAGIC :: u32 where "WAL_MAGIC = 0x5244574c"
definition WAL_FORMAT_VERSION :: u16 where "WAL_FORMAT_VERSION = 1"

abbreviation WAL_HEADER_LEN :: nat where "WAL_HEADER_LEN \<equiv> 48"
abbreviation WAL_CRC_OFFSET :: nat where "WAL_CRC_OFFSET \<equiv> 8"

datatype wal_record_kind =
    Kind_Begin | Kind_PageImage | Kind_PageDelta | Kind_UndoAppend | Kind_Commit | Kind_Abort
  | Kind_CheckpointBegin | Kind_CheckpointEnd | Kind_SegmentSeal | Kind_BackupBegin
  | Kind_BackupEnd | Kind_TimelineFork | Kind_Logical

fun wal_kind_as_u16 :: "wal_record_kind \<Rightarrow> u16" where
  "wal_kind_as_u16 Kind_Begin = 1"
| "wal_kind_as_u16 Kind_PageImage = 2"
| "wal_kind_as_u16 Kind_PageDelta = 3"
| "wal_kind_as_u16 Kind_UndoAppend = 4"
| "wal_kind_as_u16 Kind_Commit = 5"
| "wal_kind_as_u16 Kind_Abort = 6"
| "wal_kind_as_u16 Kind_CheckpointBegin = 7"
| "wal_kind_as_u16 Kind_CheckpointEnd = 8"
| "wal_kind_as_u16 Kind_SegmentSeal = 9"
| "wal_kind_as_u16 Kind_BackupBegin = 10"
| "wal_kind_as_u16 Kind_BackupEnd = 11"
| "wal_kind_as_u16 Kind_TimelineFork = 12"
| "wal_kind_as_u16 Kind_Logical = 13"

definition wal_kind_from_u16 :: "u16 \<Rightarrow> wal_record_kind result" where
  "wal_kind_from_u16 v =
     (if v = 1 then Ok Kind_Begin
      else if v = 2 then Ok Kind_PageImage
      else if v = 3 then Ok Kind_PageDelta
      else if v = 4 then Ok Kind_UndoAppend
      else if v = 5 then Ok Kind_Commit
      else if v = 6 then Ok Kind_Abort
      else if v = 7 then Ok Kind_CheckpointBegin
      else if v = 8 then Ok Kind_CheckpointEnd
      else if v = 9 then Ok Kind_SegmentSeal
      else if v = 10 then Ok Kind_BackupBegin
      else if v = 11 then Ok Kind_BackupEnd
      else if v = 12 then Ok Kind_TimelineFork
      else if v = 13 then Ok Kind_Logical
      else Err (CorruptWal ''unknown record kind''))"

section \<open>Records\<close>

record wal_record =
  wr_lsn :: lsn
  wr_prev_lsn :: lsn
  wr_tx_id :: tx_id
  wr_kind :: wal_record_kind
  wr_payload :: "byte list"

definition wal_encoded_len :: "wal_record \<Rightarrow> nat" where
  "wal_encoded_len r = WAL_HEADER_LEN + length (wr_payload r)"

definition checksum_wal_bytes :: "crc_fn \<Rightarrow> byte list \<Rightarrow> u32 result" where
  "checksum_wal_bytes crc bytes =
     rbind (slice_range bytes 0 WAL_CRC_OFFSET) (\<lambda>front.
     rbind (slice_range bytes (WAL_CRC_OFFSET + 4) (length bytes)) (\<lambda>back.
     Ok (crc (front @ [0, 0, 0, 0] @ back))))"

definition wal_encode :: "crc_fn \<Rightarrow> wal_record \<Rightarrow> byte list result" where
  "wal_encode crc r =
     (if length (wr_payload r) > 4294967295 then Err (CorruptWal ''payload too large'') else
      rbind (write_u32 (replicate (wal_encoded_len r) 0) 0 WAL_MAGIC) (\<lambda>out.
      rbind (write_u16 out 4 WAL_FORMAT_VERSION) (\<lambda>out.
      rbind (write_u16 out 6 (wal_kind_as_u16 (wr_kind r))) (\<lambda>out.
      rbind (write_u32 out WAL_CRC_OFFSET 0) (\<lambda>out.
      rbind (write_u32 out 12 (word_of_nat (length (wr_payload r)))) (\<lambda>out.
      rbind (write_u64 out 16 (wr_lsn r)) (\<lambda>out.
      rbind (write_u64 out 24 (wr_prev_lsn r)) (\<lambda>out.
      rbind (write_u64 out 32 (wr_tx_id r)) (\<lambda>out.
      rbind (write_u64 out 40 0) (\<lambda>out.
      rbind (write_bytes out WAL_HEADER_LEN (wr_payload r)) (\<lambda>out.
      rbind (checksum_wal_bytes crc out) (\<lambda>c.
      write_u32 out WAL_CRC_OFFSET c))))))))))))"

definition wal_decode :: "crc_fn \<Rightarrow> byte list \<Rightarrow> wal_record result" where
  "wal_decode crc bytes =
     (if length bytes < WAL_HEADER_LEN then Err (BufferTooSmall WAL_HEADER_LEN (length bytes)) else
      rbind (read_u32 bytes 0) (\<lambda>magic.
      if magic \<noteq> WAL_MAGIC then Err (InvalidMagic WAL_MAGIC magic) else
      rbind (read_u16 bytes 4) (\<lambda>version.
      if version \<noteq> WAL_FORMAT_VERSION then Err (UnsupportedVersion version) else
      rbind (read_u32 bytes 12) (\<lambda>raw_len.
      rbind (ok_or (CorruptWal ''record length overflow'')
               (checked_add_usize WAL_HEADER_LEN (unat raw_len))) (\<lambda>record_len.
      if length bytes < record_len then Err (BufferTooSmall record_len (length bytes)) else
      rbind (read_u32 bytes WAL_CRC_OFFSET) (\<lambda>stored.
      rbind (rbind (slice_range bytes 0 record_len) (checksum_wal_bytes crc)) (\<lambda>actual.
      if stored \<noteq> actual then Err InvalidChecksum else
      rbind (read_u64 bytes 16) (\<lambda>lsn.
      rbind (read_u64 bytes 24) (\<lambda>prev_lsn.
      rbind (read_u64 bytes 32) (\<lambda>tx_id.
      rbind (read_u16 bytes 6) (\<lambda>raw_kind.
      rbind (wal_kind_from_u16 raw_kind) (\<lambda>kind.
      rbind (slice_range bytes WAL_HEADER_LEN record_len) (\<lambda>payload.
      Ok \<lparr>wr_lsn = lsn, wr_prev_lsn = prev_lsn, wr_tx_id = tx_id, wr_kind = kind,
          wr_payload = payload\<rparr>)))))))))))))"

section \<open>The byte image of a record\<close>

definition wal_header_image :: "u32 \<Rightarrow> wal_record \<Rightarrow> byte list" where
  "wal_header_image c r =
     to_le_bytes WAL_MAGIC @ to_le_bytes WAL_FORMAT_VERSION @ to_le_bytes (wal_kind_as_u16 (wr_kind r)) @
     to_le_bytes c @ to_le_bytes (word_of_nat (length (wr_payload r)) :: u32) @
     to_le_bytes (wr_lsn r) @ to_le_bytes (wr_prev_lsn r) @ to_le_bytes (wr_tx_id r) @
     to_le_bytes (0 :: u64)"

definition wal_image :: "crc_fn \<Rightarrow> wal_record \<Rightarrow> byte list" where
  "wal_image crc r = wal_header_image (crc (wal_header_image 0 r @ wr_payload r)) r @ wr_payload r"

lemma length_wal_header_image [simp]: "length (wal_header_image c r) = 48"
  by (simp add: wal_header_image_def)

lemma length_wal_image [simp]: "length (wal_image crc r) = wal_encoded_len r"
  by (simp add: wal_image_def wal_encoded_len_def)

lemma wal_kind_roundtrip [simp]: "wal_kind_from_u16 (wal_kind_as_u16 k) = Ok k"
  by (cases k) (simp_all add: wal_kind_from_u16_def)

lemma to_le_zero_u32: "to_le_bytes (0 :: u32) = [0, 0, 0, 0]"
  by code_simp

lemma wal_header_image_zeroed:
  "take 8 (wal_header_image c r) @ [0, 0, 0, 0] @ drop 12 (wal_header_image c r) = wal_header_image 0 r"
  by (simp add: wal_header_image_def to_le_zero_u32)

lemma checksum_wal_image:
  "checksum_wal_bytes crc (wal_header_image c r @ body) = Ok (crc (wal_header_image 0 r @ body))"
  using arg_cong [OF wal_header_image_zeroed [of c r], of "\<lambda>h. crc (h @ body)"]
  by (simp add: checksum_wal_bytes_def slice_range_def bslice_def)

lemma wal_header_image_checksum:
  "overwrite (wal_header_image c r @ body) 8 (to_le_bytes (c' :: u32)) = wal_header_image c' r @ body"
  by (simp add: overwrite_in wal_header_image_def)

lemma wal_encode_Ok:
  assumes "length (wr_payload r) \<le> 4294967295"
  shows "wal_encode crc r = Ok (wal_image crc r)"
proof -
  let ?n = "48 + length (wr_payload r)"
  have ub: "?n < usize_bound" using assms by (intro usize_bound_u32) simp
  define b :: "byte list" where "b = replicate (wal_encoded_len r) 0"
  have len: "length b = ?n" by (simp add: b_def wal_encoded_len_def)
  let ?img = "(((((((((([] @
     to_le_bytes WAL_MAGIC) @ to_le_bytes WAL_FORMAT_VERSION) @ to_le_bytes (wal_kind_as_u16 (wr_kind r))) @
     to_le_bytes (0 :: u32)) @ to_le_bytes (word_of_nat (length (wr_payload r)) :: u32)) @
     to_le_bytes (wr_lsn r)) @ to_le_bytes (wr_prev_lsn r)) @ to_le_bytes (wr_tx_id r)) @
     to_le_bytes (0 :: u64)) @ wr_payload r) @ drop ?n b"
  have img: "?img = wal_header_image 0 r @ wr_payload r"
    by (simp add: wal_header_image_def len)
  have enc: "wal_encode crc r = rbind (checksum_wal_bytes crc ?img) (write_u32 ?img 8)"
    unfolding wal_encode_def b_def [symmetric]
    apply (subst append_Nil [of b, symmetric])
    using ub len assms
    by (simp add: write_u16_in write_u32_in write_u64_in write_bytes_in overwrite_next
        del: append_assoc append_Nil append.simps)
  show ?thesis
    using ub unfolding enc img by (simp add: checksum_wal_image write_u32_in wal_header_image_checksum wal_image_def)
qed

lemma wal_encode_eq:
  "wal_encode crc r = (if length (wr_payload r) \<le> 4294967295 then Ok (wal_image crc r)
     else Err (CorruptWal ''payload too large''))"
  using wal_encode_Ok [of r crc] by (cases "length (wr_payload r) \<le> 4294967295") (simp_all add: wal_encode_def)

lemma wal_header_slices:
  "bslice (wal_header_image c r) 0 4 = to_le_bytes WAL_MAGIC"
  "bslice (wal_header_image c r) 4 2 = to_le_bytes WAL_FORMAT_VERSION"
  "bslice (wal_header_image c r) 6 2 = to_le_bytes (wal_kind_as_u16 (wr_kind r))"
  "bslice (wal_header_image c r) 8 4 = to_le_bytes c"
  "bslice (wal_header_image c r) 12 4 = to_le_bytes (word_of_nat (length (wr_payload r)) :: u32)"
  "bslice (wal_header_image c r) 16 8 = to_le_bytes (wr_lsn r)"
  "bslice (wal_header_image c r) 24 8 = to_le_bytes (wr_prev_lsn r)"
  "bslice (wal_header_image c r) 32 8 = to_le_bytes (wr_tx_id r)"
  by (simp_all add: bslice_def wal_header_image_def)

lemma wal_decode_image:
  assumes "length (wr_payload r) \<le> 4294967295" and "wal_encoded_len r + length rest < usize_bound"
  shows "wal_decode crc (wal_image crc r @ rest) = Ok r"
proof -
  have pre: "bslice (wal_header_image c r @ wr_payload r @ rest) 0 (48 + length (wr_payload r)) =
      wal_header_image c r @ wr_payload r" for c
    by (simp add: bslice_def)
  show ?thesis
    using assms
    by (simp add: wal_decode_def wal_image_def wal_encoded_len_def read_u16_in read_u32_in read_u64_in
        bslice_append_left wal_header_slices unat_u32_of_nat checked_add_usize_def slice_range_def pre
        checksum_wal_image bslice_append_right)
qed

interpretation wal_codec: byte_codec "wal_encode crc" "wal_decode crc"
  "\<lambda>r. length (wr_payload r) \<le> 4294967295" for crc
proof
  fix r :: wal_record and bs
  assume fits: "length (wr_payload r) \<le> 4294967295"
  show "\<exists>bs. wal_encode crc r = Ok bs" using wal_encode_Ok [OF fits] by blast
  have "wal_encoded_len r < usize_bound"
    using fits unfolding wal_encoded_len_def by (intro usize_bound_u32) simp
  then show "wal_decode crc bs = Ok r" if "wal_encode crc r = Ok bs"
    using that wal_encode_Ok [OF fits] wal_decode_image [OF fits, of "[]"] by auto
qed

lemma wal_kind_from_u16_no_panic: "wal_kind_from_u16 v \<noteq> Panic"
  by (simp add: wal_kind_from_u16_def)

lemma checksum_wal_bytes_panic_iff: "checksum_wal_bytes crc bs = Panic \<longleftrightarrow> length bs < 12"
  by (auto simp: checksum_wal_bytes_def panic_simps slice_range_Ok_iff)

lemma wal_decode_no_panic: "wal_decode crc bs \<noteq> Panic"
proof -
  have chk: "slice_range bs 0 (48 + n) = Ok x \<Longrightarrow> checksum_wal_bytes crc x \<noteq> Panic" for n x
    by (auto simp: slice_range_Ok_iff checksum_wal_bytes_panic_iff length_bslice)
  show ?thesis
    by (auto simp: wal_decode_def panic_simps wal_kind_from_u16_no_panic dest: chk split: if_splits)
qed

section \<open>Damage to a record\<close>

text \<open>An accepted frame carries the checksum of its own bytes.\<close>

lemma wal_decode_checksum:
  assumes "wal_decode crc bs = Ok r" and "length bs < usize_bound"
  shows "48 + unat (from_le_bytes (bslice bs 12 4) :: u32) \<le> length bs"
    and "from_le_bytes (bslice bs 8 4) =
      crc (take 8 bs @ [0, 0, 0, 0] @
           bslice bs 12 (36 + unat (from_le_bytes (bslice bs 12 4) :: u32)))"
proof -
  define n where "n = unat (from_le_bytes (bslice bs 12 4) :: u32)"
  have len: "48 \<le> length bs" using assms(1) by (auto simp: wal_decode_def split: if_splits)
  have fits: "48 + n \<le> length bs" and stored:
    "rbind (slice_range bs 0 (48 + n)) (checksum_wal_bytes crc) = Ok (from_le_bytes (bslice bs 8 4))"
    using assms len
    by (auto simp: wal_decode_def read_u32_in n_def checked_add_usize_def split: if_splits)
  have actual: "rbind (slice_range bs 0 (48 + n)) (checksum_wal_bytes crc) =
      Ok (crc (take 8 bs @ [0, 0, 0, 0] @ bslice bs 12 (36 + n)))"
    using fits by (simp add: slice_range_Ok checksum_wal_bytes_def bslice_def drop_take)
  show "48 + unat (from_le_bytes (bslice bs 12 4) :: u32) \<le> length bs"
    using fits by (simp only: n_def)
  show "from_le_bytes (bslice bs 8 4) =
      crc (take 8 bs @ [0, 0, 0, 0] @ bslice bs 12 (36 + unat (from_le_bytes (bslice bs 12 4) :: u32)))"
    using trans [OF stored [symmetric] actual] by (simp only: n_def result.inject)
qed

text \<open>
  What the frame relies on of \<^verbatim>\<open>crc32fast\<close>: a CRC-32 distinguishes two messages of the same
  length that differ in one byte.
\<close>

definition detects_byte_errors :: "crc_fn \<Rightarrow> bool" where
  "detects_byte_errors crc \<longleftrightarrow> (\<forall>xs a b ys. a \<noteq> b \<longrightarrow> crc (xs @ a # ys) \<noteq> crc (xs @ b # ys))"

definition byte_sum :: crc_fn where
  "byte_sum bs = sum_list (map ucast bs)"

lemma byte_sum_detects: "detects_byte_errors byte_sum"
proof (unfold detects_byte_errors_def, intro allI impI notI)
  fix xs ys :: "byte list" and a b :: byte
  assume "a \<noteq> b" and "byte_sum (xs @ a # ys) = byte_sum (xs @ b # ys)"
  then have "(ucast a :: u32) = ucast b" by (simp add: byte_sum_def)
  then have "unat (ucast a :: u32) = unat (ucast b :: u32)" by simp
  moreover have "unat (ucast x :: u32) = unat x" for x :: byte
    using unat_word_bound [of x] by (simp add: unsigned_ucast_eq take_bit_nat_eq_self)
  ultimately show False using \<open>a \<noteq> b\<close> by (simp add: word_unat_eq_iff)
qed

lemma detects_update:
  assumes "detects_byte_errors crc" and "i < length xs" and "b \<noteq> xs ! i"
  shows "crc (xs[i := b]) \<noteq> crc xs"
proof -
  have "crc (take i xs @ b # drop (Suc i) xs) \<noteq> crc (take i xs @ xs ! i # drop (Suc i) xs)"
    using assms(1,3) unfolding detects_byte_errors_def by blast
  then show ?thesis using assms(2) by (simp add: upd_conv_take_nth_drop id_take_nth_drop [symmetric])
qed

lemma bslice_update_outside:
  "i < off \<or> off + n \<le> i \<Longrightarrow> bslice (xs[i := b]) off n = bslice xs off n"
  by (cases "i < off") (simp_all add: bslice_def drop_update_cancel drop_update_swap take_update_cancel)

lemma bslice_update_inside:
  "off \<le> i \<Longrightarrow> bslice (xs[i := b]) off n = (bslice xs off n)[i - off := b]"
  by (cases "i < length xs") (simp_all add: bslice_def drop_update_swap take_update_swap)

lemma from_le_bytes_u32_inj:
  assumes "from_le_bytes xs = (from_le_bytes ys :: u32)" and "length xs = 4" and "length ys = 4"
  shows "xs = ys"
  using arg_cong [OF assms(1), of to_le_bytes] assms(2,3) by (simp add: to_from_le_bytes)

text \<open>The bytes that enter the checksum of a frame with a payload of \<open>n\<close> bytes.\<close>

definition wal_zeroed :: "nat \<Rightarrow> byte list \<Rightarrow> byte list" where
  "wal_zeroed n bs = take 8 bs @ [0, 0, 0, 0] @ bslice bs 12 (36 + n)"

lemma wal_zeroed_update_crc:
  "8 \<le> i \<Longrightarrow> i < 12 \<Longrightarrow> wal_zeroed n (bs[i := b]) = wal_zeroed n bs"
  using bslice_update_outside [of i 12] by (simp add: wal_zeroed_def take_update_cancel)

lemma wal_zeroed_update:
  assumes "i < 8 \<or> 12 \<le> i" and "length bs = 48 + n" and "i < 48 + n"
  shows "wal_zeroed n (bs[i := b]) = (wal_zeroed n bs)[i := b]" and "wal_zeroed n bs ! i = bs ! i"
proof -
  show "wal_zeroed n bs ! i = bs ! i"
    using assms by (cases "i < 8") (simp_all add: wal_zeroed_def nth_append nth_bslice)
  show "wal_zeroed n (bs[i := b]) = (wal_zeroed n bs)[i := b]"
  proof (cases "i < 8")
    case True
    then show ?thesis
      using assms(2) by (simp add: wal_zeroed_def take_update_swap bslice_update_outside list_update_append)
  next
    case False
    have "((take 8 bs @ [0, 0, 0, 0]) @ bslice bs 12 (36 + n))[i := b] =
        (take 8 bs @ [0, 0, 0, 0]) @ bslice (bs[i := b]) 12 (36 + n)"
      using False assms by (subst list_update_append) (simp add: bslice_update_inside)
    with False assms show ?thesis by (simp add: wal_zeroed_def)
  qed
qed

lemma wal_damage_rejected:
  assumes crc: "detects_byte_errors crc"
    and fits: "length (wr_payload r) \<le> 4294967295" and i: "i < wal_encoded_len r" "i \<notin> {12..<16}"
    and b: "b \<noteq> wal_image crc r ! i"
  shows "wal_decode crc ((wal_image crc r)[i := b]) \<noteq> Ok r'"
proof
  let ?m = "wal_image crc r" let ?d = "?m[i := b]"
  let ?z = "wal_zeroed (length (wr_payload r))"
  assume ok: "wal_decode crc ?d = Ok r'"
  have ub: "wal_encoded_len r < usize_bound"
    unfolding wal_encoded_len_def using fits by (intro usize_bound_u32) simp
  have len: "length ?m = 48 + length (wr_payload r)" by (simp add: wal_encoded_len_def)
  have sl: "bslice ?m 12 4 = to_le_bytes (word_of_nat (length (wr_payload r)) :: u32)"
    by (simp add: wal_image_def bslice_append_left wal_header_slices)
  have orig: "from_le_bytes (bslice ?m 8 4) = crc (?z ?m)"
    using wal_decode_checksum(2) [OF wal_decode_image [OF fits, of "[]" crc, simplified]] ub fits
    by (simp add: wal_zeroed_def sl unat_u32_of_nat)
  have "bslice ?d 12 4 = bslice ?m 12 4" using i by (intro bslice_update_outside) auto
  then have dmg: "from_le_bytes (bslice ?d 8 4) = crc (?z ?d)"
    using wal_decode_checksum(2) [OF ok] ub fits by (simp add: wal_zeroed_def sl unat_u32_of_nat)
  show False
  proof (cases "8 \<le> i \<and> i < 12")
    case True
    then have "bslice ?d 8 4 = bslice ?m 8 4"
      using dmg orig len
      by (intro from_le_bytes_u32_inj) (simp_all add: length_bslice wal_zeroed_update_crc)
    then have "(bslice ?m 8 4)[i - 8 := b] ! (i - 8) = bslice ?m 8 4 ! (i - 8)"
      using True by (simp add: bslice_update_inside)
    moreover have "i - 8 < length (bslice ?m 8 4)" and "bslice ?m 8 4 ! (i - 8) = ?m ! i"
      using True len by (simp_all add: length_bslice nth_bslice less_diff_conv2)
    ultimately show False using b by simp
  next
    case False
    then have "i < 8 \<or> 12 \<le> i" by auto
    moreover have "bslice ?d 8 4 = bslice ?m 8 4" using False by (intro bslice_update_outside) auto
    ultimately have "crc ((?z ?m)[i := b]) = crc (?z ?m)" and "?z ?m ! i = ?m ! i"
      using dmg orig len i by (simp_all add: wal_zeroed_update wal_encoded_len_def)
    then show False
      using detects_update [OF crc, of i "?z ?m" b] b i len
      by (simp add: wal_zeroed_def length_bslice wal_encoded_len_def)
  qed
qed

section \<open>Properties\<close>

text \<open>
  C30. Encoding a record and decoding the frame, whatever bytes follow it in the buffer,
  gives the record back; the only record that cannot be encoded is one whose payload does not
  fit the 32-bit length field, which is an error.
\<close>

theorem wal_record_roundtrip:
  assumes "wal_encoded_len r + length rest < usize_bound"
  shows "rbind (wal_encode crc r) (\<lambda>bs. wal_decode crc (bs @ rest)) =
    (if length (wr_payload r) \<le> 4294967295 then Ok r else Err (CorruptWal ''payload too large''))"
  using assms wal_decode_image [of r rest crc] by (simp add: wal_encode_eq)

theorem wal_record_roundtrip_witness:
  "rbind (wal_encode byte_sum \<lparr>wr_lsn = 96, wr_prev_lsn = 0, wr_tx_id = 7, wr_kind = Kind_Commit, wr_payload = [1, 2]\<rparr>)
     (\<lambda>bs. wal_decode byte_sum (bs @ [255])) =
   Ok \<lparr>wr_lsn = 96, wr_prev_lsn = 0, wr_tx_id = 7, wr_kind = Kind_Commit, wr_payload = [1, 2]\<rparr>"
  by (subst wal_record_roundtrip) (simp_all add: wal_encoded_len_def usize_bound_def)

text \<open>
  C8. Damage to any single byte of an encoded record outside its length field makes the
  decoder return an error, provided the CRC tells apart two messages that differ in one byte.
\<close>

theorem wal_decode_detects_damage:
  assumes "detects_byte_errors crc" and "wal_encode crc r = Ok bs"
    and "i < length bs" and "i \<notin> {12..<16}" and "b \<noteq> bs ! i"
  shows "\<exists>e. wal_decode crc (bs[i := b]) = Err e"
proof -
  have fits: "length (wr_payload r) \<le> 4294967295" and "bs = wal_image crc r"
    using assms(2) by (auto simp: wal_encode_eq split: if_splits)
  then have "wal_decode crc (bs[i := b]) \<noteq> Ok r'" for r'
    using wal_damage_rejected [OF assms(1) fits] assms(3-5) by simp
  then show ?thesis using wal_decode_no_panic [of crc "bs[i := b]"] by (cases "wal_decode crc (bs[i := b])") auto
qed

theorem wal_decode_detects_damage_witness:
  "\<exists>bs. wal_encode byte_sum \<lparr>wr_lsn = 0, wr_prev_lsn = 0, wr_tx_id = 7, wr_kind = Kind_Abort, wr_payload = [5]\<rparr> = Ok bs \<and>
     length bs = 49 \<and> (\<exists>e. wal_decode byte_sum (bs[48 := 6]) = Err e)"
proof -
  let ?r = "\<lparr>wr_lsn = 0, wr_prev_lsn = 0, wr_tx_id = 7, wr_kind = Kind_Abort, wr_payload = [5]\<rparr> :: wal_record"
  have "wal_encode byte_sum ?r = Ok (wal_image byte_sum ?r)" by (rule wal_encode_Ok) simp
  moreover have "length (wal_image byte_sum ?r) = 49" by (simp add: wal_encoded_len_def)
  moreover have "wal_image byte_sum ?r ! 48 = 5" by (simp add: wal_image_def nth_append)
  ultimately show ?thesis
    using wal_decode_detects_damage [OF byte_sum_detects, of ?r "wal_image byte_sum ?r" 48 6] by simp
qed

end
