(* ===== verification/Wal_Segment.thy ===== *)
theory Wal_Segment
  imports Wal_Record
begin

text \<open>
  \<^verbatim>\<open>crates/kernel/src/wal/segment.rs\<close> and the position helpers of \<^verbatim>\<open>wal/manager/types.rs\<close>: the
  names of segment and seal files, the text of a seal, and the split of a log position into a
  segment and an offset. Printing and parsing of unsigned integers follow \<^verbatim>\<open>core::fmt\<close> and
  \<^verbatim>\<open>from_str_radix\<close>. Text is a list of ASCII characters; \<^verbatim>\<open>str::trim\<close> removes ASCII white space.
\<close>

section \<open>Unsigned integers as text\<close>

definition digit_char :: "nat \<Rightarrow> char" where
  "digit_char d = char_of (if d < 10 then 48 + d else 87 + d)"

function radix_digits :: "nat \<Rightarrow> nat \<Rightarrow> string" where
  "radix_digits b n = (if b < 2 \<or> n < b then [digit_char n] else radix_digits b (n div b) @ [digit_char (n mod b)])"
  by auto
termination by (relation "measure snd") auto

declare radix_digits.simps [simp del]

text \<open>\<^verbatim>\<open>{:0w}\<close>: the number padded with zeros to width \<open>w\<close>.\<close>

definition pad_zeros :: "nat \<Rightarrow> string \<Rightarrow> string" where
  "pad_zeros w s = replicate (w - length s) (CHR ''0'') @ s"

definition digit_value :: "nat \<Rightarrow> char \<Rightarrow> nat option" where
  "digit_value b c =
     (let n = of_char c :: nat;
          d = (if 48 \<le> n \<and> n \<le> 57 then n - 48
               else if 97 \<le> n \<and> n \<le> 122 then n - 87
               else if 65 \<le> n \<and> n \<le> 90 then n - 55 else b)
      in if d < b then Some d else None)"

text \<open>Multiplication and addition are checked: a value outside the type is an error.\<close>

fun parse_digits :: "nat \<Rightarrow> nat \<Rightarrow> nat \<Rightarrow> string \<Rightarrow> nat option" where
  "parse_digits b bound acc [] = Some acc"
| "parse_digits b bound acc (c # cs) =
     (case digit_value b c of None \<Rightarrow> None
      | Some d \<Rightarrow> if acc * b + d < bound then parse_digits b bound (acc * b + d) cs else None)"

definition from_str_radix :: "nat \<Rightarrow> nat \<Rightarrow> string \<Rightarrow> nat option" where
  "from_str_radix b bound s =
     (case s of [] \<Rightarrow> None
      | c # cs \<Rightarrow>
          if (c = CHR ''+'' \<or> c = CHR ''-'') \<and> cs = [] then None
          else if c = CHR ''+'' then parse_digits b bound 0 cs
          else parse_digits b bound 0 s)"

definition parse_u64 :: "string \<Rightarrow> u64 option" where
  "parse_u64 s = map_option word_of_nat (from_str_radix 10 (2 ^ 64) s)"

definition parse_hex_u32 :: "string \<Rightarrow> u32 option" where
  "parse_hex_u32 s = map_option word_of_nat (from_str_radix 16 (2 ^ 32) s)"

definition print_u64 :: "u64 \<Rightarrow> string" where
  "print_u64 w = radix_digits 10 (unat w)"

definition print_hex_u32 :: "u32 \<Rightarrow> string" where
  "print_hex_u32 w = pad_zeros 8 (radix_digits 16 (unat w))"

lemma digit_value_char:
  assumes "d < b" and "b \<le> 36" shows "digit_value b (digit_char d) = Some d"
  using assms by (simp add: digit_value_def digit_char_def Let_def)

lemma digit_char_value:
  assumes "digit_value 10 c = Some d" shows "c = digit_char d \<and> d < 10"
proof -
  let ?n = "of_char c :: nat"
  have "48 \<le> ?n" "?n \<le> 57" "d = ?n - 48"
    using assms by (auto simp: digit_value_def Let_def split: if_splits)
  then have "48 + d = ?n" and "d < 10" by auto
  then show ?thesis by (simp add: digit_char_def)
qed

text \<open>The value of a digit string, without the bound.\<close>

fun digits_value :: "nat \<Rightarrow> nat \<Rightarrow> string \<Rightarrow> nat option" where
  "digits_value b acc [] = Some acc"
| "digits_value b acc (c # cs) =
     (case digit_value b c of None \<Rightarrow> None | Some d \<Rightarrow> digits_value b (acc * b + d) cs)"

lemma digits_value_append:
  "digits_value b acc (xs @ ys) = Option.bind (digits_value b acc xs) (\<lambda>v. digits_value b v ys)"
  by (induction b acc xs rule: digits_value.induct) (simp_all split: option.splits)

lemma digits_value_mono: "0 < b \<Longrightarrow> digits_value b acc s = Some v \<Longrightarrow> acc \<le> v"
proof (induction b acc s rule: digits_value.induct)
  case (2 b acc c cs)
  then obtain d where "digits_value b (acc * b + d) cs = Some v" and "acc * b + d \<le> v"
    by (auto split: option.splits)
  moreover have "acc \<le> acc * b" using 2 by simp
  ultimately show ?case by linarith
qed simp

lemma parse_digits_value:
  "0 < b \<Longrightarrow> acc < bound \<Longrightarrow> parse_digits b bound acc s =
     (case digits_value b acc s of Some v \<Rightarrow> if v < bound then Some v else None | None \<Rightarrow> None)"
proof (induction b bound acc s rule: parse_digits.induct)
  case (2 b bound acc c cs)
  show ?case
  proof (cases "digit_value b c")
    case (Some d)
    then show ?thesis
      using 2 digits_value_mono [OF "2.prems"(1), of "acc * b + d" cs] by (auto split: option.splits)
  qed simp
qed simp

lemma digits_value_digits: "2 \<le> b \<Longrightarrow> b \<le> 36 \<Longrightarrow> digits_value b 0 (radix_digits b n) = Some n"
proof (induction b n rule: radix_digits.induct)
  case (1 b n)
  show ?case
  proof (cases "n < b")
    case True
    then show ?thesis using 1 by (simp add: radix_digits.simps [of b n] digit_value_char)
  next
    case False
    then show ?thesis
      using 1 by (simp add: radix_digits.simps [of b n] digits_value_append digit_value_char)
  qed
qed

lemma digits_value_zeros: "2 \<le> b \<Longrightarrow> digits_value b 0 (replicate k (CHR ''0'') @ s) = digits_value b 0 s"
  by (induction k) (simp_all add: digit_value_def Let_def)

lemma radix_digits_nonempty: "radix_digits b n \<noteq> []"
  by (subst radix_digits.simps) simp

lemma of_char_digit: "d < 36 \<Longrightarrow> (of_char (digit_char d) :: nat) = (if d < 10 then 48 + d else 87 + d)"
  by (simp add: digit_char_def)

lemma digit_char_other: "d < 36 \<Longrightarrow> digit_char d \<notin> {CHR ''+'', CHR ''-'', CHR ''='', CHR 0x0A, CHR 0x0D}"
  using of_char_digit [of d] by (auto split: if_splits)

lemma set_radix_digits: "2 \<le> b \<Longrightarrow> set (radix_digits b n) \<subseteq> digit_char ` {..<b}"
proof (induction b n rule: radix_digits.induct)
  case (1 b n)
  then show ?case by (subst radix_digits.simps) auto
qed

lemma digit_char_zero: "CHR ''0'' = digit_char 0"
  by code_simp

lemma set_pad_zeros: "set s \<subseteq> digit_char ` {..<b} \<Longrightarrow> 0 < b \<Longrightarrow> set (pad_zeros w s) \<subseteq> digit_char ` {..<b}"
  by (auto simp: pad_zeros_def digit_char_zero)

lemma from_str_radix_digits:
  assumes "s \<noteq> []" and "set s \<subseteq> digit_char ` {..<b}" and "b \<le> 36" and "2 \<le> b" and "0 < bound"
  shows "from_str_radix b bound s =
    (case digits_value b 0 s of Some v \<Rightarrow> if v < bound then Some v else None | None \<Rightarrow> None)"
proof -
  obtain c cs where s: "s = c # cs" using assms(1) by (cases s) auto
  then obtain d where "c = digit_char d" "d < 36" using assms(2,3) by auto
  then have "c \<noteq> CHR ''+''" "c \<noteq> CHR ''-''" using digit_char_other [of d] by auto
  then have "from_str_radix b bound s = parse_digits b bound 0 s" by (simp add: from_str_radix_def s)
  then show ?thesis using parse_digits_value [of b 0 bound s] assms(4,5) by simp
qed

lemma parse_print_u64: "parse_u64 (print_u64 w) = Some w"
proof -
  have "unat w < 2 ^ 64" using unat_word_bound [of w] by simp
  then show ?thesis
    by (simp add: parse_u64_def print_u64_def from_str_radix_digits radix_digits_nonempty set_radix_digits
        digits_value_digits)
qed

lemma parse_print_hex_u32: "parse_hex_u32 (print_hex_u32 w) = Some w"
proof -
  have "pad_zeros 8 (radix_digits 16 (unat w)) \<noteq> []" by (simp add: pad_zeros_def radix_digits_nonempty)
  moreover have "digits_value 16 0 (pad_zeros 8 (radix_digits 16 (unat w))) = Some (unat w)"
    by (simp add: pad_zeros_def digits_value_zeros digits_value_digits)
  moreover have "set (pad_zeros 8 (radix_digits 16 (unat w))) \<subseteq> digit_char ` {..<16}"
    by (intro set_pad_zeros set_radix_digits) simp_all
  ultimately show ?thesis
    using unat_u32_bound [of w]
    by (simp add: parse_hex_u32_def print_hex_u32_def from_str_radix_digits del: unat_u32_bound)
qed

section \<open>Names of segment and seal files\<close>

definition WAL_SEGMENT_EXT :: string where "WAL_SEGMENT_EXT = ''.wal''"
definition WAL_SEAL_EXT :: string where "WAL_SEAL_EXT = ''.seal''"

definition format_segment_label :: "wal_segment_no \<Rightarrow> string" where
  "format_segment_label segment = pad_zeros 20 (radix_digits 10 (unat segment))"

text \<open>The file name that \<^verbatim>\<open>segment_path\<close> and \<^verbatim>\<open>seal_path\<close> join to the directory.\<close>

definition segment_name :: "wal_segment_no \<Rightarrow> string" where
  "segment_name segment = format_segment_label segment @ WAL_SEGMENT_EXT"

definition seal_name :: "wal_segment_no \<Rightarrow> string" where
  "seal_name segment = format_segment_label segment @ WAL_SEAL_EXT"

definition strip_suffix :: "string \<Rightarrow> string \<Rightarrow> string option" where
  "strip_suffix s suffix =
     (if length suffix \<le> length s \<and> drop (length s - length suffix) s = suffix
      then Some (take (length s - length suffix) s) else None)"

definition is_ascii_digit :: "char \<Rightarrow> bool" where
  "is_ascii_digit c \<longleftrightarrow> 48 \<le> (of_char c :: nat) \<and> (of_char c :: nat) \<le> 57"

definition parse_numbered_name :: "string \<Rightarrow> string \<Rightarrow> wal_segment_no option" where
  "parse_numbered_name ext name =
     Option.bind (strip_suffix name ext) (\<lambda>number.
     if length number \<noteq> 20 \<or> \<not> list_all is_ascii_digit number then None else parse_u64 number)"

definition parse_segment_name :: "string \<Rightarrow> wal_segment_no option" where
  "parse_segment_name name = parse_numbered_name WAL_SEGMENT_EXT name"

definition parse_seal_name :: "string \<Rightarrow> wal_segment_no option" where
  "parse_seal_name name = parse_numbered_name WAL_SEAL_EXT name"

lemma strip_suffix_iff: "strip_suffix s suffix = Some p \<longleftrightarrow> s = p @ suffix"
  by (auto simp: strip_suffix_def) (metis append_take_drop_id)

lemma length_radix_digits: "n < 10 ^ k \<Longrightarrow> 0 < k \<Longrightarrow> length (radix_digits 10 n) \<le> k"
proof (induction k arbitrary: n)
  case (Suc k)
  show ?case
  proof (cases "n < 10")
    case False
    then have "n div 10 < 10 ^ k" and "0 < k" using Suc.prems by (auto intro: gr0I simp: less_mult_imp_div_less mult.commute)
    then have "length (radix_digits 10 (n div 10)) \<le> k" by (rule Suc.IH)
    with False show ?thesis by (simp add: radix_digits.simps [of 10 n])
  qed (simp add: radix_digits.simps [of 10 n])
qed simp

lemma length_format_segment_label: "length (format_segment_label w) = 20"
proof -
  have "unat w < 10 ^ 20" using unat_word_bound [of w] by simp
  then have "length (radix_digits 10 (unat w)) \<le> 20" by (rule length_radix_digits) simp
  then show ?thesis by (simp add: format_segment_label_def pad_zeros_def)
qed

lemma is_ascii_digit_char: "d < 10 \<Longrightarrow> is_ascii_digit (digit_char d)"
  using of_char_digit [of d] by (simp add: is_ascii_digit_def)

lemma ascii_digit_value: "is_ascii_digit c \<Longrightarrow> \<exists>d<10. digit_value 10 c = Some d \<and> c = digit_char d"
proof -
  assume "is_ascii_digit c"
  then have "digit_value 10 c = Some (of_char c - 48)" by (auto simp: is_ascii_digit_def digit_value_def Let_def)
  with digit_char_value show ?thesis by blast
qed

text \<open>A string of decimal digits is the padded print of its value.\<close>

lemma pad_digits_value:
  assumes "list_all is_ascii_digit s" and "s \<noteq> []"
  obtains v where "digits_value 10 0 s = Some v" and "pad_zeros (length s) (radix_digits 10 v) = s"
  using assms
proof (induction s arbitrary: thesis rule: rev_induct)
  case (snoc c xs)
  then obtain d where d: "d < 10" "digit_value 10 c = Some d" "c = digit_char d"
    using ascii_digit_value [of c] by auto
  show ?case
  proof (cases "xs = []")
    case True
    with d show ?thesis by (intro snoc.prems(1) [of d]) (simp_all add: radix_digits.simps [of 10 d] pad_zeros_def)
  next
    case False
    then obtain v where v: "digits_value 10 0 xs = Some v" "pad_zeros (length xs) (radix_digits 10 v) = xs"
      using snoc.IH snoc.prems(2) by auto
    have val: "digits_value 10 0 (xs @ [c]) = Some (v * 10 + d)"
      using v d by (simp add: digits_value_append)
    have "pad_zeros (length (xs @ [c])) (radix_digits 10 (v * 10 + d)) = xs @ [c]"
    proof (cases "v = 0")
      case True
      then have "xs = replicate (length xs - 1) (CHR ''0'') @ [CHR ''0'']"
        using v(2) by (simp add: radix_digits.simps [of 10 0] pad_zeros_def digit_char_zero)
      then have "xs = replicate (length xs) (CHR ''0'')" using False
        by (metis length_append length_replicate length_Cons list.size(3) replicate_append_same replicate_Suc One_nat_def add.right_neutral add_Suc_right)
      with True d show ?thesis
        by (simp add: radix_digits.simps [of 10 d] pad_zeros_def)
    next
      case nz: False
      then have "radix_digits 10 (v * 10 + d) = radix_digits 10 v @ [c]"
        using d by (subst radix_digits.simps) (simp add: add.commute)
      then show ?thesis using v(2) by (simp add: pad_zeros_def)
    qed
    with snoc.prems(1) val show ?thesis by blast
  qed
qed simp

lemma parse_numbered_name_iff:
  "parse_numbered_name ext name = Some w \<longleftrightarrow> name = format_segment_label w @ ext"
proof
  assume "parse_numbered_name ext name = Some w"
  then obtain number where n: "name = number @ ext" "length number = 20" "list_all is_ascii_digit number"
    and p: "parse_u64 number = Some w"
    by (auto simp: parse_numbered_name_def strip_suffix_iff bind_eq_Some_conv split: if_splits)
  then obtain v where v: "digits_value 10 0 number = Some v" "pad_zeros 20 (radix_digits 10 v) = number"
    using pad_digits_value [of number] by force
  have "set number \<subseteq> digit_char ` {..<10}"
    using n(3) ascii_digit_value by (auto simp: list_all_iff)
  moreover have "number \<noteq> []" using n(2) by auto
  ultimately have "v < 2 ^ 64" and "w = word_of_nat v"
    using p v(1) by (auto simp: parse_u64_def from_str_radix_digits split: if_splits)
  then show "name = format_segment_label w @ ext"
    using v(2) n(1) by (simp add: format_segment_label_def unat_of_nat)
next
  assume name: "name = format_segment_label w @ ext"
  let ?s = "format_segment_label w"
  have set: "set ?s \<subseteq> digit_char ` {..<10}"
    unfolding format_segment_label_def by (intro set_pad_zeros set_radix_digits) simp_all
  moreover have ne: "?s \<noteq> []" using length_format_segment_label [of w] by auto
  moreover have "digits_value 10 0 ?s = Some (unat w)"
    by (simp add: format_segment_label_def pad_zeros_def digits_value_zeros digits_value_digits)
  moreover have "unat w < 2 ^ 64" using unat_word_bound [of w] by simp
  ultimately have "parse_u64 ?s = Some w" by (simp add: parse_u64_def from_str_radix_digits)
  moreover have "list_all is_ascii_digit ?s" using set is_ascii_digit_char by (auto simp: list_all_iff)
  ultimately show "parse_numbered_name ext name = Some w"
    using length_format_segment_label [of w] strip_suffix_iff [of name ext ?s]
    by (simp add: parse_numbered_name_def name)
qed

section \<open>The text of a seal\<close>

record sealed_wal_segment =
  ss_timeline :: timeline_id
  ss_segment_no :: wal_segment_no
  ss_first_lsn :: lsn
  ss_last_lsn :: lsn
  ss_byte_len :: u64
  ss_crc32 :: u32

definition seal_encode_text :: "sealed_wal_segment \<Rightarrow> string" where
  "seal_encode_text s =
     ''timeline='' @ print_u64 (ss_timeline s) @ [CHR 0x0A] @
     ''segment_no='' @ print_u64 (ss_segment_no s) @ [CHR 0x0A] @
     ''first_lsn='' @ print_u64 (ss_first_lsn s) @ [CHR 0x0A] @
     ''last_lsn='' @ print_u64 (ss_last_lsn s) @ [CHR 0x0A] @
     ''byte_len='' @ print_u64 (ss_byte_len s) @ [CHR 0x0A] @
     ''crc32='' @ print_hex_u32 (ss_crc32 s) @ [CHR 0x0A]"

text \<open>\<^verbatim>\<open>str::lines\<close>: a line ends with a newline, which may follow a carriage return.\<close>

definition strip_cr :: "string \<Rightarrow> string" where
  "strip_cr l = (if l \<noteq> [] \<and> last l = CHR 0x0D then butlast l else l)"

function text_lines :: "string \<Rightarrow> string list" where
  "text_lines [] = []"
| "text_lines (c # cs) =
     (let rest = dropWhile (\<lambda>x. x \<noteq> CHR 0x0A) (c # cs); line = takeWhile (\<lambda>x. x \<noteq> CHR 0x0A) (c # cs)
      in if rest = [] then [line] else strip_cr line # text_lines (tl rest))"
  by pat_completeness auto
termination
proof (relation "measure length")
  fix c :: char and cs rest line
  assume "rest = dropWhile (\<lambda>x. x \<noteq> CHR 0x0A) (c # cs)" and "rest \<noteq> []"
  moreover have "length (dropWhile (\<lambda>x. x \<noteq> CHR 0x0A) (c # cs)) \<le> length (c # cs)"
    by (rule length_dropWhile_le)
  ultimately show "(tl rest, c # cs) \<in> measure length" by (cases rest) auto
qed simp

declare text_lines.simps(2) [simp del]

definition split_once_eq :: "string \<Rightarrow> (string \<times> string) option" where
  "split_once_eq line =
     (if CHR ''='' \<in> set line
      then Some (takeWhile (\<lambda>x. x \<noteq> CHR ''='') line, tl (dropWhile (\<lambda>x. x \<noteq> CHR ''='') line)) else None)"

definition is_ascii_space :: "char \<Rightarrow> bool" where
  "is_ascii_space c \<longleftrightarrow> (of_char c :: nat) = 32 \<or> (9 \<le> (of_char c :: nat) \<and> (of_char c :: nat) \<le> 13)"

definition trim :: "string \<Rightarrow> string" where
  "trim s = rev (dropWhile is_ascii_space (rev (dropWhile is_ascii_space s)))"

record seal_fields =
  sf_timeline :: "u64 option"
  sf_segment_no :: "u64 option"
  sf_first_lsn :: "u64 option"
  sf_last_lsn :: "u64 option"
  sf_byte_len :: "u64 option"
  sf_crc32 :: "u32 option"

definition seal_field :: "string \<Rightarrow> string \<Rightarrow> seal_fields \<Rightarrow> seal_fields" where
  "seal_field key val f =
     (if key = ''timeline'' then f\<lparr>sf_timeline := parse_u64 val\<rparr>
      else if key = ''segment_no'' then f\<lparr>sf_segment_no := parse_u64 val\<rparr>
      else if key = ''first_lsn'' then f\<lparr>sf_first_lsn := parse_u64 val\<rparr>
      else if key = ''last_lsn'' then f\<lparr>sf_last_lsn := parse_u64 val\<rparr>
      else if key = ''byte_len'' then f\<lparr>sf_byte_len := parse_u64 val\<rparr>
      else if key = ''crc32'' then f\<lparr>sf_crc32 := parse_hex_u32 (trim val)\<rparr>
      else f)"

fun seal_lines :: "string list \<Rightarrow> seal_fields \<Rightarrow> seal_fields option" where
  "seal_lines [] f = Some f"
| "seal_lines (l # ls) f = Option.bind (split_once_eq l) (\<lambda>(key, val). seal_lines ls (seal_field key val f))"

definition seal_decode_text :: "string \<Rightarrow> sealed_wal_segment option" where
  "seal_decode_text txt =
     Option.bind (seal_lines (text_lines txt)
         \<lparr>sf_timeline = None, sf_segment_no = None, sf_first_lsn = None, sf_last_lsn = None,
          sf_byte_len = None, sf_crc32 = None\<rparr>) (\<lambda>f.
     Option.bind (sf_timeline f) (\<lambda>timeline.
     Option.bind (sf_segment_no f) (\<lambda>segment_no.
     Option.bind (sf_first_lsn f) (\<lambda>first_lsn.
     Option.bind (sf_last_lsn f) (\<lambda>last_lsn.
     Option.bind (sf_byte_len f) (\<lambda>byte_len.
     Option.bind (sf_crc32 f) (\<lambda>crc32.
     Some \<lparr>ss_timeline = timeline, ss_segment_no = segment_no, ss_first_lsn = first_lsn,
           ss_last_lsn = last_lsn, ss_byte_len = byte_len, ss_crc32 = crc32\<rparr>)))))))"

lemma text_lines_line:
  assumes "CHR 0x0A \<notin> set l" and "CHR 0x0D \<notin> set l"
  shows "text_lines (l @ CHR 0x0A # rest) = l # text_lines rest"
proof -
  have "strip_cr l = l" using assms(2) by (metis last_in_set strip_cr_def)
  moreover obtain c cs where "l @ CHR 0x0A # rest = c # cs" by (cases l) auto
  moreover have "takeWhile (\<lambda>x. x \<noteq> CHR 0x0A) (l @ CHR 0x0A # rest) = l"
    "dropWhile (\<lambda>x. x \<noteq> CHR 0x0A) (l @ CHR 0x0A # rest) = CHR 0x0A # rest"
    using assms(1) by (auto simp: takeWhile_append dropWhile_append)
  ultimately show ?thesis using text_lines.simps(2) [of c cs] by (simp add: Let_def)
qed

lemma split_once_eq_key:
  "CHR ''='' \<notin> set k \<Longrightarrow> split_once_eq (k @ CHR ''='' # v) = Some (k, v)"
  by (auto simp: split_once_eq_def takeWhile_append dropWhile_append)

lemma set_print_u64: "set (print_u64 w) \<subseteq> digit_char ` {..<36}"
  using set_radix_digits [of 10 "unat w"] by (force simp: print_u64_def)

lemma set_print_hex_u32: "set (print_hex_u32 w) \<subseteq> digit_char ` {..<36}"
proof -
  have "set (print_hex_u32 w) \<subseteq> digit_char ` {..<16}"
    unfolding print_hex_u32_def by (intro set_pad_zeros set_radix_digits) simp_all
  then show ?thesis by force
qed

lemma printed_no_newline:
  assumes "set s \<subseteq> digit_char ` {..<36}"
  shows "CHR 0x0A \<notin> set s" and "CHR 0x0D \<notin> set s"
  using assms digit_char_other by fastforce+

lemma trim_digits:
  assumes "set s \<subseteq> digit_char ` {..<36}" shows "trim s = s"
proof -
  have digit: "\<not> is_ascii_space (digit_char d)" if "d < 36" for d
    using of_char_digit [OF that] by (auto simp: is_ascii_space_def)
  have "\<not> is_ascii_space c" if "c \<in> set s" for c
    using that assms digit by auto
  then have "dropWhile is_ascii_space s = s" and "dropWhile is_ascii_space (rev s) = rev s"
    by (auto simp: dropWhile_eq_self_iff hd_rev)
  then show ?thesis by (simp add: trim_def)
qed

lemmas seal_line_chars = printed_no_newline [OF set_print_u64]
  printed_no_newline [OF set_print_hex_u32]

text \<open>
  The text of a seal file parses back to the seal that was written.
\<close>

theorem seal_text_roundtrip: "seal_decode_text (seal_encode_text s) = Some s"
proof -
  let ?l = "\<lambda>k v. k @ CHR ''='' # v"
  have "text_lines (seal_encode_text s) =
      [?l ''timeline'' (print_u64 (ss_timeline s)), ?l ''segment_no'' (print_u64 (ss_segment_no s)),
       ?l ''first_lsn'' (print_u64 (ss_first_lsn s)), ?l ''last_lsn'' (print_u64 (ss_last_lsn s)),
       ?l ''byte_len'' (print_u64 (ss_byte_len s)), ?l ''crc32'' (print_hex_u32 (ss_crc32 s))]"
    using text_lines_line [of "?l ''timeline'' (print_u64 (ss_timeline s))"]
      text_lines_line [of "?l ''segment_no'' (print_u64 (ss_segment_no s))"]
      text_lines_line [of "?l ''first_lsn'' (print_u64 (ss_first_lsn s))"]
      text_lines_line [of "?l ''last_lsn'' (print_u64 (ss_last_lsn s))"]
      text_lines_line [of "?l ''byte_len'' (print_u64 (ss_byte_len s))"]
      text_lines_line [of "?l ''crc32'' (print_hex_u32 (ss_crc32 s))"]
    by (simp add: seal_encode_text_def seal_line_chars)
  then show ?thesis
    using split_once_eq_key [of "''timeline''"] split_once_eq_key [of "''segment_no''"]
      split_once_eq_key [of "''first_lsn''"] split_once_eq_key [of "''last_lsn''"]
      split_once_eq_key [of "''byte_len''"] split_once_eq_key [of "''crc32''"]
    by (simp add: seal_decode_text_def seal_field_def parse_print_u64 parse_print_hex_u32
        trim_digits set_print_hex_u32)
qed

lemma parse_segment_name_eq: "parse_segment_name name = Some n \<longleftrightarrow> name = segment_name n"
  by (simp add: parse_segment_name_def segment_name_def parse_numbered_name_iff)

text \<open>
  A directory entry parses as a segment file exactly when it is the name that the log
  gives that segment, so segment numbers and segment file names correspond one to one.
\<close>

theorem parse_segment_name_iff: "parse_segment_name name = Some n \<longleftrightarrow> name = segment_name n"
  by (rule parse_segment_name_eq)

section \<open>Log positions\<close>

text \<open>Division by a zero segment size panics; a validated configuration excludes it.\<close>

definition segment_for_lsn :: "lsn \<Rightarrow> u64 \<Rightarrow> wal_segment_no result" where
  "segment_for_lsn lsn segment_bytes = (if segment_bytes = 0 then Panic else Ok (lsn div segment_bytes + 1))"

definition offset_for_lsn :: "lsn \<Rightarrow> u64 \<Rightarrow> u64 result" where
  "offset_for_lsn lsn segment_bytes = (if segment_bytes = 0 then Panic else Ok (lsn mod segment_bytes))"

lemma lsn_position:
  assumes "segment_for_lsn lsn sb = Ok seg" and "offset_for_lsn lsn sb = Ok off"
  shows "(seg - 1) * sb + off = lsn" and "off < sb"
proof -
  have "sb \<noteq> 0" "seg = lsn div sb + 1" "off = lsn mod sb"
    using assms by (auto simp: segment_for_lsn_def offset_for_lsn_def split: if_splits)
  then show "(seg - 1) * sb + off = lsn" by (simp add: word_mod_div_equality)
  show "off < sb" using \<open>sb \<noteq> 0\<close> \<open>off = lsn mod sb\<close>
    by (simp add: word_less_nat_alt unat_mod_distrib unat_gt_0)
qed

end
