(* ===== verification/Wal_Log.thy ===== *)
theory Wal_Log
  imports Wal_Segment "HOL-Library.AList"
begin

text \<open>
  \<^verbatim>\<open>crates/kernel/src/wal/manager\<close> (\<^verbatim>\<open>config.rs\<close>, \<^verbatim>\<open>types.rs\<close>, \<^verbatim>\<open>storage/write.rs\<close>,
  \<^verbatim>\<open>storage/scan.rs\<close>): the segmented log on disk. A directory maps file names to contents; each
  file also remembers its contents at the last \<^verbatim>\<open>sync_data\<close>, which is what a crash preserves.
  I/O itself is taken to succeed, so the error paths are those of the code's own checks.
\<close>

section \<open>Configuration\<close>

record wal_config =
  wc_segment_bytes :: u64
  wc_wal_buffer_bytes :: nat
  wc_wal_write_batch_bytes :: nat
  wc_group_commit_delay_us :: u64
  wc_group_commit_max_batch_bytes :: u64
  wc_lanes :: nat
  wc_semantic_combiner :: bool

definition wal_config_default :: wal_config where
  "wal_config_default =
     \<lparr>wc_segment_bytes = 64 * 1024 * 1024, wc_wal_buffer_bytes = 16 * 1024 * 1024,
      wc_wal_write_batch_bytes = 1024 * 1024, wc_group_commit_delay_us = 200,
      wc_group_commit_max_batch_bytes = 4 * 1024 * 1024, wc_lanes = 1, wc_semantic_combiner = False\<rparr>"

definition validate_config :: "wal_config \<Rightarrow> unit result" where
  "validate_config config =
     (if unat (wc_segment_bytes config) < WAL_HEADER_LEN then Err (CorruptWal ''wal segment size too small'')
      else if wc_wal_buffer_bytes config < WAL_HEADER_LEN then Err (CorruptWal ''wal buffer too small'')
      else if wc_wal_write_batch_bytes config = 0 then Err (CorruptWal ''wal write batch must be nonzero'')
      else Ok ())"

section \<open>Files\<close>

record disk_file =
  df_bytes :: "byte list"
  df_synced :: "byte list"

type_synonym wal_files = "(string \<times> disk_file) list"

definition empty_file :: disk_file where
  "empty_file = \<lparr>df_bytes = [], df_synced = []\<rparr>"

definition open_rw_create :: "string \<Rightarrow> wal_files \<Rightarrow> wal_files" where
  "open_rw_create name fs = (case map_of fs name of Some _ \<Rightarrow> fs | None \<Rightarrow> AList.update name empty_file fs)"

definition write_all_at :: "string \<Rightarrow> nat \<Rightarrow> byte list \<Rightarrow> wal_files \<Rightarrow> wal_files" where
  "write_all_at name off bs fs =
     (case map_of fs name of None \<Rightarrow> fs
      | Some f \<Rightarrow>
          let old = df_bytes f @ replicate (off - length (df_bytes f)) 0
          in AList.update name (f\<lparr>df_bytes := take off old @ bs @ drop (off + length bs) old\<rparr>) fs)"

definition set_len :: "string \<Rightarrow> nat \<Rightarrow> wal_files \<Rightarrow> wal_files" where
  "set_len name n fs =
     (case map_of fs name of None \<Rightarrow> fs
      | Some f \<Rightarrow> AList.update name (f\<lparr>df_bytes := take n (df_bytes f @ replicate (n - length (df_bytes f)) 0)\<rparr>) fs)"

definition sync_data :: "string \<Rightarrow> wal_files \<Rightarrow> wal_files" where
  "sync_data name fs =
     (case map_of fs name of None \<Rightarrow> fs | Some f \<Rightarrow> AList.update name (f\<lparr>df_synced := df_bytes f\<rparr>) fs)"

definition segment_numbers :: "wal_files \<Rightarrow> u64 list" where
  "segment_numbers fs = sort (List.map_filter parse_segment_name (map fst fs))"

section \<open>Reading the log\<close>

record wal_scan_report =
  sr_records :: "wal_record list"
  sr_valid_end_lsn :: lsn
  sr_torn_tail :: bool

definition checked_mul_u64 :: "u64 \<Rightarrow> u64 \<Rightarrow> u64 option" where
  "checked_mul_u64 a b = (if unat a * unat b < 2 ^ 64 then Some (a * b) else None)"

definition checked_add_u64 :: "u64 \<Rightarrow> u64 \<Rightarrow> u64 option" where
  "checked_add_u64 a b = (if unat a + unat b < 2 ^ 64 then Some (a + b) else None)"

definition validate_record_position :: "wal_record \<Rightarrow> u64 \<Rightarrow> u64 \<Rightarrow> u64 \<Rightarrow> unit result" where
  "validate_record_position r segment offset segment_bytes =
     rbind (ok_or (CorruptWal ''lsn overflow'')
              (Option.bind (checked_mul_u64 (segment - 1) segment_bytes) (\<lambda>base. checked_add_u64 base offset)))
       (\<lambda>expected.
     if wr_lsn r \<noteq> expected then Err (CorruptWal ''record lsn does not match segment position'') else Ok ())"

text \<open>
  The loop over one segment file. It returns the records read so far and whether it stopped at
  a torn tail.
\<close>

function scan_file ::
    "crc_fn \<Rightarrow> u64 \<Rightarrow> u64 \<Rightarrow> byte list \<Rightarrow> bool \<Rightarrow> bool \<Rightarrow> nat \<Rightarrow> wal_record list \<Rightarrow> (wal_record list \<times> bool) result"
where
  "scan_file crc segment_bytes segment content is_last stopped offset records =
     (if length content \<le> offset then Ok (records, stopped)
      else if stopped then Err (CorruptWal ''wal bytes after torn tail'')
      else if length content - offset < WAL_HEADER_LEN then
        if is_last then Ok (records, True) else Err (CorruptWal ''partial record header before final tail'')
      else
        let header = bslice content offset WAL_HEADER_LEN in
        case read_u32 header 12 of Err e \<Rightarrow> Err e | Panic \<Rightarrow> Panic | Ok payload_len \<Rightarrow>
        case checked_add_usize WAL_HEADER_LEN (unat payload_len) of
          None \<Rightarrow> if is_last then Ok (records, True) else Err (CorruptWal ''record length overflow'')
        | Some record_len \<Rightarrow>
          if record_len > unat segment_bytes then
            if is_last then Ok (records, True) else Err (CorruptWal ''record length exceeds segment size'')
          else if length content - offset < record_len then
            if is_last then Ok (records, True) else Err (CorruptWal ''partial record body before final tail'')
          else
            let encoded = header @ bslice content (offset + WAL_HEADER_LEN) (record_len - WAL_HEADER_LEN) in
            (case wal_decode crc encoded of
               Ok r \<Rightarrow>
                 (case validate_record_position r segment (word_of_nat offset) segment_bytes of
                    Ok _ \<Rightarrow> scan_file crc segment_bytes segment content is_last stopped (offset + record_len) (records @ [r])
                  | Err e \<Rightarrow> Err e
                  | Panic \<Rightarrow> Panic)
             | Err e \<Rightarrow> if is_last \<and> offset + record_len \<ge> length content then Ok (records, True) else Err e
             | Panic \<Rightarrow> Panic))"
  by pat_completeness auto
termination
  by (relation "measure (\<lambda>(crc, sb, seg, content, is_last, stopped, offset, records). length content - offset)")
    (auto simp: checked_add_usize_def split: if_splits)

declare scan_file.simps [simp del]

fun scan_segments ::
    "crc_fn \<Rightarrow> u64 \<Rightarrow> wal_files \<Rightarrow> u64 list \<Rightarrow> bool \<Rightarrow> wal_record list \<Rightarrow> (wal_record list \<times> bool) result"
where
  "scan_segments crc sb fs [] stopped records = Ok (records, stopped)"
| "scan_segments crc sb fs (segment # rest) stopped records =
     (case map_of fs (segment_name segment) of
        None \<Rightarrow> Err (Io ''NotFound'')
      | Some f \<Rightarrow>
          rbind (scan_file crc sb segment (df_bytes f) (rest = []) stopped 0 records) (\<lambda>(records, stopped).
          scan_segments crc sb fs rest stopped records))"

definition records_end_lsn :: "wal_record list \<Rightarrow> lsn" where
  "records_end_lsn rs = (if rs = [] then 0 else wr_lsn (last rs) + word_of_nat (wal_encoded_len (last rs)))"

definition scan_report :: "crc_fn \<Rightarrow> wal_config \<Rightarrow> wal_files \<Rightarrow> wal_scan_report result" where
  "scan_report crc config fs =
     rbind (validate_config config) (\<lambda>_.
     rbind (scan_segments crc (wc_segment_bytes config) fs (segment_numbers fs) False []) (\<lambda>(records, stopped).
     Ok \<lparr>sr_records = records, sr_valid_end_lsn = records_end_lsn records, sr_torn_tail = stopped\<rparr>))"

record wal_open_scan_summary =
  os_valid_end_lsn :: lsn
  os_last_record_lsn :: lsn

definition open_summary :: "wal_scan_report \<Rightarrow> wal_open_scan_summary" where
  "open_summary r =
     \<lparr>os_valid_end_lsn = sr_valid_end_lsn r,
      os_last_record_lsn = (if sr_records r = [] then 0 else wr_lsn (last (sr_records r)))\<rparr>"

section \<open>Writing the log\<close>

record wal_append =
  wa_start_lsn :: lsn
  wa_end_lsn :: lsn

record wal_manager =
  wm_files :: wal_files
  wm_config :: wal_config
  wm_active_segment :: u64
  wm_active_offset :: u64
  wm_written_lsn :: lsn
  wm_durable_lsn :: lsn
  wm_prev_lsn :: lsn

abbreviation wm_segment_bytes :: "wal_manager \<Rightarrow> u64" where
  "wm_segment_bytes w \<equiv> wc_segment_bytes (wm_config w)"

abbreviation wm_active_name :: "wal_manager \<Rightarrow> string" where
  "wm_active_name w \<equiv> segment_name (wm_active_segment w)"

definition create_with_fs :: "wal_config \<Rightarrow> wal_files \<Rightarrow> wal_manager result" where
  "create_with_fs config fs =
     rbind (validate_config config) (\<lambda>_.
     Ok \<lparr>wm_files = open_rw_create (segment_name 1) fs, wm_config = config, wm_active_segment = 1,
         wm_active_offset = 0, wm_written_lsn = 0, wm_durable_lsn = 0, wm_prev_lsn = 0\<rparr>)"

definition open_prepared :: "wal_config \<Rightarrow> wal_files \<Rightarrow> wal_open_scan_summary \<Rightarrow> wal_manager result" where
  "open_prepared config fs summary =
     rbind (segment_for_lsn (os_valid_end_lsn summary) (wc_segment_bytes config)) (\<lambda>active_segment.
     rbind (offset_for_lsn (os_valid_end_lsn summary) (wc_segment_bytes config)) (\<lambda>active_offset.
     Ok \<lparr>wm_files = set_len (segment_name active_segment) (unat active_offset)
            (open_rw_create (segment_name active_segment) fs),
         wm_config = config, wm_active_segment = active_segment, wm_active_offset = active_offset,
         wm_written_lsn = os_valid_end_lsn summary, wm_durable_lsn = 0,
         wm_prev_lsn = os_last_record_lsn summary\<rparr>))"

definition open_with_fs :: "crc_fn \<Rightarrow> wal_config \<Rightarrow> wal_files \<Rightarrow> wal_manager result" where
  "open_with_fs crc config fs =
     rbind (validate_config config) (\<lambda>_.
     rbind (scan_report crc config fs) (\<lambda>report.
     open_prepared config fs (open_summary report)))"

definition wal_position :: "wal_manager \<Rightarrow> lsn" where
  "wal_position w = (wm_active_segment w - 1) * wm_segment_bytes w + wm_active_offset w"

definition rotate_segment :: "wal_manager \<Rightarrow> wal_manager" where
  "rotate_segment w =
     w\<lparr>wm_files := open_rw_create (segment_name (wm_active_segment w + 1))
                     (sync_data (wm_active_name w) (wm_files w)),
       wm_active_segment := wm_active_segment w + 1, wm_active_offset := 0\<rparr>"

definition reserve_append :: "u64 \<Rightarrow> (wal_manager, wal_append) action" where
  "reserve_append encoded_len w =
     (if encoded_len > wm_segment_bytes w then (Err (CorruptWal ''record larger than wal segment''), w)
      else
        let w = (if wm_active_offset w > 0 \<and> wm_active_offset w + encoded_len > wm_segment_bytes w
                 then rotate_segment w else w)
        in (Ok \<lparr>wa_start_lsn = wal_position w, wa_end_lsn = wal_position w + encoded_len\<rparr>, w))"

definition write_encoded :: "wal_append \<Rightarrow> byte list \<Rightarrow> (wal_manager, unit) action" where
  "write_encoded ap encoded w =
     (if length encoded > unat (wm_segment_bytes w) then (Err (CorruptWal ''record larger than wal segment''), w)
      else
        let w = (if wal_position w \<noteq> wa_start_lsn ap \<and> wm_active_offset w > 0 \<and>
                    wm_active_offset w + word_of_nat (length encoded) > wm_segment_bytes w
                 then rotate_segment w else w)
        in if wal_position w \<noteq> wa_start_lsn ap
           then (Err (CorruptWal ''record lsn does not match write position''), w)
           else (Ok (), w\<lparr>wm_files := write_all_at (wm_active_name w) (unat (wm_active_offset w)) encoded (wm_files w),
                          wm_active_offset := wm_active_offset w + word_of_nat (length encoded),
                          wm_written_lsn := wa_end_lsn ap,
                          wm_prev_lsn := wa_start_lsn ap\<rparr>))"

definition wal_append_record ::
    "crc_fn \<Rightarrow> wal_record_kind \<Rightarrow> tx_id \<Rightarrow> byte list \<Rightarrow> (wal_manager, wal_append) action" where
  "wal_append_record crc kind tx_id payload =
     abind (alift (\<lambda>_. ok_or (CorruptWal ''record length overflow'')
                         (checked_add_usize WAL_HEADER_LEN (length payload)))) (\<lambda>encoded_len.
     abind (reserve_append (word_of_nat encoded_len)) (\<lambda>ap.
     abind (alift (\<lambda>w. wal_encode crc
        \<lparr>wr_lsn = wa_start_lsn ap, wr_prev_lsn = wm_prev_lsn w, wr_tx_id = tx_id, wr_kind = kind,
         wr_payload = payload\<rparr>)) (\<lambda>encoded.
     abind (write_encoded ap encoded) (\<lambda>_.
     areturn ap))))"

definition wal_flush :: "(wal_manager, lsn) action" where
  "wal_flush w =
     (Ok (wm_written_lsn w),
      w\<lparr>wm_files := sync_data (wm_active_name w) (wm_files w), wm_durable_lsn := wm_written_lsn w\<rparr>)"

text \<open>Removal of a segment that is already gone is not an error; it still counts.\<close>

definition prune_segments_below :: "u64 \<Rightarrow> wal_manager \<Rightarrow> nat \<times> wal_manager" where
  "prune_segments_below segment w =
     (if segment = 0 then (0, w)
      else
        let victims = filter (\<lambda>c. c < segment \<and> c < wm_active_segment w) (segment_numbers (wm_files w))
        in (length victims,
            w\<lparr>wm_files := fold (\<lambda>c fs. AList.delete (segment_name c) fs) victims (wm_files w)\<rparr>))"

definition prune_segments_below_checkpoint_lsn :: "lsn \<Rightarrow> wal_manager \<Rightarrow> (nat \<times> wal_manager) result" where
  "prune_segments_below_checkpoint_lsn checkpoint_lsn w =
     rbind (segment_for_lsn checkpoint_lsn (wm_segment_bytes w)) (\<lambda>keep_segment.
     Ok (prune_segments_below keep_segment w))"

section \<open>Records laid out in a segment\<close>

definition images :: "crc_fn \<Rightarrow> wal_record list \<Rightarrow> byte list" where
  "images crc rs = concat (map (wal_image crc) rs)"

text \<open>
  \<open>placed sb k off rs\<close>: the records follow one another from offset \<open>off\<close> of segment \<open>k\<close>, each
  carries the position it stands at, and the last one ends inside the segment.
\<close>

fun placed :: "u64 \<Rightarrow> nat \<Rightarrow> nat \<Rightarrow> wal_record list \<Rightarrow> bool" where
  "placed sb k off [] \<longleftrightarrow> True"
| "placed sb k off (r # rs) \<longleftrightarrow>
     length (wr_payload r) \<le> 4294967295 \<and> off + wal_encoded_len r \<le> unat sb \<and>
     wr_lsn r = word_of_nat ((k - 1) * unat sb + off) \<and> placed sb k (off + wal_encoded_len r) rs"

lemma images_simps [simp]:
  "images crc [] = []"
  "images crc (r # rs) = wal_image crc r @ images crc rs"
  "images crc (rs @ rs') = images crc rs @ images crc rs'"
  by (simp_all add: images_def)

lemma placed_append:
  "placed sb k off (rs @ rs') \<longleftrightarrow> placed sb k off rs \<and> placed sb k (off + length (images crc rs)) rs'"
  by (induction rs arbitrary: off) (simp_all add: add.assoc)

lemma placed_end: "placed sb k off rs \<Longrightarrow> off \<le> unat sb \<Longrightarrow> off + length (images crc rs) \<le> unat sb"
  by (induction rs arbitrary: off) (auto simp: add.assoc [symmetric])

lemma segment_base_bound:
  assumes "1 \<le> k" and "k * unat (sb :: u64) \<le> 2 ^ 64" and "off < unat sb"
  shows "(k - 1) * unat sb + off < 2 ^ 64"
proof -
  have "(k - 1) * unat sb + unat sb = k * unat sb"
    using assms(1) by (cases k) simp_all
  then show ?thesis using assms(2,3) by linarith
qed

lemma segment_number_bound:
  assumes "k * unat (sb :: u64) \<le> 2 ^ 64" and "48 \<le> unat sb" shows "k < 2 ^ 60"
proof (rule ccontr)
  assume "\<not> k < 2 ^ 60"
  then have "2 ^ 60 * 48 \<le> k * unat sb" using assms(2) by (intro mult_le_mono) simp_all
  then show False using assms(1) by simp
qed

lemma validate_record_position_ok:
  assumes "1 \<le> k" and "k * unat sb \<le> 2 ^ 64" and "off < unat sb" and "48 \<le> unat sb"
    and "wr_lsn r = word_of_nat ((k - 1) * unat sb + off)"
  shows "validate_record_position r (word_of_nat k) (word_of_nat off) sb = Ok ()"
proof -
  define m where "m = k - 1"
  have seg: "(word_of_nat k - 1 :: u64) = word_of_nat m" using assms(1) by (simp add: m_def of_nat_diff)
  have pos: "m * unat sb + off < 2 ^ 64" unfolding m_def by (rule segment_base_bound) fact+
  have "k < 2 ^ 60" by (rule segment_number_bound) fact+
  then have u1: "unat (word_of_nat m :: u64) = m" by (intro unat_u64_of_nat) (simp add: m_def)
  have u: "unat (word_of_nat (m * unat sb) :: u64) = m * unat sb" "unat (word_of_nat off :: u64) = off"
    by (rule unat_u64_of_nat, use pos in linarith)+
  have "m * unat sb < 2 ^ 64" using pos by linarith
  then have "checked_mul_u64 (word_of_nat m) sb = Some (word_of_nat (m * unat sb))"
    by (simp add: checked_mul_u64_def u1)
  moreover have "checked_add_u64 (word_of_nat (m * unat sb)) (word_of_nat off) = Some (word_of_nat (m * unat sb + off))"
    using pos by (simp only: checked_add_u64_def u if_True of_nat_add)
  ultimately show ?thesis using assms(5) [folded m_def] by (simp add: validate_record_position_def seg)
qed

text \<open>One step of the scan over an intact record.\<close>

lemma scan_step:
  assumes fits: "length (wr_payload r) \<le> 4294967295" and len: "wal_encoded_len r \<le> unat sb"
    and pos: "validate_record_position r seg (word_of_nat off) sb = Ok ()"
    and off: "off = length pre" and ub: "length (pre @ wal_image crc r @ rest) < usize_bound"
  shows "scan_file crc sb seg (pre @ wal_image crc r @ rest) is_last False off acc =
    scan_file crc sb seg (pre @ wal_image crc r @ rest) is_last False (off + wal_encoded_len r) (acc @ [r])"
proof -
  define c where "c = pre @ wal_image crc r @ rest"
  define h where "h = wal_header_image (crc (wal_header_image 0 r @ wr_payload r)) r"
  have img: "wal_image crc r = h @ wr_payload r" and lh: "length h = 48"
    by (simp_all add: h_def wal_image_def)
  have n: "wal_encoded_len r = 48 + length (wr_payload r)" by (simp add: wal_encoded_len_def)
  have hd: "bslice c off 48 = h" and tl: "bslice c (off + 48) (length (wr_payload r)) = wr_payload r"
    using off lh by (simp_all add: c_def img bslice_def)
  have rd: "read_u32 h 12 = Ok (word_of_nat (length (wr_payload r)))"
    by (simp add: read_u32_in h_def usize_bound_def wal_header_slices)
  have u: "unat (word_of_nat (length (wr_payload r)) :: u32) = length (wr_payload r)"
    using fits by (intro unat_u32_of_nat) simp
  have dec: "wal_decode crc (h @ wr_payload r) = Ok r"
    using wal_decode_image [OF fits, of "[]" crc] ub by (simp add: img [symmetric] n)
  have lc: "length c = off + wal_encoded_len r + length rest" using off by (simp add: c_def)
  have ca: "checked_add_usize 48 (length (wr_payload r)) = Some (48 + length (wr_payload r))"
    using ub by (simp add: n checked_add_usize_def)
  show ?thesis
    unfolding c_def [symmetric]
    by (subst scan_file.simps) (use len pos in \<open>simp add: Let_def hd rd u ca lc n tl dec\<close>)
qed

lemma scan_images:
  assumes "placed sb k off rs" and "off = length pre" and "1 \<le> k" and "k * unat sb \<le> 2 ^ 64" and "48 \<le> unat sb"
    and "length (pre @ images crc rs @ t) < usize_bound"
  shows "scan_file crc sb (word_of_nat k) (pre @ images crc rs @ t) is_last False off acc =
    scan_file crc sb (word_of_nat k) (pre @ images crc rs @ t) is_last False (off + length (images crc rs)) (acc @ rs)"
  using assms(1,2,6)
proof (induction rs arbitrary: off pre acc)
  case (Cons r rs)
  have "0 < wal_encoded_len r" by (simp add: wal_encoded_len_def)
  then have "validate_record_position r (word_of_nat k) (word_of_nat off) sb = Ok ()"
    using Cons.prems(1) assms(3-5) by (intro validate_record_position_ok) auto
  then have "scan_file crc sb (word_of_nat k) (pre @ wal_image crc r @ images crc rs @ t) is_last False off acc =
      scan_file crc sb (word_of_nat k) (pre @ wal_image crc r @ images crc rs @ t) is_last False
        (off + wal_encoded_len r) (acc @ [r])"
    using Cons.prems by (intro scan_step) auto
  also have "\<dots> = scan_file crc sb (word_of_nat k) (pre @ wal_image crc r @ images crc rs @ t) is_last False
        (off + wal_encoded_len r + length (images crc rs)) (acc @ r # rs)"
    using Cons.IH [of "off + wal_encoded_len r" "pre @ wal_image crc r" "acc @ [r]"] Cons.prems by simp
  finally show ?case by (simp add: add.assoc)
qed simp

text \<open>A whole segment, and a segment whose last record was torn.\<close>

lemma scan_whole_segment:
  assumes "placed sb k 0 rs" and "1 \<le> k" and "k * unat sb \<le> 2 ^ 64" and "48 \<le> unat sb"
  shows "scan_file crc sb (word_of_nat k) (images crc rs) is_last False 0 acc = Ok (acc @ rs, False)"
proof -
  have "length (images crc rs) \<le> unat sb" using placed_end [OF assms(1)] by simp
  then have "length (images crc rs) < usize_bound"
    using unat_word_bound [of sb] by (simp add: usize_bound_def)
  then have "scan_file crc sb (word_of_nat k) (images crc rs) is_last False 0 acc =
      scan_file crc sb (word_of_nat k) (images crc rs) is_last False (length (images crc rs)) (acc @ rs)"
    using scan_images [OF assms(1), of "[]" crc "[]"] assms by simp
  then show ?thesis by (simp add: scan_file.simps [of _ _ _ _ _ _ "length (images crc rs)"])
qed

definition torn_of :: "crc_fn \<Rightarrow> wal_record \<Rightarrow> byte list \<Rightarrow> bool" where
  "torn_of crc r t \<longleftrightarrow> t \<noteq> [] \<and> length t < wal_encoded_len r \<and> t = take (length t) (wal_image crc r)"

lemma scan_torn_tail:
  assumes torn: "torn_of crc r t" and fits: "length (wr_payload r) \<le> 4294967295"
    and off: "off = length pre" and ub: "length (pre @ t) < usize_bound"
  shows "scan_file crc sb seg (pre @ t) is_last False off acc =
    (if is_last then Ok (acc, True)
     else if length t < 48 then Err (CorruptWal ''partial record header before final tail'')
     else if wal_encoded_len r > unat sb then Err (CorruptWal ''record length exceeds segment size'')
     else Err (CorruptWal ''partial record body before final tail''))"
proof -
  have t: "t \<noteq> []" "length t < wal_encoded_len r" "t = take (length t) (wal_image crc r)"
    using torn by (simp_all add: torn_of_def)
  define c where "c = pre @ t"
  have rd: "read_u32 (bslice c off 48) 12 = Ok (word_of_nat (length (wr_payload r)))" if "48 \<le> length t"
  proof -
    have "take 48 t = take 48 (wal_image crc r)" using t(3) that by (metis min.absorb1 take_take)
    also have "\<dots> = wal_header_image (crc (wal_header_image 0 r @ wr_payload r)) r"
      by (simp add: wal_image_def)
    finally have "bslice c off 48 = wal_header_image (crc (wal_header_image 0 r @ wr_payload r)) r"
      using off by (simp add: c_def bslice_def)
    then show ?thesis by (simp add: read_u32_in usize_bound_def wal_header_slices)
  qed
  have u: "unat (word_of_nat (length (wr_payload r)) :: u32) = length (wr_payload r)"
    using fits by (intro unat_u32_of_nat) simp
  have ca: "checked_add_usize 48 (length (wr_payload r)) = Some (wal_encoded_len r)"
    using fits by (simp add: checked_add_usize_def wal_encoded_len_def usize_bound_def)
  have lc: "length c = off + length t" using off by (simp add: c_def)
  show ?thesis
    unfolding c_def [symmetric] using t(1,2) by (subst scan_file.simps) (simp add: Let_def rd u ca lc)
qed

section \<open>A directory that holds a log\<close>

lemma segment_name_inj: "segment_name a = segment_name b \<longleftrightarrow> a = b"
  by (metis option.inject parse_segment_name_eq)

definition nth_segment :: "nat \<Rightarrow> string" where
  "nth_segment k = segment_name (word_of_nat k)"

lemma nth_segment_inj:
  "j < 2 ^ 64 \<Longrightarrow> k < 2 ^ 64 \<Longrightarrow> nth_segment j = nth_segment k \<longleftrightarrow> j = k"
  by (simp only: nth_segment_def segment_name_inj word_unat_eq_iff unat_u64_of_nat)

lemma segment_name_nth: "segment_name k = nth_segment (unat k)"
  by (simp add: nth_segment_def)

text \<open>
  Segments \<open>first\<close>, \<open>first + 1\<close>, ... are present and hold the record lists \<open>segs\<close>; after the
  records of the newest segment come the bytes \<open>tail\<close>. Positions fit 64 bits.
\<close>

definition log_dir :: "crc_fn \<Rightarrow> u64 \<Rightarrow> nat \<Rightarrow> wal_record list list \<Rightarrow> byte list \<Rightarrow> wal_files \<Rightarrow> bool" where
  "log_dir crc sb first segs tail fs \<longleftrightarrow>
     distinct (map fst fs) \<and> 48 \<le> unat sb \<and> unat sb < 2 ^ 62 \<and> 1 \<le> first \<and> segs \<noteq> [] \<and>
     (first + length segs - 1) * unat sb \<le> 2 ^ 64 \<and>
     (\<forall>k. map_of fs (segment_name k) \<noteq> None \<longleftrightarrow> first \<le> unat k \<and> unat k < first + length segs) \<and>
     (\<forall>i<length segs. placed sb (first + i) 0 (segs ! i)) \<and>
     (\<forall>i<length segs. map_option df_bytes (map_of fs (nth_segment (first + i))) =
        Some (images crc (segs ! i) @ (if Suc i = length segs then tail else [])))"

lemma log_dirD:
  assumes "log_dir crc sb first segs tail fs"
  shows "distinct (map fst fs)" "48 \<le> unat sb" "unat sb < 2 ^ 62" "1 \<le> first" "segs \<noteq> []"
    "(first + length segs - 1) * unat sb \<le> 2 ^ 64"
    "map_of fs (segment_name k) \<noteq> None \<longleftrightarrow> first \<le> unat k \<and> unat k < first + length segs"
    "i < length segs \<Longrightarrow> placed sb (first + i) 0 (segs ! i)"
    "i < length segs \<Longrightarrow> map_option df_bytes (map_of fs (nth_segment (first + i))) =
        Some (images crc (segs ! i) @ (if Suc i = length segs then tail else []))"
  using assms unfolding log_dir_def by blast+

lemma log_dir_numbers:
  assumes "log_dir crc sb first segs tail fs"
  shows "first + length segs < 2 ^ 61" and "first + i < first + length segs \<Longrightarrow> (first + i) * unat sb \<le> 2 ^ 64"
    and "k < first + length segs \<Longrightarrow> unat (word_of_nat k :: u64) = k"
proof -
  note d = log_dirD [OF assms]
  have "first + length segs - 1 < 2 ^ 60" by (rule segment_number_bound [OF d(6) d(2)])
  then show n: "first + length segs < 2 ^ 61" by simp
  show "unat (word_of_nat k :: u64) = k" if "k < first + length segs"
    using that n by (intro unat_u64_of_nat) simp
  show "(first + i) * unat sb \<le> 2 ^ 64" if "first + i < first + length segs"
  proof -
    have "(first + i) * unat sb \<le> (first + length segs - 1) * unat sb"
      using that by (intro mult_le_mono1) simp
    with d(6) show ?thesis by linarith
  qed
qed

lemma set_map_filter: "set (List.map_filter f xs) = {y. \<exists>x\<in>set xs. f x = Some y}"
  by (induction xs) (auto simp: map_filter_simps split: option.splits)

lemma set_segment_numbers: "set (segment_numbers fs) = {k. map_of fs (segment_name k) \<noteq> None}"
  by (simp add: segment_numbers_def set_map_filter parse_segment_name_eq map_of_eq_None_iff)

lemma distinct_segment_numbers: "distinct (map fst fs) \<Longrightarrow> distinct (segment_numbers fs)"
proof -
  have "distinct xs \<Longrightarrow> distinct (List.map_filter parse_segment_name xs)" for xs
    by (induction xs) (auto simp: map_filter_simps set_map_filter parse_segment_name_eq split: option.splits)
  then show "distinct (map fst fs) \<Longrightarrow> distinct (segment_numbers fs)" by (simp add: segment_numbers_def)
qed

lemma segment_numbers_cong:
  assumes "distinct (map fst fs)" and "distinct (map fst fs')"
    and "\<And>n. map_of fs n \<noteq> None \<longleftrightarrow> map_of fs' n \<noteq> None"
  shows "segment_numbers fs = segment_numbers fs'"
proof (rule sorted_distinct_set_unique)
  show "sorted (segment_numbers fs)" "sorted (segment_numbers fs')" by (simp_all add: segment_numbers_def)
  show "distinct (segment_numbers fs)" "distinct (segment_numbers fs')"
    using assms(1,2) by (simp_all add: distinct_segment_numbers)
  show "set (segment_numbers fs) = set (segment_numbers fs')" unfolding set_segment_numbers assms(3) ..
qed

lemma sorted_words: "n < 2 ^ 64 \<Longrightarrow> sorted (map (word_of_nat :: nat \<Rightarrow> u64) [m..<n])"
proof (rule sorted_wrt_map_mono [OF sorted_wrt_upt])
  fix x y :: nat
  assume "n < 2 ^ 64" and "x \<in> set [m..<n]" "y \<in> set [m..<n]" "x < y"
  then show "(word_of_nat x :: u64) \<le> word_of_nat y"
    by (simp add: word_le_nat_alt unat_of_nat)
qed

lemma segment_numbers_log:
  assumes "log_dir crc sb first segs tail fs"
  shows "segment_numbers fs = map word_of_nat [first..<first + length segs]"
proof (rule sorted_distinct_set_unique)
  note d = log_dirD [OF assms] and n = log_dir_numbers [OF assms]
  have bound: "first + length segs < 2 ^ 64" using n(1) by simp
  show "sorted (segment_numbers fs)" by (simp add: segment_numbers_def)
  show "distinct (segment_numbers fs)" by (rule distinct_segment_numbers [OF d(1)])
  show "sorted (map (word_of_nat :: nat \<Rightarrow> u64) [first..<first + length segs])" by (rule sorted_words [OF bound])
  have "inj_on (word_of_nat :: nat \<Rightarrow> u64) {first..<first + length segs}"
    by (rule inj_on_inverseI [of _ unat]) (use n(3) in auto)
  then show "distinct (map (word_of_nat :: nat \<Rightarrow> u64) [first..<first + length segs])"
    by (simp add: distinct_map)
  show "set (segment_numbers fs) = set (map word_of_nat [first..<first + length segs])"
  proof
    show "set (segment_numbers fs) \<subseteq> set (map word_of_nat [first..<first + length segs])"
    proof
      fix k assume "k \<in> set (segment_numbers fs)"
      then have "first \<le> unat k" "unat k < first + length segs" using d(7) by (auto simp: set_segment_numbers)
      then have "unat k \<in> {first..<first + length segs}" by simp
      then have "(word_of_nat (unat k) :: u64) \<in> word_of_nat ` {first..<first + length segs}" by (rule imageI)
      then show "k \<in> set (map word_of_nat [first..<first + length segs])" by simp
    qed
  qed (use d(7) n(3) in \<open>auto simp: set_segment_numbers\<close>)
qed

text \<open>What a tail may be: nothing, or the torn start of a record.\<close>

definition tail_ok :: "crc_fn \<Rightarrow> byte list \<Rightarrow> bool" where
  "tail_ok crc t \<longleftrightarrow> t = [] \<or> (\<exists>r. torn_of crc r t \<and> length (wr_payload r) \<le> 4294967295)"

lemma scan_last_segment:
  assumes "placed sb k 0 rs" and "1 \<le> k" and "k * unat sb \<le> 2 ^ 64" and "48 \<le> unat sb" and "unat sb < 2 ^ 62"
    and "tail_ok crc t"
  shows "scan_file crc sb (word_of_nat k) (images crc rs @ t) True False 0 acc = Ok (acc @ rs, t \<noteq> [])"
proof (cases "t = []")
  case True
  then show ?thesis using scan_whole_segment [OF assms(1-4)] by simp
next
  case False
  then obtain r where r: "torn_of crc r t" "length (wr_payload r) \<le> 4294967295"
    using assms(6) by (auto simp: tail_ok_def)
  have "length (images crc rs) \<le> unat sb" using placed_end [OF assms(1)] by simp
  moreover have "length t < 2 ^ 40" using r by (simp add: torn_of_def wal_encoded_len_def)
  ultimately have ub: "length (images crc rs @ t) < usize_bound"
    using assms(5) by (simp add: usize_bound_def)
  then have "scan_file crc sb (word_of_nat k) (images crc rs @ t) True False 0 acc =
      scan_file crc sb (word_of_nat k) (images crc rs @ t) True False (length (images crc rs)) (acc @ rs)"
    using scan_images [OF assms(1), of "[]" crc t] assms(2-4) by simp
  also have "\<dots> = Ok (acc @ rs, True)" using scan_torn_tail [OF r refl ub] by simp
  finally show ?thesis using False by simp
qed

lemma scan_segments_log:
  assumes dir: "log_dir crc sb first segs tail fs" and tail: "tail_ok crc tail" and "i < length segs"
  shows "scan_segments crc sb fs (map word_of_nat [first + i..<first + length segs]) False acc =
    Ok (acc @ concat (drop i segs), tail \<noteq> [])"
  using assms(3)
proof (induction "length segs - Suc i" arbitrary: i acc)
  case 0
  note d = log_dirD [OF dir] and n = log_dir_numbers [OF dir]
  have last: "Suc i = length segs" using 0 by simp
  then have seg: "[first + i..<first + length segs] = [first + i]" and drop: "drop i segs = [segs ! i]"
    by (simp_all add: upt_rec Cons_nth_drop_Suc [symmetric])
  obtain f where f: "map_of fs (nth_segment (first + i)) = Some f"
    "df_bytes f = images crc (segs ! i) @ tail"
    using d(9) [OF 0(2)] last by auto
  then show ?case
    unfolding nth_segment_def
    using scan_last_segment [OF d(8) [OF 0(2)] _ n(2) d(2,3) tail] d(4) 0(2)
    by (simp add: seg drop)
next
  case (Suc m)
  note d = log_dirD [OF dir] and n = log_dir_numbers [OF dir]
  have i: "Suc i < length segs" using Suc.hyps(2) by simp
  then have seg: "[first + i..<first + length segs] = (first + i) # [first + Suc i..<first + length segs]"
    and more: "map word_of_nat [first + Suc i..<first + length segs] \<noteq> []"
    and drop: "drop i segs = segs ! i # drop (Suc i) segs"
    by (simp_all add: upt_rec Cons_nth_drop_Suc)
  obtain f where f: "map_of fs (nth_segment (first + i)) = Some f"
    "df_bytes f = images crc (segs ! i)"
    using d(9) [OF Suc.prems] i by auto
  have "scan_segments crc sb fs (map word_of_nat [first + Suc i..<first + length segs]) False (acc @ segs ! i) =
      Ok (acc @ segs ! i @ concat (drop (Suc i) segs), tail \<noteq> [])"
    using Suc.hyps(1) [of "Suc i" "acc @ segs ! i"] Suc.hyps(2) i by simp
  then show ?case
    using scan_whole_segment [OF d(8) [OF Suc.prems] _ n(2) d(2)] d(4) Suc.prems f [unfolded nth_segment_def] more
    by (simp add: seg drop del: upt_Suc)
qed

lemma scan_report_log:
  assumes "log_dir crc (wc_segment_bytes config) first segs tail fs" and "tail_ok crc tail"
    and "validate_config config = Ok ()"
  shows "scan_report crc config fs =
    Ok \<lparr>sr_records = concat segs, sr_valid_end_lsn = records_end_lsn (concat segs), sr_torn_tail = (tail \<noteq> [])\<rparr>"
  using scan_segments_log [OF assms(1,2), of 0 "[]"] log_dirD(5) [OF assms(1)] assms(3)
  by (simp add: scan_report_def segment_numbers_log [OF assms(1)])

section \<open>The log under appends\<close>

lemma nth_last: "Suc i = length xs \<Longrightarrow> xs ! i = last xs"
  by (cases xs rule: rev_cases) auto

lemma map_of_update_eq: "map_of (AList.update k v fs) n = (if n = k then Some v else map_of fs n)"
  by (simp add: AList.update_conv')

text \<open>Replacing the newest segment, adding an empty one, and syncing one.\<close>

lemma log_dir_replace_last:
  assumes dir: "log_dir crc sb first segs tail fs" and "placed sb (first + length segs - 1) 0 rs"
    and "df_bytes f = images crc rs @ tail'"
  shows "log_dir crc sb first (butlast segs @ [rs]) tail'
    (AList.update (nth_segment (first + length segs - 1)) f fs)"
proof -
  note d = log_dirD [OF dir] and n = log_dir_numbers [OF dir]
  let ?k = "first + length segs - 1" let ?fs = "AList.update (nth_segment ?k) f fs"
  have len: "length (butlast segs @ [rs]) = length segs" using d(5) by simp
  have eq: "?k = first + i" if "Suc i = length segs" for i using that by linarith
  have pos: "first \<le> ?k" "?k < first + length segs" using d(5) by (cases segs; simp)+
  have same: "nth_segment (first + i) = nth_segment ?k \<longleftrightarrow> Suc i = length segs"
    if "i < length segs" for i
    using that n(1) by (subst nth_segment_inj) auto
  have nth: "(butlast segs @ [rs]) ! i = (if Suc i = length segs then rs else segs ! i)" if "i < length segs" for i
    using that by (auto simp: nth_append nth_butlast)
  show ?thesis
    unfolding log_dir_def len
  proof (intro conjI allI impI)
    show "map_of ?fs (segment_name k) \<noteq> None \<longleftrightarrow> first \<le> unat k \<and> unat k < first + length segs" for k
      using d(7) [of k] pos unat_word_bound [of k] n(1)
      by (auto simp: map_of_update_eq segment_name_nth nth_segment_inj)
    show "placed sb (first + i) 0 ((butlast segs @ [rs]) ! i)" if "i < length segs" for i
      using that d(8) [OF that] assms(2) eq [of i] by (cases "Suc i = length segs") (simp_all add: nth)
    show "map_option df_bytes (map_of ?fs (nth_segment (first + i))) =
        Some (images crc ((butlast segs @ [rs]) ! i) @ (if Suc i = length segs then tail' else []))"
      if "i < length segs" for i
      using that d(9) [OF that] assms(3)
      by (cases "Suc i = length segs") (auto simp add: map_of_update_eq same nth simp del: One_nat_def)
  qed (use d in \<open>simp_all add: distinct_update\<close>)
qed

lemma log_dir_new_segment:
  assumes dir: "log_dir crc sb first segs [] fs" and room: "(first + length segs) * unat sb \<le> 2 ^ 64"
  shows "log_dir crc sb first (segs @ [[]]) []
    (open_rw_create (nth_segment (first + length segs)) fs)"
proof -
  note d = log_dirD [OF dir] and n = log_dir_numbers [OF dir]
  let ?k = "first + length segs"
  have k: "unat (word_of_nat ?k :: u64) = ?k" using n(1) by (intro unat_u64_of_nat) simp
  then have "map_of fs (nth_segment ?k) = None"
    using d(7) [of "word_of_nat ?k"] by (simp add: nth_segment_def)
  then have new: "open_rw_create (nth_segment ?k) fs =
      AList.update (nth_segment ?k) empty_file fs"
    by (simp add: open_rw_create_def)
  have other: "nth_segment (first + i) = nth_segment ?k \<longleftrightarrow> i = length segs"
    if "i < Suc (length segs)" for i
    using that n(1) by (subst nth_segment_inj) auto
  show ?thesis
    unfolding log_dir_def new
  proof (intro conjI allI impI)
    show "map_of (AList.update (nth_segment ?k) empty_file fs) (segment_name k) \<noteq> None \<longleftrightarrow>
        first \<le> unat k \<and> unat k < first + length (segs @ [[]])" for k
      using d(7) [of k] unat_word_bound [of k] n(1)
      by (auto simp: map_of_update_eq segment_name_nth nth_segment_inj)
    show "placed sb (first + i) 0 ((segs @ [[]]) ! i)" if "i < length (segs @ [[]])" for i
      using that d(8) [of i] by (cases "i = length segs") (auto simp: nth_append)
    show "map_option df_bytes (map_of (AList.update (nth_segment ?k) empty_file fs)
          (nth_segment (first + i))) =
        Some (images crc ((segs @ [[]]) ! i) @ (if Suc i = length (segs @ [[]]) then [] else []))"
      if "i < length (segs @ [[]])" for i
      using that d(9) [of i] other [of i]
      by (cases "i = length segs") (auto simp: map_of_update_eq nth_append empty_file_def)
  qed (use d room in \<open>simp_all add: distinct_update\<close>)
qed

lemma log_dir_same_bytes:
  assumes "log_dir crc sb first segs tail fs" and "distinct (map fst fs')"
    and "\<And>n. map_option df_bytes (map_of fs' n) = map_option df_bytes (map_of fs n)"
  shows "log_dir crc sb first segs tail fs'"
proof -
  have present: "map_of fs' n \<noteq> None \<longleftrightarrow> map_of fs n \<noteq> None" for n
    using assms(3) [of n] by (cases "map_of fs n"; cases "map_of fs' n") auto
  show ?thesis using assms(1,2) unfolding log_dir_def assms(3) present by blast
qed

lemma sync_data_bytes: "map_option df_bytes (map_of (sync_data name fs) n) = map_option df_bytes (map_of fs n)"
  by (auto simp: sync_data_def map_of_update_eq split: option.splits)

lemma distinct_sync_data: "distinct (map fst fs) \<Longrightarrow> distinct (map fst (sync_data name fs))"
  by (simp add: sync_data_def distinct_update split: option.splits)

lemma log_dir_sync: "log_dir crc sb first segs tail fs \<Longrightarrow> log_dir crc sb first segs tail (sync_data name fs)"
  by (rule log_dir_same_bytes) (auto simp: sync_data_bytes intro: distinct_sync_data dest: log_dirD(1))

section \<open>Invariant of the manager\<close>

definition wal_inv :: "crc_fn \<Rightarrow> wal_manager \<Rightarrow> nat \<Rightarrow> wal_record list list \<Rightarrow> bool" where
  "wal_inv crc w first segs \<longleftrightarrow>
     validate_config (wm_config w) = Ok () \<and>
     log_dir crc (wm_segment_bytes w) first segs [] (wm_files w) \<and>
     wm_active_segment w = word_of_nat (first + length segs - 1) \<and>
     unat (wm_active_offset w) = length (images crc (last segs))"

lemma wal_invD:
  assumes "wal_inv crc w first segs"
  shows "validate_config (wm_config w) = Ok ()" "log_dir crc (wm_segment_bytes w) first segs [] (wm_files w)"
    "wm_active_segment w = word_of_nat (first + length segs - 1)"
    "unat (wm_active_offset w) = length (images crc (last segs))"
  using assms by (simp_all add: wal_inv_def)

lemma wal_inv_offset:
  assumes "wal_inv crc w first segs" shows "unat (wm_active_offset w) \<le> unat (wm_segment_bytes w)"
proof -
  note i = wal_invD [OF assms] and d = log_dirD [OF wal_invD(2) [OF assms]]
  have "placed (wm_segment_bytes w) (first + (length segs - 1)) 0 (last segs)"
    using d(8) [of "length segs - 1"] d(5) by (simp add: last_conv_nth)
  then show ?thesis using placed_end [of _ _ 0] i(4) by simp
qed

lemma wal_position_inv:
  assumes "wal_inv crc w first segs"
  shows "wal_position w = word_of_nat ((first + length segs - 2) * unat (wm_segment_bytes w) + length (images crc (last segs)))"
proof -
  note i = wal_invD [OF assms] and d = log_dirD [OF wal_invD(2) [OF assms]]
  obtain m where m: "first + length segs = Suc (Suc m)" using d(4,5) by (cases first; cases segs) auto
  have "wm_active_offset w = word_of_nat (length (images crc (last segs)))"
    using i(4) [symmetric] by simp
  then show ?thesis using m by (simp add: wal_position_def i(3))
qed

lemma wal_inv_rotate:
  assumes inv: "wal_inv crc w first segs" and "(first + length segs) * unat (wm_segment_bytes w) \<le> 2 ^ 64"
  shows "wal_inv crc (rotate_segment w) first (segs @ [[]])"
proof -
  note i = wal_invD [OF inv] and d = log_dirD [OF wal_invD(2) [OF inv]]
  have next_seg: "wm_active_segment w + 1 = word_of_nat (first + length segs)"
    using d(4) i(3) by (simp add: of_nat_diff)
  have "log_dir crc (wm_segment_bytes w) first (segs @ [[]]) []
      (open_rw_create (nth_segment (first + length segs)) (sync_data (wm_active_name w) (wm_files w)))"
    using assms(2) by (intro log_dir_new_segment log_dir_sync i(2))
  then show ?thesis using i(1) next_seg by (simp add: wal_inv_def rotate_segment_def nth_segment_def)
qed

lemma write_all_at_end:
  "map_of fs name = Some f \<Longrightarrow> off = length (df_bytes f) \<Longrightarrow>
     write_all_at name off bs fs = AList.update name (f\<lparr>df_bytes := df_bytes f @ bs\<rparr>) fs"
  by (simp add: write_all_at_def Let_def)

definition wal_written :: "wal_append \<Rightarrow> byte list \<Rightarrow> wal_manager \<Rightarrow> wal_manager" where
  "wal_written ap encoded w =
     w\<lparr>wm_files := write_all_at (wm_active_name w) (unat (wm_active_offset w)) encoded (wm_files w),
       wm_active_offset := wm_active_offset w + word_of_nat (length encoded),
       wm_written_lsn := wa_end_lsn ap, wm_prev_lsn := wa_start_lsn ap\<rparr>"

lemma write_encoded_at:
  "wa_start_lsn ap = wal_position w \<Longrightarrow> length encoded \<le> unat (wm_segment_bytes w) \<Longrightarrow>
     write_encoded ap encoded w = (Ok (), wal_written ap encoded w)"
  by (simp add: write_encoded_def wal_written_def Let_def)

lemma wal_inv_written:
  assumes inv: "wal_inv crc w first segs" and fits: "length (wr_payload r) \<le> 4294967295"
    and lsn: "wr_lsn r = wal_position w"
    and room: "unat (wm_active_offset w) + wal_encoded_len r \<le> unat (wm_segment_bytes w)"
  shows "wal_inv crc (wal_written ap (wal_image crc r) w) first (butlast segs @ [last segs @ [r]])"
proof -
  note i = wal_invD [OF inv] and d = log_dirD [OF wal_invD(2) [OF inv]]
  let ?k = "first + length segs - 1" let ?l = "length segs - 1"
  have l: "?l < length segs" "Suc ?l = length segs" "first + ?l = ?k" "segs ! ?l = last segs"
    using d(5) by (cases segs; simp add: last_conv_nth)+
  have placed: "placed (wm_segment_bytes w) ?k 0 (last segs @ [r])"
    using d(8) [OF l(1)] l(3,4) fits room lsn wal_position_inv [OF inv] i(4)
    by (simp add: placed_append [where crc = crc] diff_diff_left numeral_2_eq_2)
  obtain f where f: "map_of (wm_files w) (wm_active_name w) = Some f" "df_bytes f = images crc (last segs)"
    using d(9) [OF l(1)] i(3) by (auto simp: l nth_segment_def simp del: One_nat_def)
  have "log_dir crc (wm_segment_bytes w) first (butlast segs @ [last segs @ [r]]) []
      (AList.update (nth_segment ?k) (f\<lparr>df_bytes := df_bytes f @ wal_image crc r\<rparr>) (wm_files w))"
    using f(2) placed by (intro log_dir_replace_last [OF i(2)]) simp_all
  moreover have "write_all_at (wm_active_name w) (unat (wm_active_offset w)) (wal_image crc r) (wm_files w) =
      AList.update (nth_segment ?k) (f\<lparr>df_bytes := df_bytes f @ wal_image crc r\<rparr>) (wm_files w)"
    using write_all_at_end [OF f(1)] f(2) i(3,4) by (simp add: nth_segment_def)
  moreover have "unat (wm_active_offset w + word_of_nat (wal_encoded_len r)) = unat (wm_active_offset w) + wal_encoded_len r"
    using room d(3) unat_word_bound [of "wm_segment_bytes w"]
    by (simp add: unat_word_ariths unat_of_nat)
  ultimately show ?thesis
    using i d(5) by (simp add: wal_inv_def wal_written_def)
qed

section \<open>The synced part of the log\<close>

text \<open>
  The synced part of the log: every segment but the newest is synced in full, the newest up to
  and including its first \<open>m\<close> records.
\<close>

definition synced_upto :: "crc_fn \<Rightarrow> wal_manager \<Rightarrow> nat \<Rightarrow> wal_record list list \<Rightarrow> nat \<Rightarrow> bool" where
  "synced_upto crc w first segs m \<longleftrightarrow>
     m \<le> length (last segs) \<and>
     (\<forall>i<length segs. \<exists>f. map_of (wm_files w) (nth_segment (first + i)) = Some f \<and>
        df_synced f = images crc (if Suc i = length segs then take m (segs ! i) else segs ! i))"

lemma synced_uptoD:
  assumes "synced_upto crc w first segs m"
  shows "m \<le> length (last segs)"
    and "i < length segs \<Longrightarrow> \<exists>f. map_of (wm_files w) (nth_segment (first + i)) = Some f \<and>
        df_synced f = images crc (if Suc i = length segs then take m (segs ! i) else segs ! i)"
  using assms by (auto simp: synced_upto_def)

text \<open>At least the first \<open>n\<close> records of the log survive a crash.\<close>

definition durable_records :: "crc_fn \<Rightarrow> wal_manager \<Rightarrow> nat \<Rightarrow> wal_record list list \<Rightarrow> nat \<Rightarrow> bool" where
  "durable_records crc w first segs n \<longleftrightarrow>
     (\<exists>m. synced_upto crc w first segs m \<and> n \<le> length (concat (butlast segs)) + m)"

lemma concat_butlast_last: "segs \<noteq> [] \<Longrightarrow> concat segs = concat (butlast segs) @ last segs"
  by (metis append_butlast_last_id concat.simps(1) concat.simps(2) concat_append append_Nil2)

lemma durable_records_le:
  "segs \<noteq> [] \<Longrightarrow> durable_records crc w first segs n \<Longrightarrow> n \<le> length (concat segs)"
  by (auto simp: durable_records_def synced_upto_def concat_butlast_last [of segs] simp del: length_concat)

lemma sync_data_synced:
  "map_of (sync_data name fs) n =
     (if n = name then map_option (\<lambda>f. f\<lparr>df_synced := df_bytes f\<rparr>) (map_of fs n) else map_of fs n)"
  by (auto simp: sync_data_def map_of_update_eq split: option.splits)

lemma write_all_at_synced:
  "map_option df_synced (map_of (write_all_at name off bs fs) n) = map_option df_synced (map_of fs n)"
  by (auto simp: write_all_at_def map_of_update_eq Let_def split: option.splits)

text \<open>Syncing the active segment makes every record durable.\<close>

lemma synced_active:
  assumes inv: "wal_inv crc w first segs" and sync: "synced_upto crc w first segs m" and i: "i < length segs"
  shows "\<exists>f. map_of (sync_data (wm_active_name w) (wm_files w)) (nth_segment (first + i)) = Some f \<and>
    df_synced f = images crc (segs ! i)"
proof -
  note d = log_dirD [OF wal_invD(2) [OF inv]] and n = log_dir_numbers [OF wal_invD(2) [OF inv]]
  have last: "nth_segment (first + i) = wm_active_name w \<longleftrightarrow> Suc i = length segs"
    unfolding wal_invD(3) [OF inv] nth_segment_def [symmetric]
    using i n(1) by (subst nth_segment_inj) auto
  obtain f where f: "map_of (wm_files w) (nth_segment (first + i)) = Some f" "df_bytes f = images crc (segs ! i)"
    "df_synced f = images crc (if Suc i = length segs then take m (segs ! i) else segs ! i)"
    using d(9) [OF i] synced_uptoD(2) [OF sync i] by auto
  then show ?thesis by (cases "Suc i = length segs") (simp_all add: sync_data_synced last)
qed

lemma synced_rotate:
  assumes inv: "wal_inv crc w first segs" and sync: "synced_upto crc w first segs m"
  shows "synced_upto crc (rotate_segment w) first (segs @ [[]]) 0"
proof -
  note d = log_dirD [OF wal_invD(2) [OF inv]] and n = log_dir_numbers [OF wal_invD(2) [OF inv]]
  let ?k = "first + length segs" let ?fs = "sync_data (wm_active_name w) (wm_files w)"
  have next_seg: "segment_name (wm_active_segment w + 1) = nth_segment ?k"
    using d(4) wal_invD(3) [OF inv] by (simp add: of_nat_diff nth_segment_def)
  have "unat (word_of_nat ?k :: u64) = ?k" using n(1) by (intro unat_u64_of_nat) simp
  then have "map_of (wm_files w) (nth_segment ?k) = None" using d(7) [of "word_of_nat ?k"] by (simp add: nth_segment_def)
  then have "map_of ?fs (nth_segment ?k) = None" by (simp only: sync_data_synced option.map if_cancel)
  then have files: "wm_files (rotate_segment w) = AList.update (nth_segment ?k) empty_file ?fs"
    by (simp add: rotate_segment_def next_seg open_rw_create_def)
  have other: "nth_segment (first + i) = nth_segment ?k \<longleftrightarrow> i = length segs" if "i \<le> length segs" for i
    using that n(1) by (subst nth_segment_inj) auto
  show ?thesis
    unfolding synced_upto_def files
  proof (intro conjI allI impI)
    fix i assume "i < length (segs @ [[]])"
    then show "\<exists>f. map_of (AList.update (nth_segment ?k) empty_file ?fs) (nth_segment (first + i)) = Some f \<and>
        df_synced f = images crc (if Suc i = length (segs @ [[]]) then take 0 ((segs @ [[]]) ! i) else (segs @ [[]]) ! i)"
      using synced_active [OF inv sync, of i] other [of i]
      by (cases "i = length segs") (auto simp: map_of_update_eq nth_append empty_file_def)
  qed simp
qed

lemma synced_written:
  assumes "synced_upto crc w first segs m" and "segs \<noteq> []"
  shows "synced_upto crc (wal_written ap bs w) first (butlast segs @ [last segs @ [r]]) m"
proof -
  have files: "map_option df_synced (map_of (wm_files (wal_written ap bs w)) n) =
      map_option df_synced (map_of (wm_files w) n)" for n
    by (simp add: wal_written_def write_all_at_synced)
  have nth: "(butlast segs @ [last segs @ [r]]) ! i = (if Suc i = length segs then segs ! i @ [r] else segs ! i)"
    if "i < length segs" for i
    using that by (auto simp: nth_append nth_butlast nth_last)
  show ?thesis
    unfolding synced_upto_def
  proof (intro conjI allI impI)
    fix i assume "i < length (butlast segs @ [last segs @ [r]])"
    then have i: "i < length segs" using assms(2) by simp
    obtain f where "map_of (wm_files w) (nth_segment (first + i)) = Some f"
      and f: "df_synced f = images crc (if Suc i = length segs then take m (segs ! i) else segs ! i)"
      using synced_uptoD(2) [OF assms(1) i] by blast
    then obtain f' where "map_of (wm_files (wal_written ap bs w)) (nth_segment (first + i)) = Some f'"
      "df_synced f' = df_synced f"
      using files [of "nth_segment (first + i)"] by auto
    moreover have "Suc i = length segs \<Longrightarrow> m \<le> length (segs ! i)"
      using synced_uptoD(1) [OF assms(1)] by (simp add: nth_last)
    ultimately show "\<exists>f. map_of (wm_files (wal_written ap bs w)) (nth_segment (first + i)) = Some f \<and>
        df_synced f = images crc (if Suc i = length (butlast segs @ [last segs @ [r]])
          then take m ((butlast segs @ [last segs @ [r]]) ! i) else (butlast segs @ [last segs @ [r]]) ! i)"
      using f assms(2) by (simp add: nth [OF i])
  qed (use synced_uptoD(1) [OF assms(1)] in simp)
qed

lemma durable_written:
  assumes "durable_records crc w first segs n" and "segs \<noteq> []"
  shows "durable_records crc (wal_written ap bs w) first (butlast segs @ [last segs @ [r]]) n"
proof -
  obtain m where "synced_upto crc w first segs m" "n \<le> length (concat (butlast segs)) + m"
    using assms(1) by (auto simp: durable_records_def)
  then show ?thesis
    unfolding durable_records_def by (intro exI [of _ m]) (simp add: synced_written [OF _ assms(2)])
qed

section \<open>One append\<close>

definition appended_record :: "wal_append \<Rightarrow> wal_manager \<Rightarrow> wal_record_kind \<Rightarrow> tx_id \<Rightarrow> byte list \<Rightarrow> wal_record" where
  "appended_record ap w kind tx_id payload =
     \<lparr>wr_lsn = wa_start_lsn ap, wr_prev_lsn = wm_prev_lsn w, wr_tx_id = tx_id, wr_kind = kind, wr_payload = payload\<rparr>"

lemma wal_encoded_len_appended [simp]: "wal_encoded_len (appended_record ap w kind tx payload) = 48 + length payload"
  by (simp add: wal_encoded_len_def appended_record_def)

text \<open>The manager after the rotation that an append of \<open>n\<close> bytes may need.\<close>

definition wal_make_room :: "nat \<Rightarrow> wal_manager \<Rightarrow> wal_manager" where
  "wal_make_room n w =
     (if 0 < unat (wm_active_offset w) \<and> unat (wm_segment_bytes w) < unat (wm_active_offset w) + n
      then rotate_segment w else w)"

lemma rotate_segment_simps [simp]:
  "wm_config (rotate_segment w) = wm_config w" "wm_prev_lsn (rotate_segment w) = wm_prev_lsn w"
  "wm_written_lsn (rotate_segment w) = wm_written_lsn w" "wm_active_offset (rotate_segment w) = 0"
  by (simp_all add: rotate_segment_def)

lemma wal_make_room_simps [simp]:
  "wm_config (wal_make_room n w) = wm_config w" "wm_prev_lsn (wal_make_room n w) = wm_prev_lsn w"
  by (simp_all add: wal_make_room_def)

lemma wal_make_room_inv:
  assumes inv: "wal_inv crc w first segs" and room: "(first + length segs) * unat (wm_segment_bytes w) \<le> 2 ^ 64"
  obtains ss where "wal_inv crc (wal_make_room n w) first ss" and "concat ss = concat segs"
    and "length ss \<le> Suc (length segs)"
    and "\<And>k. durable_records crc w first segs k \<Longrightarrow> durable_records crc (wal_make_room n w) first ss k"
proof (cases "wal_make_room n w = w")
  case True
  then show ?thesis using inv by (intro that [of segs]) auto
next
  case False
  then have v: "wal_make_room n w = rotate_segment w" by (auto simp: wal_make_room_def)
  have "durable_records crc (rotate_segment w) first (segs @ [[]]) k" if "durable_records crc w first segs k" for k
    using that durable_records_le [OF log_dirD(5) [OF wal_invD(2) [OF inv]] that] synced_rotate [OF inv]
    by (auto simp: durable_records_def simp del: length_concat)
  with wal_inv_rotate [OF inv room] show ?thesis by (intro that [of "segs @ [[]]"]) (simp_all add: v)
qed

lemma wal_make_room_fits:
  "n \<le> unat (wm_segment_bytes w) \<Longrightarrow>
     unat (wm_active_offset (wal_make_room n w)) + n \<le> unat (wm_segment_bytes w)"
  by (auto simp: wal_make_room_def)

lemma word_add_less_iff:
  assumes "unat (a :: u64) < 2 ^ 63" and "n < 2 ^ 63" shows "s < a + word_of_nat n \<longleftrightarrow> unat s < unat a + n"
  using assms by (simp add: word_less_nat_alt unat_word_ariths unat_of_nat)

lemma wal_append_run:
  assumes inv: "wal_inv crc w first segs" and room: "(first + length segs) * unat (wm_segment_bytes w) \<le> 2 ^ 64"
    and fits: "length payload \<le> 4294967295" and small: "48 + length payload \<le> unat (wm_segment_bytes w)"
  defines "v \<equiv> wal_make_room (48 + length payload) w"
  defines "ap \<equiv> \<lparr>wa_start_lsn = wal_position v, wa_end_lsn = wal_position v + word_of_nat (48 + length payload)\<rparr>"
  shows "wal_append_record crc kind tx payload w =
    (Ok ap, wal_written ap (wal_image crc (appended_record ap w kind tx payload)) v)"
proof -
  let ?n = "48 + length payload" let ?r = "appended_record ap w kind tx payload"
  have sb: "unat (wm_segment_bytes w) < 2 ^ 62" using log_dirD(3) [OF wal_invD(2) [OF inv]] .
  have off: "unat (wm_active_offset w) < 2 ^ 63" using wal_inv_offset [OF inv] sb by simp
  have n: "?n < 2 ^ 63" using fits by simp
  have nw: "unat (word_of_nat ?n :: u64) = ?n" using n by (intro unat_u64_of_nat) simp
  have len: "checked_add_usize 48 (length payload) = Some ?n"
    using fits by (simp add: checked_add_usize_def usize_bound_def)
  have v: "(if wm_active_offset w > 0 \<and> wm_active_offset w + word_of_nat ?n > wm_segment_bytes w
      then rotate_segment w else w) = v"
    using word_add_less_iff [OF off n, of "wm_segment_bytes w"] unat_gt_0 [of "wm_active_offset w"]
    by (simp add: v_def wal_make_room_def word_gt_0 del: of_nat_add)
  have "\<not> wm_segment_bytes w < word_of_nat ?n" using small nw by (simp only: word_less_nat_alt not_less)
  then have reserve: "reserve_append (word_of_nat ?n) w = (Ok ap, v)"
    unfolding reserve_append_def v by (simp add: ap_def Let_def)
  have enc: "wal_encode crc \<lparr>wr_lsn = wa_start_lsn ap, wr_prev_lsn = wm_prev_lsn v, wr_tx_id = tx, wr_kind = kind,
      wr_payload = payload\<rparr> = Ok (wal_image crc ?r)"
    using fits by (simp add: wal_encode_eq appended_record_def v_def)
  have wr: "write_encoded ap (wal_image crc ?r) v = (Ok (), wal_written ap (wal_image crc ?r) v)"
    by (rule write_encoded_at) (use small in \<open>simp_all add: ap_def v_def\<close>)
  show ?thesis
    unfolding wal_append_record_def
    by (simp add: abind_def alift_def areturn_def len reserve enc wr del: of_nat_add)
qed

text \<open>
  An append of a record that fits a segment succeeds, keeps the invariant and adds exactly
  that record at the end of the log.
\<close>

lemma wal_append_inv:
  assumes inv: "wal_inv crc w first segs" and room: "(first + length segs) * unat (wm_segment_bytes w) \<le> 2 ^ 64"
    and fits: "length payload \<le> 4294967295" and small: "48 + length payload \<le> unat (wm_segment_bytes w)"
  obtains ap w' segs' where "wal_append_record crc kind tx payload w = (Ok ap, w')"
    and "wal_inv crc w' first segs'" and "concat segs' = concat segs @ [appended_record ap w kind tx payload]"
    and "length segs' \<le> Suc (length segs)" and "wm_config w' = wm_config w"
    and "wm_prev_lsn w' = wa_start_lsn ap" and "wm_written_lsn w' = wa_end_lsn ap"
    and "wa_end_lsn ap = wa_start_lsn ap + word_of_nat (48 + length payload)"
    and "\<And>n. durable_records crc w first segs n \<Longrightarrow> durable_records crc w' first segs' n"
proof -
  define v where "v = wal_make_room (48 + length payload) w"
  define ap where "ap = \<lparr>wa_start_lsn = wal_position v, wa_end_lsn = wal_position v + word_of_nat (48 + length payload)\<rparr>"
  let ?r = "appended_record ap w kind tx payload"
  let ?w = "wal_written ap (wal_image crc ?r) v"
  obtain ss where ss: "wal_inv crc v first ss" "concat ss = concat segs" "length ss \<le> Suc (length segs)"
    "\<And>n. durable_records crc w first segs n \<Longrightarrow> durable_records crc v first ss n"
    unfolding v_def using wal_make_room_inv [OF inv room] by metis
  have ne: "ss \<noteq> []" using log_dirD(5) [OF wal_invD(2) [OF ss(1)]] .
  have inv': "wal_inv crc ?w first (butlast ss @ [last ss @ [?r]])"
    using wal_make_room_fits [OF small] fits by (intro wal_inv_written [OF ss(1)]) (simp_all add: appended_record_def ap_def v_def wal_encoded_len_def)
  have recs: "concat (butlast ss @ [last ss @ [?r]]) = concat segs @ [?r]"
    using ss(2) append_butlast_last_id [OF ne] by (metis append.assoc concat.simps(1) concat.simps(2) concat_append append_Nil2)
  have len: "length (butlast ss @ [last ss @ [?r]]) \<le> Suc (length segs)" using ss(3) ne by simp
  have dur: "durable_records crc ?w first (butlast ss @ [last ss @ [?r]]) n" if "durable_records crc w first segs n" for n
    by (rule durable_written [OF ss(4) [OF that] ne])
  note run = wal_append_run [OF inv room fits small, of kind tx, folded v_def, folded ap_def]
  show ?thesis
    by (rule that [OF run inv' recs len _ _ _ _ dur]) (simp_all add: wal_written_def v_def ap_def)
qed

section \<open>Sequences of appends\<close>

type_synonym wal_op = "wal_record_kind \<times> tx_id \<times> byte list"

fun append_all :: "crc_fn \<Rightarrow> wal_op list \<Rightarrow> (wal_manager, wal_append list) action" where
  "append_all crc [] = areturn []"
| "append_all crc ((kind, tx, payload) # ops) =
     abind (wal_append_record crc kind tx payload) (\<lambda>ap.
     abind (append_all crc ops) (\<lambda>aps. areturn (ap # aps)))"

definition op_fits :: "u64 \<Rightarrow> wal_op \<Rightarrow> bool" where
  "op_fits sb op \<longleftrightarrow> length (snd (snd op)) \<le> 4294967295 \<and> 48 + length (snd (snd op)) \<le> unat sb"

definition op_of :: "wal_record \<Rightarrow> wal_op" where
  "op_of r = (wr_kind r, wr_tx_id r, wr_payload r)"

text \<open>Each record names the position of its predecessor.\<close>

fun chained :: "lsn \<Rightarrow> wal_record list \<Rightarrow> bool" where
  "chained prev [] \<longleftrightarrow> True"
| "chained prev (r # rs) \<longleftrightarrow> wr_prev_lsn r = prev \<and> chained (wr_lsn r) rs"

definition appended :: "wal_manager \<Rightarrow> wal_op list \<Rightarrow> wal_append list \<Rightarrow> wal_record list \<Rightarrow> wal_manager \<Rightarrow> bool" where
  "appended w ops aps rs w' \<longleftrightarrow>
     map op_of rs = ops \<and> map wr_lsn rs = map wa_start_lsn aps \<and> chained (wm_prev_lsn w) rs \<and>
     wm_config w' = wm_config w \<and>
     wm_written_lsn w' = (if rs = [] then wm_written_lsn w else records_end_lsn rs)"

lemma append_all_inv:
  assumes "wal_inv crc w first segs" and "(first + length segs + length ops) * unat (wm_segment_bytes w) \<le> 2 ^ 64"
    and "list_all (op_fits (wm_segment_bytes w)) ops"
  shows "\<exists>aps w' segs' rs. append_all crc ops w = (Ok aps, w') \<and> wal_inv crc w' first segs' \<and>
    concat segs' = concat segs @ rs \<and> length segs' \<le> length segs + length ops \<and> appended w ops aps rs w' \<and>
    (\<forall>n. durable_records crc w first segs n \<longrightarrow> durable_records crc w' first segs' n)"
  using assms
proof (induction ops arbitrary: w segs)
  case Nil
  then show ?case by (intro exI [of _ "[]"] exI [of _ w] exI [of _ segs]) (simp add: areturn_def appended_def)
next
  case (Cons op ops)
  obtain kind tx payload where op: "op = (kind, tx, payload)" by (cases op) auto
  have "(first + length segs) * unat (wm_segment_bytes w) \<le> 2 ^ 64"
    using Cons.prems(2) by (rule le_trans [rotated]) (intro mult_le_mono1, simp)
  moreover have "length payload \<le> 4294967295" "48 + length payload \<le> unat (wm_segment_bytes w)"
    using Cons.prems(3) by (simp_all add: op op_fits_def)
  ultimately obtain ap v segs1 where a: "wal_append_record crc kind tx payload w = (Ok ap, v)"
    "wal_inv crc v first segs1" "concat segs1 = concat segs @ [appended_record ap w kind tx payload]"
    "length segs1 \<le> Suc (length segs)" "wm_config v = wm_config w" "wm_prev_lsn v = wa_start_lsn ap"
    "wm_written_lsn v = wa_end_lsn ap" "wa_end_lsn ap = wa_start_lsn ap + word_of_nat (48 + length payload)"
    "\<And>n. durable_records crc w first segs n \<Longrightarrow> durable_records crc v first segs1 n"
    using wal_append_inv [OF Cons.prems(1)] by metis
  have "(first + length segs1 + length ops) * unat (wm_segment_bytes v) \<le> 2 ^ 64"
    using Cons.prems(2) unfolding a(5) by (rule le_trans [rotated]) (intro mult_le_mono1, use a(4) in simp)
  then obtain aps w' segs' rs where b: "append_all crc ops v = (Ok aps, w')" "wal_inv crc w' first segs'"
    "concat segs' = concat segs1 @ rs" "length segs' \<le> length segs1 + length ops" "appended v ops aps rs w'"
    "\<And>n. durable_records crc v first segs1 n \<Longrightarrow> durable_records crc w' first segs' n"
    using Cons.IH [OF a(2)] Cons.prems(3) a(5) by auto
  let ?r = "appended_record ap w kind tx payload"
  have "append_all crc (op # ops) w = (Ok (ap # aps), w')"
    using a(1) b(1) by (simp add: op abind_def areturn_def)
  moreover have "appended w (op # ops) (ap # aps) (?r # rs) w'"
    using b(5) a(5-8) by (auto simp: appended_def op op_of_def appended_record_def records_end_lsn_def wal_encoded_len_def)
  ultimately show ?case
    using b a(3,4,9) by (intro exI [of _ "ap # aps"] exI [of _ w'] exI [of _ segs'] exI [of _ "?r # rs"]) auto
qed

lemma create_with_fs_inv:
  assumes "validate_config config = Ok ()" and "unat (wc_segment_bytes config) < 2 ^ 62"
  obtains w where "create_with_fs config [] = Ok w" and "wal_inv crc w 1 [[]]" and "wm_config w = config"
    and "wm_prev_lsn w = 0" and "wm_written_lsn w = 0"
proof -
  let ?w = "\<lparr>wm_files = open_rw_create (segment_name 1) [], wm_config = config, wm_active_segment = 1,
         wm_active_offset = 0, wm_written_lsn = 0, wm_durable_lsn = 0, wm_prev_lsn = 0\<rparr>"
  have "48 \<le> unat (wc_segment_bytes config)" using assms(1) by (auto simp: validate_config_def split: if_splits)
  then have "log_dir crc (wc_segment_bytes config) 1 [[]] [] (open_rw_create (segment_name 1) [])"
    using assms(2)
    by (auto simp: log_dir_def open_rw_create_def empty_file_def nth_segment_def segment_name_inj word_unat_eq_iff)
  then show ?thesis using assms(1) by (intro that [of ?w]) (simp_all add: create_with_fs_def wal_inv_def)
qed

text \<open>
  C19. A log that was created and then appended to any number of times reads back as exactly
  the records that were appended, in order: kind, transaction and payload of each, at the
  position that the append returned, each linked to its predecessor, with the end of the log
  where the writer left it and no torn tail. Every append succeeds whose record fits a segment.
\<close>

theorem append_all_then_scan:
  assumes "validate_config config = Ok ()" and "unat (wc_segment_bytes config) < 2 ^ 62"
    and "(2 + length ops) * unat (wc_segment_bytes config) \<le> 2 ^ 64"
    and "list_all (op_fits (wc_segment_bytes config)) ops"
  shows "\<exists>w aps w' rs. create_with_fs config [] = Ok w \<and> append_all crc ops w = (Ok aps, w') \<and>
    scan_report crc config (wm_files w') =
      Ok \<lparr>sr_records = rs, sr_valid_end_lsn = wm_written_lsn w', sr_torn_tail = False\<rparr> \<and>
    map op_of rs = ops \<and> map wr_lsn rs = map wa_start_lsn aps \<and> chained 0 rs"
proof -
  obtain w where w: "create_with_fs config [] = Ok w" "wal_inv crc w 1 [[]]" "wm_config w = config"
    "wm_prev_lsn w = 0" "wm_written_lsn w = 0"
    by (rule create_with_fs_inv [OF assms(1,2)])
  obtain aps w' segs' rs where a: "append_all crc ops w = (Ok aps, w')" "wal_inv crc w' 1 segs'"
    "concat segs' = rs" "appended w ops aps rs w'"
    using append_all_inv [OF w(2), of ops] assms(3,4) w(3) by auto
  have "scan_report crc config (wm_files w') =
      Ok \<lparr>sr_records = rs, sr_valid_end_lsn = records_end_lsn rs, sr_torn_tail = False\<rparr>"
    using scan_report_log [of crc "wm_config w'" 1 segs' "[]"] wal_invD(1,2) [OF a(2)] a(3,4) w(3)
    by (simp add: tail_ok_def appended_def)
  then show ?thesis using w a by (auto simp: appended_def records_end_lsn_def)
qed

theorem append_all_then_scan_witness:
  "\<exists>w aps w' rs. create_with_fs wal_config_default [] = Ok w \<and>
     append_all byte_sum [(Kind_Begin, 1, []), (Kind_Commit, 1, [4, 2])] w = (Ok aps, w') \<and>
     scan_report byte_sum wal_config_default (wm_files w') =
       Ok \<lparr>sr_records = rs, sr_valid_end_lsn = wm_written_lsn w', sr_torn_tail = False\<rparr> \<and>
     map op_of rs = [(Kind_Begin, 1, []), (Kind_Commit, 1, [4, 2])] \<and>
     map wr_lsn rs = map wa_start_lsn aps \<and> chained 0 rs"
  by (rule append_all_then_scan)
    (simp_all add: validate_config_def wal_config_default_def op_fits_def)

section \<open>Crashes\<close>

text \<open>
  After a crash a file holds at least what it held at its last sync, and beyond that some
  prefix of what had been written since. Directory entries survive.
\<close>

definition crash_file :: "disk_file \<Rightarrow> disk_file \<Rightarrow> bool" where
  "crash_file f f' \<longleftrightarrow>
     (\<exists>n. length (df_synced f) \<le> n \<and> df_bytes f' = take n (df_bytes f)) \<and> df_synced f' = df_bytes f'"

definition crash_of :: "wal_files \<Rightarrow> wal_files \<Rightarrow> bool" where
  "crash_of fs fs' \<longleftrightarrow> distinct (map fst fs') \<and>
     (\<forall>name. case map_of fs name of None \<Rightarrow> map_of fs' name = None
        | Some f \<Rightarrow> (\<exists>f'. map_of fs' name = Some f' \<and> crash_file f f'))"

lemma crash_ofD:
  assumes "crash_of fs fs'"
  shows "distinct (map fst fs')"
    and "map_of fs name = Some f \<Longrightarrow> \<exists>f'. map_of fs' name = Some f' \<and> crash_file f f'"
    and "map_of fs' name \<noteq> None \<longleftrightarrow> map_of fs name \<noteq> None"
proof -
  have case_name: "case map_of fs name of None \<Rightarrow> map_of fs' name = None
      | Some f \<Rightarrow> (\<exists>f'. map_of fs' name = Some f' \<and> crash_file f f')"
    using assms unfolding crash_of_def by blast
  show "distinct (map fst fs')" using assms unfolding crash_of_def by blast
  show "\<exists>f'. map_of fs' name = Some f' \<and> crash_file f f'" if "map_of fs name = Some f"
    using case_name unfolding that by simp
  show "map_of fs' name \<noteq> None \<longleftrightarrow> map_of fs name \<noteq> None"
    using case_name by (cases "map_of fs name") auto
qed

lemma images_take_prefix: "take (length (images crc (take m rs))) (images crc rs) = images crc (take m rs)"
  using images_simps(3) [of crc "take m rs" "drop m rs"] by simp

text \<open>A prefix of a segment is some of its records followed by nothing or by a torn record.\<close>

lemma take_images:
  assumes "list_all (\<lambda>r. length (wr_payload r) \<le> 4294967295) rs"
  obtains j t where "j \<le> length rs" and "take n (images crc rs) = images crc (take j rs) @ t" and "tail_ok crc t"
    and "\<And>m. length (images crc (take m rs)) \<le> n \<Longrightarrow> m \<le> length rs \<Longrightarrow> m \<le> j"
  using assms
proof (induction rs arbitrary: n thesis)
  case Nil
  then show ?case by (intro Nil(1) [of 0 "[]"]) (simp_all add: tail_ok_def)
next
  case (Cons r rs)
  show ?case
  proof (cases "wal_encoded_len r \<le> n")
    case True
    obtain j t where jt: "j \<le> length rs" "take (n - wal_encoded_len r) (images crc rs) = images crc (take j rs) @ t"
      "tail_ok crc t" "\<And>m. length (images crc (take m rs)) \<le> n - wal_encoded_len r \<Longrightarrow> m \<le> length rs \<Longrightarrow> m \<le> j"
      using Cons.IH [of "n - wal_encoded_len r"] Cons.prems(2) by auto
    have "m \<le> Suc j" if "length (images crc (take m (r # rs))) \<le> n" "m \<le> length (r # rs)" for m
      using that jt(4) [of "m - 1"] True by (cases m) auto
    then show ?thesis using True jt by (intro Cons.prems(1) [of "Suc j" t]) simp_all
  next
    case False
    let ?t = "take n (wal_image crc r)"
    have "tail_ok crc ?t"
      using False Cons.prems(2) by (cases "n = 0") (auto simp: tail_ok_def torn_of_def min_def intro!: exI [of _ r])
    moreover have "m = 0" if "length (images crc (take m (r # rs))) \<le> n" for m
      using that False by (cases m) auto
    ultimately show ?thesis using False by (intro Cons.prems(1) [of 0 ?t]) auto
  qed
qed

lemma placed_payloads: "placed sb k off rs \<Longrightarrow> list_all (\<lambda>r. length (wr_payload r) \<le> 4294967295) rs"
  by (induction rs arbitrary: off) auto

lemma placed_take: "placed sb k off rs \<Longrightarrow> placed sb k off (take j rs)"
  by (induction rs arbitrary: off j) (auto simp: take_Cons split: nat.splits)

lemma crash_log_dir:
  assumes inv: "wal_inv crc w first segs" and sync: "synced_upto crc w first segs m"
    and crash: "crash_of (wm_files w) fs"
  obtains j t where "m \<le> j" and "j \<le> length (last segs)" and "tail_ok crc t"
    and "log_dir crc (wm_segment_bytes w) first (butlast segs @ [take j (last segs)]) t fs"
proof -
  note d = log_dirD [OF wal_invD(2) [OF inv]]
  let ?l = "length segs - 1"
  have l: "?l < length segs" "Suc ?l = length segs" "segs ! ?l = last segs"
    using d(5) by (cases segs; simp add: last_conv_nth)+
  have files: "\<exists>n f'. map_of fs (nth_segment (first + i)) = Some f' \<and>
      length (images crc (if Suc i = length segs then take m (segs ! i) else segs ! i)) \<le> n \<and>
      df_bytes f' = take n (images crc (segs ! i))" if i: "i < length segs" for i
  proof -
    obtain f where f: "map_of (wm_files w) (nth_segment (first + i)) = Some f" "df_bytes f = images crc (segs ! i)"
      "df_synced f = images crc (if Suc i = length segs then take m (segs ! i) else segs ! i)"
      using d(9) [OF i] synced_uptoD(2) [OF sync i] by auto
    obtain f' n where "map_of fs (nth_segment (first + i)) = Some f'" "length (df_synced f) \<le> n"
      "df_bytes f' = take n (df_bytes f)"
      using crash_ofD(2) [OF crash f(1)] unfolding crash_file_def by blast
    then show ?thesis unfolding f(2,3) by blast
  qed
  obtain n f' where last: "map_of fs (nth_segment (first + ?l)) = Some f'"
    "length (images crc (take m (last segs))) \<le> n" "df_bytes f' = take n (images crc (last segs))"
    using files [OF l(1)] l(2,3) by auto
  obtain j t where jt: "j \<le> length (last segs)" "take n (images crc (last segs)) = images crc (take j (last segs)) @ t"
    "tail_ok crc t" "m \<le> j"
    using take_images [OF placed_payloads [OF d(8) [OF l(1)]], unfolded l(3), of n crc] last(2) synced_uptoD(1) [OF sync]
    by metis
  let ?segs = "butlast segs @ [take j (last segs)]"
  have len: "length ?segs = length segs" using d(5) by simp
  have nth: "?segs ! i = (if Suc i = length segs then take j (last segs) else segs ! i)" if "i < length segs" for i
    using that by (auto simp: nth_append nth_butlast)
  have "log_dir crc (wm_segment_bytes w) first ?segs t fs"
    unfolding log_dir_def len
  proof (intro conjI allI impI)
    show "distinct (map fst fs)" by (rule crash_ofD(1) [OF crash])
    show "map_of fs (segment_name k) \<noteq> None \<longleftrightarrow> first \<le> unat k \<and> unat k < first + length segs" for k
      unfolding crash_ofD(3) [OF crash] by (rule d(7))
    show "placed (wm_segment_bytes w) (first + i) 0 (?segs ! i)" if "i < length segs" for i
    proof (cases "Suc i = length segs")
      case True
      then have "segs ! i = last segs" using l(3) by (metis diff_Suc_1)
      with placed_take [OF d(8) [OF that], of j] True show ?thesis by (simp only: nth [OF that] simp_thms if_True)
    qed (use d(8) [OF that] in \<open>simp add: nth [OF that]\<close>)
    show "map_option df_bytes (map_of fs (nth_segment (first + i))) =
        Some (images crc (?segs ! i) @ (if Suc i = length segs then t else []))" if "i < length segs" for i
    proof (cases "Suc i = length segs")
      case True
      then have "i = ?l" by simp
      then show ?thesis using last jt(2) l(2) nth [OF that] by simp
    next
      case False
      then show ?thesis using files [OF that] nth [OF that] by auto
    qed
  qed (use d in simp_all)
  with jt show ?thesis by (intro that)
qed

section \<open>Durability\<close>

lemma wal_flush_durable:
  assumes inv: "wal_inv crc w first segs" and sync: "durable_records crc w first segs n"
  obtains w' where "wal_flush w = (Ok (wm_written_lsn w), w')" and "wal_inv crc w' first segs"
    and "durable_records crc w' first segs (length (concat segs))" and "wm_config w' = wm_config w"
    and "wm_durable_lsn w' = wm_written_lsn w" and "wm_written_lsn w' = wm_written_lsn w" and "wm_prev_lsn w' = wm_prev_lsn w"
proof -
  define w' where "w' = snd (wal_flush w)"
  note d = log_dirD [OF wal_invD(2) [OF inv]]
  have files: "wm_files w' = sync_data (wm_active_name w) (wm_files w)" by (simp add: w'_def wal_flush_def)
  obtain m where m: "synced_upto crc w first segs m" using sync by (auto simp: durable_records_def)
  have "synced_upto crc w' first segs (length (last segs))"
    unfolding synced_upto_def files
  proof (intro conjI allI impI)
    fix i assume i: "i < length segs"
    then show "\<exists>f. map_of (sync_data (wm_active_name w) (wm_files w)) (nth_segment (first + i)) = Some f \<and>
        df_synced f = images crc (if Suc i = length segs then take (length (last segs)) (segs ! i) else segs ! i)"
      using synced_active [OF inv m i] by (auto simp: nth_last)
  qed simp
  then have "durable_records crc w' first segs (length (concat segs))"
    unfolding durable_records_def concat_butlast_last [OF d(5)] length_append by blast
  moreover have "wal_inv crc w' first segs"
    using wal_invD [OF inv] log_dir_sync by (simp add: wal_inv_def w'_def wal_flush_def)
  ultimately show ?thesis by (intro that [of w']) (simp_all add: w'_def wal_flush_def)
qed

lemma create_durable: "create_with_fs config [] = Ok w \<Longrightarrow> durable_records crc w 1 [[]] 0"
  by (auto simp: create_with_fs_def durable_records_def synced_upto_def open_rw_create_def empty_file_def
      nth_segment_def)

text \<open>A crash that keeps \<open>keep name\<close> bytes of a file, or what was synced if that is more.\<close>

definition crash_with :: "(string \<Rightarrow> nat) \<Rightarrow> wal_files \<Rightarrow> wal_files" where
  "crash_with keep fs =
     map (\<lambda>(name, f). let kept = take (max (length (df_synced f)) (keep name)) (df_bytes f)
                      in (name, \<lparr>df_bytes = kept, df_synced = kept\<rparr>)) fs"

lemma crash_of_crash_with: "distinct (map fst fs) \<Longrightarrow> crash_of fs (crash_with keep fs)"
proof -
  have names: "map fst (crash_with keep fs) = map fst fs"
    by (auto simp: crash_with_def Let_def split: prod.splits)
  have "map_of (crash_with keep fs) name = map_option (\<lambda>f. let kept = take (max (length (df_synced f)) (keep name)) (df_bytes f)
      in \<lparr>df_bytes = kept, df_synced = kept\<rparr>) (map_of fs name)" for name
    by (induction fs) (auto simp: crash_with_def Let_def)
  moreover assume "distinct (map fst fs)"
  ultimately show ?thesis
    by (auto simp: crash_of_def crash_file_def names Let_def intro: max.cobounded1 split: option.splits)
qed

lemma crash_scan:
  assumes inv: "wal_inv crc w first segs" and dur: "durable_records crc w first segs n"
    and crash: "crash_of (wm_files w) fs"
  obtains k rep where "scan_report crc (wm_config w) fs = Ok rep" and "sr_records rep = take k (concat segs)" and "n \<le> k"
proof -
  have ne: "segs \<noteq> []" using log_dirD(5) [OF wal_invD(2) [OF inv]] .
  obtain m where m: "synced_upto crc w first segs m" "n \<le> length (concat (butlast segs)) + m"
    using dur by (auto simp: durable_records_def)
  obtain j t where j: "m \<le> j" "tail_ok crc t"
    "log_dir crc (wm_segment_bytes w) first (butlast segs @ [take j (last segs)]) t fs"
    using crash_log_dir [OF inv m(1) crash] by metis
  have "concat (butlast segs @ [take j (last segs)]) = take (length (concat (butlast segs)) + j) (concat segs)"
    by (simp add: concat_butlast_last [OF ne] del: length_concat)
  with that [OF scan_report_log [OF j(3,2) wal_invD(1) [OF inv]], of "length (concat (butlast segs)) + j"] m(2) j(1)
  show ?thesis by (simp del: length_concat concat_append)
qed



section \<open>Opening an existing log\<close>

lemma records_end_lsn_placed:
  assumes "placed sb k off rs" and "rs \<noteq> []"
  shows "records_end_lsn rs = word_of_nat ((k - 1) * unat sb + off + length (images crc rs))"
  using assms
proof (induction rs arbitrary: off)
  case (Cons r rs)
  show ?case
  proof (cases "rs = []")
    case False
    then show ?thesis using Cons.IH [of "off + wal_encoded_len r"] Cons.prems
      by (simp add: records_end_lsn_def add.assoc)
  qed (use Cons.prems in \<open>simp add: records_end_lsn_def\<close>)
qed simp

lemma records_end_lsn_concat:
  "segs \<noteq> [] \<Longrightarrow> last segs \<noteq> [] \<Longrightarrow> records_end_lsn (concat segs) = records_end_lsn (last segs)"
  unfolding concat_butlast_last by (simp add: records_end_lsn_def)

text \<open>The position after the records of segment \<open>k\<close>, which may be the start of the next one.\<close>

lemma position_split:
  assumes "1 \<le> k" and "k * unat sb \<le> 2 ^ 64" and "off < unat (sb :: u64)"
  shows "segment_for_lsn (word_of_nat ((k - 1) * unat sb + off)) sb = Ok (word_of_nat k)"
    and "offset_for_lsn (word_of_nat ((k - 1) * unat sb + off)) sb = Ok (word_of_nat off)"
proof -
  define m where "m = k - 1"
  have pos: "m * unat sb + off < 2 ^ 64" unfolding m_def by (rule segment_base_bound) fact+
  then have u: "unat (word_of_nat (m * unat sb + off) :: u64) = m * unat sb + off" by (rule unat_u64_of_nat)
  have sb: "sb \<noteq> 0" using assms(3) by auto
  have "m \<le> m * unat sb" using assms(3) by simp
  then have m: "m < 2 ^ 64" using pos by linarith
  have "unat (word_of_nat (m * unat sb + off) div sb) = unat (word_of_nat m :: u64)"
    using assms(3) u m by (simp only: unat_div_distrib unat_u64_of_nat) simp
  then have "word_of_nat (m * unat sb + off) div sb = word_of_nat m" by (simp only: word_unat_eq_iff)
  then show "segment_for_lsn (word_of_nat ((k - 1) * unat sb + off)) sb = Ok (word_of_nat k)"
    using assms(1) sb unfolding segment_for_lsn_def m_def [symmetric] by (simp add: m_def of_nat_diff del: of_nat_add of_nat_mult)
  have "unat (word_of_nat (m * unat sb + off) mod sb) = unat (word_of_nat off :: u64)"
    using assms(3) pos by (simp only: unat_mod_distrib u) (simp add: unat_of_nat)
  then have "word_of_nat (m * unat sb + off) mod sb = word_of_nat off" by (simp only: word_unat_eq_iff)
  then show "offset_for_lsn (word_of_nat ((k - 1) * unat sb + off)) sb = Ok (word_of_nat off)"
    using sb unfolding offset_for_lsn_def m_def [symmetric] by simp
qed

lemma open_with_fs_log:
  assumes dir: "log_dir crc (wc_segment_bytes config) first segs tail fs" and "tail_ok crc tail"
    and valid: "validate_config config = Ok ()"
  shows "open_with_fs crc config fs = open_prepared config fs
    \<lparr>os_valid_end_lsn = records_end_lsn (concat segs),
     os_last_record_lsn = (if concat segs = [] then 0 else wr_lsn (last (concat segs)))\<rparr>"
  using scan_report_log [OF assms] valid by (simp add: open_with_fs_def open_summary_def)

lemma set_len_cut:
  "map_of fs name = Some f \<Longrightarrow> df_bytes f = xs @ ys \<Longrightarrow> n = length xs \<Longrightarrow>
     set_len name n fs = AList.update name (f\<lparr>df_bytes := xs\<rparr>) fs"
  by (simp add: set_len_def)

lemma open_inside_segment:
  assumes dir: "log_dir crc (wc_segment_bytes config) first segs tail fs" and tail: "tail_ok crc tail"
    and valid: "validate_config config = Ok ()" and ne: "last segs \<noteq> []"
    and off: "length (images crc (last segs)) < unat (wc_segment_bytes config)"
  shows "\<exists>w. open_with_fs crc config fs = Ok w \<and> wal_inv crc w first segs"
proof -
  note d = log_dirD [OF dir] and nb = log_dir_numbers [OF dir]
  let ?sb = "wc_segment_bytes config" let ?k = "first + length segs - 1" let ?off = "length (images crc (last segs))"
  have l: "length segs - 1 < length segs" "first + (length segs - 1) = ?k" "Suc (length segs - 1) = length segs"
    using d(5) by (cases segs; simp)+
  have pl: "placed ?sb ?k 0 (last segs)" using d(8) [OF l(1)] nth_last [OF l(3)] by (simp only: l(2))
  have "records_end_lsn (concat segs) = word_of_nat ((?k - 1) * unat ?sb + ?off)"
    using records_end_lsn_placed [OF pl ne, of crc] by (simp add: records_end_lsn_concat [OF d(5) ne])
  moreover have "1 \<le> ?k" "?k * unat ?sb \<le> 2 ^ 64" using d(4,5,6) by (cases segs; simp)+
  ultimately have pos: "segment_for_lsn (records_end_lsn (concat segs)) ?sb = Ok (word_of_nat ?k)"
    "offset_for_lsn (records_end_lsn (concat segs)) ?sb = Ok (word_of_nat ?off)"
    using position_split [OF _ _ off, of ?k] by simp_all
  obtain f where f: "map_of fs (nth_segment ?k) = Some f" "df_bytes f = images crc (last segs) @ tail"
    using d(9) [OF l(1)] nth_last [OF l(3)] by (auto simp only: l map_option_eq_Some simp_thms if_True)
  have uo: "unat (word_of_nat ?off :: u64) = ?off"
    using off unat_word_bound [of ?sb] by (intro unat_u64_of_nat) simp
  have files: "set_len (nth_segment ?k) ?off (open_rw_create (nth_segment ?k) fs) =
      AList.update (nth_segment ?k) (f\<lparr>df_bytes := images crc (last segs)\<rparr>) fs"
    using f by (simp add: open_rw_create_def set_len_cut)
  have "log_dir crc ?sb first (butlast segs @ [last segs]) []
      (AList.update (nth_segment ?k) (f\<lparr>df_bytes := images crc (last segs)\<rparr>) fs)"
    using pl by (intro log_dir_replace_last [OF dir]) simp_all
  then show ?thesis
    using valid d(5) uo
    by (simp add: open_with_fs_log [OF dir tail valid] open_prepared_def pos wal_inv_def
        nth_segment_def [symmetric] files del: One_nat_def)
qed

lemma set_len_zero:
  assumes "map_option df_bytes (map_of fs name) = Some []"
  shows "map_option df_bytes (map_of (set_len name 0 fs) n) = map_option df_bytes (map_of fs n)"
    and "distinct (map fst fs) \<Longrightarrow> distinct (map fst (set_len name 0 fs))"
  using assms by (auto simp: set_len_def map_of_update_eq distinct_update split: option.splits)

lemma open_at_boundary:
  assumes dir: "log_dir crc (wc_segment_bytes config) first segs [] fs"
    and valid: "validate_config config = Ok ()" and ne: "last segs \<noteq> []"
    and off: "length (images crc (last segs)) = unat (wc_segment_bytes config)"
    and room: "(first + length segs) * unat (wc_segment_bytes config) \<le> 2 ^ 64"
  shows "\<exists>w. open_with_fs crc config fs = Ok w \<and> wal_inv crc w first (segs @ [[]])"
proof -
  note d = log_dirD [OF dir]
  let ?sb = "wc_segment_bytes config" let ?k = "first + length segs - 1"
  let ?fs = "open_rw_create (nth_segment (first + length segs)) fs"
  have l: "length segs - 1 < length segs" "first + (length segs - 1) = ?k" "Suc (length segs - 1) = length segs"
    using d(5) by (cases segs; simp)+
  have pl: "placed ?sb ?k 0 (last segs)" using d(8) [OF l(1)] nth_last [OF l(3)] by (simp only: l(2))
  obtain m where m: "first + length segs = Suc (Suc m)" using d(4,5) by (cases first; cases segs) auto
  have "records_end_lsn (concat segs) = word_of_nat ((first + length segs - 1) * unat ?sb + 0)"
    using records_end_lsn_placed [OF pl ne, of crc] off m
    by (simp add: records_end_lsn_concat [OF d(5) ne] algebra_simps del: of_nat_Suc)
  then have pos: "segment_for_lsn (records_end_lsn (concat segs)) ?sb = Ok (word_of_nat (first + length segs))"
    "offset_for_lsn (records_end_lsn (concat segs)) ?sb = Ok 0"
    using position_split [of "first + length segs" ?sb 0] room m d(2) by simp_all
  have new: "log_dir crc ?sb first (segs @ [[]]) [] ?fs" by (rule log_dir_new_segment [OF dir room])
  then have "map_option df_bytes (map_of ?fs (nth_segment (first + length segs))) = Some []"
    using log_dirD(9) [OF new, of "length segs"] by simp
  then have "log_dir crc ?sb first (segs @ [[]]) [] (set_len (nth_segment (first + length segs)) 0 ?fs)"
    using log_dirD(1) [OF new] by (intro log_dir_same_bytes [OF new] set_len_zero)
  then show ?thesis
    using valid
    by (simp add: open_with_fs_log [OF dir _ valid] tail_ok_def open_prepared_def pos wal_inv_def
        nth_segment_def [symmetric] del: of_nat_add)
qed

text \<open>
  C10. Opening a log whose newest segment holds an intact record, for instance after a crash in
  the middle of a write, succeeds and drops the torn bytes after the last intact record: the
  opened log satisfies the writer's invariant with exactly the intact records.
\<close>

theorem open_restores_log:
  assumes "log_dir crc (wc_segment_bytes config) first segs tail fs" and "tail_ok crc tail"
    and "validate_config config = Ok ()" and "last segs \<noteq> []"
    and "length (images crc (last segs)) + length tail \<le> unat (wc_segment_bytes config)"
    and "(first + length segs) * unat (wc_segment_bytes config) \<le> 2 ^ 64"
  shows "\<exists>w segs'. open_with_fs crc config fs = Ok w \<and> wal_inv crc w first segs' \<and> concat segs' = concat segs"
proof (cases "length (images crc (last segs)) < unat (wc_segment_bytes config)")
  case True
  then show ?thesis using open_inside_segment [OF assms(1-4)] by blast
next
  case False
  then have "length tail = 0" and full: "length (images crc (last segs)) = unat (wc_segment_bytes config)"
    using assms(5) by linarith+
  then show ?thesis using open_at_boundary [OF _ assms(3,4) full assms(6)] assms(1) by fastforce
qed

definition sample_record :: wal_record where
  "sample_record = \<lparr>wr_lsn = 0, wr_prev_lsn = 0, wr_tx_id = 7, wr_kind = Kind_Begin, wr_payload = [1]\<rparr>"

definition sample_torn :: "byte list" where
  "sample_torn = take 5 (wal_image byte_sum sample_record)"

lemma sample_torn_ok: "tail_ok byte_sum sample_torn" "length sample_torn = 5"
proof -
  show len: "length sample_torn = 5" by (simp add: sample_torn_def wal_encoded_len_def sample_record_def)
  then have "sample_torn \<noteq> []" by auto
  moreover have "5 < wal_encoded_len sample_record" by (simp add: wal_encoded_len_def sample_record_def)
  ultimately have "torn_of byte_sum sample_record sample_torn"
    unfolding torn_of_def len by (simp add: sample_torn_def)
  then show "tail_ok byte_sum sample_torn" by (auto simp: tail_ok_def sample_record_def)
qed

lemma sample_log_dir:
  "log_dir byte_sum (wc_segment_bytes wal_config_default) 1 [[sample_record]] sample_torn
     [(segment_name 1, \<lparr>df_bytes = wal_image byte_sum sample_record @ sample_torn, df_synced = []\<rparr>)]"
  by (auto simp: log_dir_def wal_config_default_def nth_segment_def segment_name_inj word_unat_eq_iff
      sample_record_def wal_encoded_len_def)

theorem open_restores_log_witness:
  "\<exists>w segs'. open_with_fs byte_sum wal_config_default
       [(segment_name 1, \<lparr>df_bytes = wal_image byte_sum sample_record @ sample_torn, df_synced = []\<rparr>)] = Ok w \<and>
     wal_inv byte_sum w 1 segs' \<and> concat segs' = concat [[sample_record]]"
  by (rule open_restores_log [OF sample_log_dir sample_torn_ok(1)])
    (simp_all add: sample_torn_ok(2) validate_config_def wal_config_default_def sample_record_def wal_encoded_len_def)

section \<open>A crash between rotation and write\<close>

lemma open_before_empty_segment:
  assumes dir: "log_dir crc (wc_segment_bytes config) first [rs, []] [] fs"
    and valid: "validate_config config = Ok ()" and ne: "rs \<noteq> []"
    and off: "length (images crc rs) < unat (wc_segment_bytes config)"
  obtains w f where "open_with_fs crc config fs = Ok w" and "wm_active_segment w = word_of_nat first"
    and "unat (wm_active_offset w) = length (images crc rs)"
    and "df_bytes f = images crc rs" and "wm_files w = AList.update (nth_segment first) f fs"
proof -
  note d = log_dirD [OF dir] and nb = log_dir_numbers [OF dir]
  let ?sb = "wc_segment_bytes config"
  have pl: "placed ?sb first 0 rs" using d(8) [of 0] by simp
  have "records_end_lsn rs = word_of_nat ((first - 1) * unat ?sb + length (images crc rs))"
    using records_end_lsn_placed [OF pl ne, of crc] by simp
  moreover have "first * unat ?sb \<le> 2 ^ 64" using nb(2) [of 0] by simp
  ultimately have pos: "segment_for_lsn (records_end_lsn rs) ?sb = Ok (word_of_nat first)"
    "offset_for_lsn (records_end_lsn rs) ?sb = Ok (word_of_nat (length (images crc rs)))"
    using position_split [OF d(4) _ off] by simp_all
  obtain f where f: "map_of fs (nth_segment first) = Some f" "df_bytes f = images crc rs"
    using d(9) [of 0] by auto
  have uo: "unat (word_of_nat (length (images crc rs)) :: u64) = length (images crc rs)"
    using off unat_word_bound [of ?sb] by (intro unat_u64_of_nat) simp
  have "set_len (nth_segment first) (length (images crc rs)) (open_rw_create (nth_segment first) fs) =
      AList.update (nth_segment first) (f\<lparr>df_bytes := images crc rs\<rparr>) fs"
    using f by (simp add: open_rw_create_def set_len_def)
  then have "\<exists>w. open_with_fs crc config fs = Ok w \<and> wm_active_segment w = word_of_nat first \<and>
      unat (wm_active_offset w) = length (images crc rs) \<and>
      wm_files w = AList.update (nth_segment first) (f\<lparr>df_bytes := images crc rs\<rparr>) fs"
    using valid uo
    by (simp add: open_with_fs_log [OF dir _ valid] tail_ok_def open_prepared_def pos nth_segment_def [symmetric])
  then show ?thesis using that [of _ "f\<lparr>df_bytes := images crc rs\<rparr>"] by auto
qed

text \<open>
  C34. A rotation creates the next segment file before the record goes into it. If the process
  stops in between, the newest segment is empty, and opening the log continues in the segment
  before it without removing the empty file. A write that is then torn is not in the last
  segment of the directory, and the log can no longer be read: the torn tail is reported as
  corruption.
\<close>

theorem torn_write_before_empty_segment:
  assumes dir: "log_dir crc (wc_segment_bytes config) first [rs, []] [] fs"
    and valid: "validate_config config = Ok ()" and "rs \<noteq> []"
    and "length (images crc rs) < unat (wc_segment_bytes config)"
    and torn: "torn_of crc r t" and fits: "length (wr_payload r) \<le> 4294967295" and short: "length t < 48"
  shows "\<exists>w. open_with_fs crc config fs = Ok w \<and>
    scan_report crc config (write_all_at (wm_active_name w) (unat (wm_active_offset w)) t (wm_files w)) =
      Err (CorruptWal ''partial record header before final tail'')"
proof -
  note d = log_dirD [OF dir] and nb = log_dir_numbers [OF dir]
  let ?sb = "wc_segment_bytes config"
  obtain w f where w: "open_with_fs crc config fs = Ok w" "wm_active_segment w = word_of_nat first"
    "unat (wm_active_offset w) = length (images crc rs)" "df_bytes f = images crc rs"
    "wm_files w = AList.update (nth_segment first) f fs"
    by (rule open_before_empty_segment [OF dir valid assms(3,4)])
  let ?fs = "write_all_at (wm_active_name w) (unat (wm_active_offset w)) t (wm_files w)"
  have files: "?fs = AList.update (nth_segment first) (f\<lparr>df_bytes := images crc rs @ t\<rparr>) (AList.update (nth_segment first) f fs)"
    using w by (simp add: write_all_at_end [of _ _ f] nth_segment_def [symmetric] map_of_update_eq)
  have k1: "unat (word_of_nat first :: u64) = first" using nb(3) [of first] by simp
  have "map_of ?fs n \<noteq> None \<longleftrightarrow> map_of fs n \<noteq> None" for n
    using d(9) [of 0] by (auto simp: files map_of_update_eq)
  moreover have "distinct (map fst ?fs)" unfolding files by (intro distinct_update d(1))
  ultimately have nums: "segment_numbers ?fs = [word_of_nat first, word_of_nat (Suc first)]"
    using segment_numbers_cong [of ?fs fs] d(1) segment_numbers_log [OF dir] by simp
  have at: "map_of ?fs (segment_name (word_of_nat first)) = Some (f\<lparr>df_bytes := images crc rs @ t\<rparr>)"
    by (simp add: files map_of_update_eq nth_segment_def)
  have "length (images crc rs) + length t < usize_bound"
    using assms(4) d(3) short by (simp add: usize_bound_def)
  then have "scan_file crc ?sb (word_of_nat first) (images crc rs @ t) False False 0 [] =
      Err (CorruptWal ''partial record header before final tail'')"
    using scan_images [OF d(8) [of 0], of "[]" crc t False "[]"] nb(2) [of 0] d(2,4) short
      scan_torn_tail [OF torn fits refl, of "images crc rs"] by simp
  then show ?thesis using w(1) valid by (simp add: scan_report_def nums at)
qed

definition sample_stale_files :: wal_files where
  "sample_stale_files = open_rw_create (segment_name 2)
     [(segment_name 1, \<lparr>df_bytes = wal_image byte_sum sample_record, df_synced = wal_image byte_sum sample_record\<rparr>)]"

lemma sample_stale_dir:
  "log_dir byte_sum (wc_segment_bytes wal_config_default) 1 [[sample_record], []] [] sample_stale_files"
proof -
  have "log_dir byte_sum (wc_segment_bytes wal_config_default) 1 [[sample_record]] []
     [(segment_name 1, \<lparr>df_bytes = wal_image byte_sum sample_record, df_synced = wal_image byte_sum sample_record\<rparr>)]"
    by (auto simp: log_dir_def wal_config_default_def nth_segment_def segment_name_inj word_unat_eq_iff
        sample_record_def wal_encoded_len_def)
  from log_dir_new_segment [OF this] show ?thesis
    by (simp add: sample_stale_files_def nth_segment_def wal_config_default_def)
qed

theorem torn_write_before_empty_segment_witness:
  "\<exists>w. open_with_fs byte_sum wal_config_default sample_stale_files = Ok w \<and>
    scan_report byte_sum wal_config_default
      (write_all_at (wm_active_name w) (unat (wm_active_offset w)) sample_torn (wm_files w)) =
      Err (CorruptWal ''partial record header before final tail'')"
proof (rule torn_write_before_empty_segment [OF sample_stale_dir])
  show "torn_of byte_sum sample_record sample_torn"
  proof -
    have "sample_torn \<noteq> []" using sample_torn_ok(2) by auto
    then show ?thesis unfolding torn_of_def sample_torn_ok(2)
      by (simp add: sample_torn_def wal_encoded_len_def sample_record_def)
  qed
qed (simp_all add: sample_torn_ok(2) validate_config_def wal_config_default_def sample_record_def wal_encoded_len_def)

end
