(* ===== verification/Wal_Policy.thy ===== *)
theory Wal_Policy
  imports Wal_Log
begin

text \<open>
  \<^verbatim>\<open>crates/kernel/src/wal/policy.rs\<close> and \<^verbatim>\<open>wal/combiner.rs\<close>: the scheduling policies of the
  log writer behind one interface, and the pure helpers of the semantic combiner. The interface
  is a locale with the laws that the writer loop relies on; all four policies interpret it.
\<close>

section \<open>Scheduling context\<close>

record wal_schedule_context =
  sc_pending_bytes :: nat
  sc_pending_records :: nat
  sc_flush_gap_bytes :: u64
  sc_configured_write_batch_bytes :: nat
  sc_configured_delay_us :: u64
  sc_configured_max_group_bytes :: u64

definition context_from_config :: "wal_config \<Rightarrow> wal_schedule_context" where
  "context_from_config config =
     \<lparr>sc_pending_bytes = 0, sc_pending_records = 0, sc_flush_gap_bytes = 0,
      sc_configured_write_batch_bytes = wc_wal_write_batch_bytes config,
      sc_configured_delay_us = wc_group_commit_delay_us config,
      sc_configured_max_group_bytes = wc_group_commit_max_batch_bytes config\<rparr>"

definition context_with_pending :: "wal_config \<Rightarrow> nat \<Rightarrow> nat \<Rightarrow> wal_schedule_context" where
  "context_with_pending config pending_bytes pending_records =
     (context_from_config config)\<lparr>sc_pending_bytes := pending_bytes, sc_pending_records := pending_records\<rparr>"

definition context_with_flush_gap :: "wal_config \<Rightarrow> lsn \<Rightarrow> lsn \<Rightarrow> wal_schedule_context" where
  "context_with_flush_gap config flush_target durable =
     (context_from_config config)\<lparr>sc_flush_gap_bytes := saturating_sub_word flush_target durable\<rparr>"

definition saturating_mul_usize :: "nat \<Rightarrow> nat \<Rightarrow> nat" where
  "saturating_mul_usize a b = min (a * b) usize_max"

section \<open>Policies\<close>

definition default_write_batch_bytes :: "wal_schedule_context \<Rightarrow> nat" where
  "default_write_batch_bytes ctx = max (sc_configured_write_batch_bytes ctx) 1"

definition default_group_commit_delay_us :: "wal_schedule_context \<Rightarrow> u64" where
  "default_group_commit_delay_us ctx =
     (if sc_flush_gap_bytes ctx \<ge> sc_configured_max_group_bytes ctx then 0 else sc_configured_delay_us ctx)"

definition default_resample_flush_target :: "wal_schedule_context \<Rightarrow> bool" where
  "default_resample_flush_target ctx = True"

definition default_drain_batch_bytes :: "wal_schedule_context \<Rightarrow> nat" where
  "default_drain_batch_bytes ctx = max (sc_configured_write_batch_bytes ctx) 1"

definition tail_latency_write_batch_bytes :: "wal_schedule_context \<Rightarrow> nat" where
  "tail_latency_write_batch_bytes ctx = max (sc_configured_write_batch_bytes ctx div 4) (64 * 1024)"

definition tail_latency_group_commit_delay_us :: "wal_schedule_context \<Rightarrow> u64" where
  "tail_latency_group_commit_delay_us ctx =
     (if sc_pending_records ctx \<le> 1 then 0 else min (sc_configured_delay_us ctx) 50)"

definition tail_latency_resample_flush_target :: "wal_schedule_context \<Rightarrow> bool" where
  "tail_latency_resample_flush_target ctx \<longleftrightarrow> sc_pending_bytes ctx \<le> sc_configured_write_batch_bytes ctx"

definition tail_latency_drain_batch_bytes :: "wal_schedule_context \<Rightarrow> nat" where
  "tail_latency_drain_batch_bytes ctx = tail_latency_write_batch_bytes ctx"

definition fan_in_write_batch_bytes :: "wal_schedule_context \<Rightarrow> nat" where
  "fan_in_write_batch_bytes ctx =
     (if sc_pending_bytes ctx \<ge> sc_configured_write_batch_bytes ctx
      then min (sc_pending_bytes ctx) (saturating_mul_usize (sc_configured_write_batch_bytes ctx) 4)
      else max (sc_configured_write_batch_bytes ctx) 1)"

definition fan_in_group_commit_delay_us :: "wal_schedule_context \<Rightarrow> u64" where
  "fan_in_group_commit_delay_us ctx =
     (if sc_flush_gap_bytes ctx \<ge> sc_configured_max_group_bytes ctx then 0
      else if sc_pending_records ctx \<ge> 16 then sc_configured_delay_us ctx div 2
      else sc_configured_delay_us ctx)"

definition fan_in_resample_flush_target :: "wal_schedule_context \<Rightarrow> bool" where
  "fan_in_resample_flush_target ctx = True"

definition fan_in_drain_batch_bytes :: "wal_schedule_context \<Rightarrow> nat" where
  "fan_in_drain_batch_bytes ctx =
     max (max (saturating_mul_usize (sc_configured_write_batch_bytes ctx) 2) (sc_configured_write_batch_bytes ctx)) 1"

definition checkpoint_write_batch_bytes :: "wal_schedule_context \<Rightarrow> nat" where
  "checkpoint_write_batch_bytes ctx =
     min (max (saturating_mul_usize (sc_configured_write_batch_bytes ctx) 2) 1) (16 * 1024 * 1024)"

definition checkpoint_group_commit_delay_us :: "wal_schedule_context \<Rightarrow> u64" where
  "checkpoint_group_commit_delay_us ctx =
     (if sc_flush_gap_bytes ctx \<ge> sc_configured_max_group_bytes ctx div 2 then 0 else sc_configured_delay_us ctx)"

definition checkpoint_resample_flush_target :: "wal_schedule_context \<Rightarrow> bool" where
  "checkpoint_resample_flush_target ctx \<longleftrightarrow> sc_pending_bytes ctx > 0 \<or> sc_flush_gap_bytes ctx > 0"

definition checkpoint_drain_batch_bytes :: "wal_schedule_context \<Rightarrow> nat" where
  "checkpoint_drain_batch_bytes ctx = checkpoint_write_batch_bytes ctx"

section \<open>The policy interface\<close>

text \<open>
  The trait \<^verbatim>\<open>WalSchedulePolicy\<close>. With the nonzero write batch of a validated configuration,
  batch limits are positive, so the writer always makes progress, and no policy delays a
  commit longer than configured.
\<close>

locale wal_schedule_policy =
  fixes write_batch_bytes :: "wal_schedule_context \<Rightarrow> nat"
    and group_commit_delay_us :: "wal_schedule_context \<Rightarrow> u64"
    and resample_flush_target :: "wal_schedule_context \<Rightarrow> bool"
    and drain_batch_bytes :: "wal_schedule_context \<Rightarrow> nat"
  assumes write_batch_pos: "0 < sc_configured_write_batch_bytes ctx \<Longrightarrow> 0 < write_batch_bytes ctx"
    and drain_batch_pos: "0 < sc_configured_write_batch_bytes ctx \<Longrightarrow> 0 < drain_batch_bytes ctx"
    and delay_bounded: "group_commit_delay_us ctx \<le> sc_configured_delay_us ctx"
begin

lemma batches_of_valid_config:
  assumes "validate_config config = Ok ()"
  shows "0 < write_batch_bytes (context_with_pending config b n)"
    and "0 < drain_batch_bytes (context_from_config config)"
    and "group_commit_delay_us (context_with_flush_gap config t d) \<le> wc_group_commit_delay_us config"
proof -
  have pos: "0 < wc_wal_write_batch_bytes config"
    using assms by (auto simp: validate_config_def split: if_splits)
  then show "0 < write_batch_bytes (context_with_pending config b n)"
    and "0 < drain_batch_bytes (context_from_config config)"
    by (auto intro!: write_batch_pos drain_batch_pos simp: context_with_pending_def context_from_config_def)
  show "group_commit_delay_us (context_with_flush_gap config t d) \<le> wc_group_commit_delay_us config"
    using delay_bounded [of "context_with_flush_gap config t d"]
    by (simp add: context_with_flush_gap_def context_from_config_def)
qed

end

interpretation sched_default: wal_schedule_policy default_write_batch_bytes default_group_commit_delay_us
  default_resample_flush_target default_drain_batch_bytes
  by unfold_locales (auto simp: default_write_batch_bytes_def default_drain_batch_bytes_def
      default_group_commit_delay_us_def)

interpretation sched_tail: wal_schedule_policy tail_latency_write_batch_bytes tail_latency_group_commit_delay_us
  tail_latency_resample_flush_target tail_latency_drain_batch_bytes
  by unfold_locales (auto simp: tail_latency_write_batch_bytes_def tail_latency_drain_batch_bytes_def
      tail_latency_group_commit_delay_us_def)

lemma usize_max_pos: "0 < usize_max"
  by (simp add: usize_max_def usize_bound_def)

interpretation sched_fan_in: wal_schedule_policy fan_in_write_batch_bytes fan_in_group_commit_delay_us
  fan_in_resample_flush_target fan_in_drain_batch_bytes
proof
  fix ctx :: wal_schedule_context
  assume "0 < sc_configured_write_batch_bytes ctx"
  then show "0 < fan_in_write_batch_bytes ctx" "0 < fan_in_drain_batch_bytes ctx"
    using usize_max_pos
    by (auto simp: fan_in_write_batch_bytes_def fan_in_drain_batch_bytes_def saturating_mul_usize_def)
next
  fix ctx :: wal_schedule_context
  have "sc_configured_delay_us ctx div 2 \<le> sc_configured_delay_us ctx"
    by (simp add: word_le_nat_alt unat_div_distrib)
  then show "fan_in_group_commit_delay_us ctx \<le> sc_configured_delay_us ctx"
    by (simp add: fan_in_group_commit_delay_us_def)
qed

interpretation sched_checkpoint: wal_schedule_policy checkpoint_write_batch_bytes checkpoint_group_commit_delay_us
  checkpoint_resample_flush_target checkpoint_drain_batch_bytes
  by unfold_locales (auto simp: checkpoint_write_batch_bytes_def checkpoint_drain_batch_bytes_def
      checkpoint_group_commit_delay_us_def)



section \<open>The semantic combiner\<close>

record combinable_delta =
  cd_rel_id :: u64
  cd_row_id :: u64
  cd_column :: u32
  cd_delta :: u64

definition targets_match :: "combinable_delta \<Rightarrow> combinable_delta \<Rightarrow> bool" where
  "targets_match a b \<longleftrightarrow> cd_rel_id a = cd_rel_id b \<and> cd_row_id a = cd_row_id b \<and> cd_column a = cd_column b"

text \<open>\<^verbatim>\<open>i64::checked_add\<close> on the two's complement reading of a word.\<close>

definition checked_add_i64 :: "u64 \<Rightarrow> u64 \<Rightarrow> u64 option" where
  "checked_add_i64 a b =
     (if - (2 ^ 63) \<le> sint a + sint b \<and> sint a + sint b < 2 ^ 63 then Some (a + b) else None)"

definition try_merge :: "combinable_delta \<Rightarrow> combinable_delta \<Rightarrow> combinable_delta option" where
  "try_merge a b =
     (if \<not> targets_match a b then None
      else map_option (\<lambda>delta. \<lparr>cd_rel_id = cd_rel_id a, cd_row_id = cd_row_id a, cd_column = cd_column a,
                                cd_delta = delta\<rparr>) (checked_add_i64 (cd_delta a) (cd_delta b)))"

datatype combine_outcome = Folded combinable_delta | Enqueue

definition maybe_combine_pending :: "combinable_delta \<Rightarrow> combinable_delta option \<Rightarrow> combine_outcome" where
  "maybe_combine_pending candidate pending_back =
     (case Option.bind pending_back (\<lambda>pending. try_merge pending candidate) of
        Some merged \<Rightarrow> Folded merged | None \<Rightarrow> Enqueue)"

fun cross_lane_requests :: "(nat \<times> u64) list \<Rightarrow> u64 list \<times> nat \<Rightarrow> u64 list \<times> nat" where
  "cross_lane_requests [] s = s"
| "cross_lane_requests ((lane_idx, target) # rs) (slots, touched) =
     (if lane_idx < length slots then
        let touched' = (if slots ! lane_idx = 0 then touched + 1 else touched);
            slots' = (if target > slots ! lane_idx then slots[lane_idx := target] else slots)
        in cross_lane_requests rs (slots', touched')
      else cross_lane_requests rs (slots, touched))"

definition cross_lane_union :: "(nat \<times> u64) list \<Rightarrow> nat \<Rightarrow> u64 list \<times> nat" where
  "cross_lane_union requests lane_count = cross_lane_requests requests (replicate lane_count 0, 0)"

text \<open>A fold never changes the sum that the two deltas denote.\<close>

lemma try_merge_exact:
  assumes "try_merge a b = Some m"
  shows "sint (cd_delta m) = sint (cd_delta a) + sint (cd_delta b)" and "targets_match a m"
proof -
  have m: "m = \<lparr>cd_rel_id = cd_rel_id a, cd_row_id = cd_row_id a, cd_column = cd_column a,
      cd_delta = cd_delta a + cd_delta b\<rparr>"
    and r: "- (2 ^ 63) \<le> sint (cd_delta a) + sint (cd_delta b)" "sint (cd_delta a) + sint (cd_delta b) < 2 ^ 63"
    using assms by (auto simp: try_merge_def checked_add_i64_def split: if_splits)
  show "sint (cd_delta m) = sint (cd_delta a) + sint (cd_delta b)"
    using r by (simp add: m sint_word_ariths signed_take_bit_int_eq_self)
  show "targets_match a m" by (simp add: m targets_match_def)
qed

text \<open>Each lane's slot ends as the largest target that was requested for it.\<close>

lemma cross_lane_requests_max:
  "length (fst (cross_lane_requests rs (slots, n))) = length slots"
  "i < length slots \<Longrightarrow> fst (cross_lane_requests rs (slots, n)) ! i =
     fold max (map snd (filter (\<lambda>r. fst r = i) rs)) (slots ! i)"
proof (induction rs arbitrary: slots n)
  case (Cons r rs)
  obtain l t where r: "r = (l, t)" by fastforce
  {
    case 1
    then show ?case using Cons.IH(1) by (simp add: r Let_def)
  next
    case 2
    then show ?case
      using Cons.IH(2) [of "slots[l := t]"] Cons.IH(2) [of slots]
      by (cases "t > slots ! l")
        (auto simp: r Let_def nth_list_update max.absorb1 max.absorb2 not_less less_imp_le)
  }
qed simp_all

end
