(* ===== verification/Wal_Payload.thy ===== *)
theory Wal_Payload
  imports Wal_Record
begin

unbundle bit_operations_syntax

text \<open>
  \<^verbatim>\<open>crates/kernel/src/wal/payload.rs\<close>: the payloads of log records. Fixed layouts are written
  into a zeroed buffer, the two recursive ones (logical transactions and combined deltas) are
  appended field by field and read back with a cursor. An \<^verbatim>\<open>i64\<close> and the bits of an \<^verbatim>\<open>f64\<close>
  are 64-bit words.
\<close>

section \<open>Payloads\<close>

definition TAG_HEAP_INSERT :: byte where "TAG_HEAP_INSERT = 1"
definition TAG_HEAP_UPDATE :: byte where "TAG_HEAP_UPDATE = 2"
definition TAG_HEAP_DELETE :: byte where "TAG_HEAP_DELETE = 3"
definition TAG_COMMIT :: byte where "TAG_COMMIT = 4"
definition TAG_PAGE_IMAGE :: byte where "TAG_PAGE_IMAGE = 5"
definition TAG_SEGMENT_SEAL :: byte where "TAG_SEGMENT_SEAL = 6"
definition TAG_BACKUP_BEGIN :: byte where "TAG_BACKUP_BEGIN = 7"
definition TAG_BACKUP_END :: byte where "TAG_BACKUP_END = 8"
definition TAG_TIMELINE_FORK :: byte where "TAG_TIMELINE_FORK = 9"
definition TAG_LOGICAL_TXN :: byte where "TAG_LOGICAL_TXN = 10"
definition TAG_CATALOG_SNAPSHOT :: byte where "TAG_CATALOG_SNAPSHOT = 11"
definition TAG_INDEX_INSERT :: byte where "TAG_INDEX_INSERT = 12"
definition TAG_INDEX_DELETE :: byte where "TAG_INDEX_DELETE = 13"
definition TAG_COMBINED_SEMANTIC_DELTA :: byte where "TAG_COMBINED_SEMANTIC_DELTA = 14"

definition COMBINED_VAL_NULL :: byte where "COMBINED_VAL_NULL = 0"
definition COMBINED_VAL_INTEGER :: byte where "COMBINED_VAL_INTEGER = 1"
definition COMBINED_VAL_REAL :: byte where "COMBINED_VAL_REAL = 2"
definition COMBINED_VAL_TEXT :: byte where "COMBINED_VAL_TEXT = 3"
definition COMBINED_VAL_BLOB :: byte where "COMBINED_VAL_BLOB = 4"

lemmas tag_defs =
  TAG_HEAP_INSERT_def TAG_HEAP_UPDATE_def TAG_HEAP_DELETE_def TAG_COMMIT_def TAG_PAGE_IMAGE_def
  TAG_SEGMENT_SEAL_def TAG_BACKUP_BEGIN_def TAG_BACKUP_END_def TAG_TIMELINE_FORK_def
  TAG_LOGICAL_TXN_def TAG_CATALOG_SNAPSHOT_def TAG_INDEX_INSERT_def TAG_INDEX_DELETE_def
  TAG_COMBINED_SEMANTIC_DELTA_def

lemmas combined_tag_defs =
  COMBINED_VAL_NULL_def COMBINED_VAL_INTEGER_def COMBINED_VAL_REAL_def COMBINED_VAL_TEXT_def
  COMBINED_VAL_BLOB_def

datatype logical_event =
    Ev_Relation rel_id u64
  | Ev_Insert rel_id row_id "byte list list"
  | Ev_Update rel_id row_id "byte list list"
  | Ev_Delete rel_id row_id
  | Ev_Ddl u64

record index_row_ref =
  ir_row_id :: row_id
  ir_tuple :: tuple_ptr

datatype combined_value =
    CV_Null
  | CV_Integer u64
  | CV_Real u64
  | CV_Text "byte list"
  | CV_Blob "byte list"

datatype wal_payload =
    HeapInsert tx_id rel_id row_id "byte list"
  | HeapUpdate tx_id rel_id row_id "byte list"
  | HeapDelete tx_id rel_id row_id
  | IndexInsert tx_id u64 "byte list" index_row_ref
  | IndexDelete tx_id u64 "byte list" index_row_ref
  | Commit tx_id csn
  | PageImage page_id lsn "byte list"
  | SegmentSeal timeline_id wal_segment_no lsn lsn u32
  | BackupBegin backup_id lsn
  | BackupEnd backup_id lsn csn
  | TimelineFork timeline_id lsn timeline_id
  | LogicalTxn csn lsn "logical_event list"
  | CatalogSnapshot tx_id u64 "byte list"
  | CombinedSemanticDelta tx_id rel_id row_id "(u16 \<times> u64) list" "(u16 \<times> combined_value) list" u32

fun payload_tx_id :: "wal_payload \<Rightarrow> tx_id" where
  "payload_tx_id (HeapInsert tx_id _ _ _) = tx_id"
| "payload_tx_id (HeapUpdate tx_id _ _ _) = tx_id"
| "payload_tx_id (HeapDelete tx_id _ _) = tx_id"
| "payload_tx_id (IndexInsert tx_id _ _ _) = tx_id"
| "payload_tx_id (IndexDelete tx_id _ _ _) = tx_id"
| "payload_tx_id (Commit tx_id _) = tx_id"
| "payload_tx_id (PageImage _ _ _) = 0"
| "payload_tx_id (SegmentSeal _ _ _ _ _) = 0"
| "payload_tx_id (BackupBegin _ _) = 0"
| "payload_tx_id (BackupEnd _ _ _) = 0"
| "payload_tx_id (TimelineFork _ _ _) = 0"
| "payload_tx_id (LogicalTxn _ _ _) = 0"
| "payload_tx_id (CatalogSnapshot tx_id _ _) = tx_id"
| "payload_tx_id (CombinedSemanticDelta tx_id _ _ _ _ _) = tx_id"

section \<open>Helpers\<close>

definition require_exact_len :: "byte list \<Rightarrow> nat \<Rightarrow> unit result" where
  "require_exact_len bytes expected =
     (if length bytes \<noteq> expected then Err (BufferTooSmall expected (length bytes)) else Ok ())"

definition push_u64 :: "byte list \<Rightarrow> u64 \<Rightarrow> byte list" where
  "push_u64 out v = out @ to_le_bytes v"

definition read_backup_id :: "byte list \<Rightarrow> nat \<Rightarrow> backup_id result" where
  "read_backup_id bytes offset =
     rbind (read_u64 bytes offset) (\<lambda>high.
     rbind (read_u64 bytes (offset + 8)) (\<lambda>low.
     Ok (push_bit 64 (ucast high) OR ucast low)))"

text \<open>\<^verbatim>\<open>vec![0; n]\<close> followed by \<^verbatim>\<open>out[0] = tag\<close>.\<close>

definition tagged_buffer :: "byte \<Rightarrow> nat \<Rightarrow> byte list" where
  "tagged_buffer tag n = (replicate n 0)[0 := tag]"

definition encode_row_payload ::
    "byte \<Rightarrow> tx_id \<Rightarrow> rel_id \<Rightarrow> row_id \<Rightarrow> byte list \<Rightarrow> byte list result" where
  "encode_row_payload tag tx_id rel_id row_id payload =
     (if length payload > 4294967295 then Err (CorruptWal ''heap payload too large'') else
      rbind (write_u64 (tagged_buffer tag (29 + length payload)) 1 tx_id) (\<lambda>out.
      rbind (write_u64 out 9 rel_id) (\<lambda>out.
      rbind (write_u64 out 17 row_id) (\<lambda>out.
      rbind (write_u32 out 25 (word_of_nat (length payload))) (\<lambda>out.
      write_bytes out 29 payload)))))"

definition copy_from_slice_at :: "byte list \<Rightarrow> nat \<Rightarrow> byte list \<Rightarrow> byte list result" where
  "copy_from_slice_at out off bs = (if off + length bs \<le> length out then Ok (overwrite out off bs) else Panic)"

definition encode_index_payload ::
    "byte \<Rightarrow> tx_id \<Rightarrow> u64 \<Rightarrow> byte list \<Rightarrow> index_row_ref \<Rightarrow> byte list result" where
  "encode_index_payload tag tx_id index_id logical_key row =
     (if length logical_key > 4294967295 then Err (CorruptWal ''index key too large'') else
      rbind (write_u64 (tagged_buffer tag (43 + length logical_key)) 1 tx_id) (\<lambda>out.
      rbind (write_u64 out 9 index_id) (\<lambda>out.
      rbind (write_u64 out 17 (ir_row_id row)) (\<lambda>out.
      rbind (write_u64 out 25 (tp_page_id (ir_tuple row))) (\<lambda>out.
      rbind (copy_from_slice_at out 33 (to_le_bytes (tp_slot (ir_tuple row)))) (\<lambda>out.
      rbind (copy_from_slice_at out 35 (to_le_bytes (tp_generation (ir_tuple row)))) (\<lambda>out.
      rbind (write_u32 out 39 (word_of_nat (length logical_key))) (\<lambda>out.
      write_bytes out 43 logical_key))))))))"

definition decode_index_payload ::
    "byte list \<Rightarrow> (tx_id \<Rightarrow> u64 \<Rightarrow> byte list \<Rightarrow> index_row_ref \<Rightarrow> 'a result) \<Rightarrow> 'a result" where
  "decode_index_payload bytes f =
     (if length bytes < 43 then Err (BufferTooSmall 43 (length bytes)) else
      rbind (read_u64 bytes 1) (\<lambda>tx_id.
      rbind (read_u64 bytes 9) (\<lambda>index_id.
      rbind (read_u64 bytes 17) (\<lambda>row_id.
      rbind (read_u64 bytes 25) (\<lambda>page_id.
      rbind (read_u16 bytes 33) (\<lambda>slot.
      rbind (read_u32 bytes 35) (\<lambda>generation.
      rbind (read_u32 bytes 39) (\<lambda>key_len.
      rbind (ok_or (CorruptWal ''index payload length overflow'')
               (checked_add_usize 43 (unat key_len))) (\<lambda>expected.
      rbind (require_exact_len bytes expected) (\<lambda>_.
      rbind (slice_range bytes 43 expected) (\<lambda>logical_key.
      f tx_id index_id logical_key
        \<lparr>ir_row_id = row_id,
         ir_tuple = \<lparr>tp_page_id = page_id, tp_slot = slot, tp_generation = generation\<rparr>\<rparr>)))))))))))"

definition decode_row_payload ::
    "byte list \<Rightarrow> (tx_id \<Rightarrow> rel_id \<Rightarrow> row_id \<Rightarrow> byte list \<Rightarrow> wal_payload) \<Rightarrow> wal_payload result" where
  "decode_row_payload bytes build =
     (let legacy =
        rbind (read_u32 bytes 17) (\<lambda>payload_len.
        rbind (ok_or (CorruptWal ''heap payload length overflow'')
                 (checked_add_usize 21 (unat payload_len))) (\<lambda>expected.
        if length bytes < expected then Err (BufferTooSmall expected (length bytes))
        else if expected = length bytes then
          rbind (read_u64 bytes 1) (\<lambda>tx_id.
          rbind (read_u64 bytes 9) (\<lambda>row_id.
          rbind (slice_range bytes 21 expected) (\<lambda>payload.
          Ok (build tx_id 0 row_id payload))))
        else Err (CorruptWal ''heap payload length mismatch'')))
      in if length bytes < 21 then Err (BufferTooSmall 21 (length bytes))
      else if length bytes \<ge> 29 then
        rbind (read_u32 bytes 25) (\<lambda>payload_len.
        rbind (ok_or (CorruptWal ''heap payload length overflow'')
                 (checked_add_usize 29 (unat payload_len))) (\<lambda>expected.
        if length bytes < expected then Err (BufferTooSmall expected (length bytes))
        else if expected = length bytes then
          rbind (read_u64 bytes 1) (\<lambda>tx_id.
          rbind (read_u64 bytes 9) (\<lambda>rel_id.
          rbind (read_u64 bytes 17) (\<lambda>row_id.
          rbind (slice_range bytes 29 expected) (\<lambda>payload.
          Ok (build tx_id rel_id row_id payload)))))
        else legacy))
      else legacy)"

section \<open>Logical transactions\<close>

text \<open>Sizes in bytes of the elements of the decoded vectors.\<close>

abbreviation size_of_vec :: nat where "size_of_vec \<equiv> 24"
abbreviation size_of_logical_event :: nat where "size_of_logical_event \<equiv> 48"
abbreviation size_of_delta :: nat where "size_of_delta \<equiv> 16"
abbreviation size_of_replacement :: nat where "size_of_replacement \<equiv> 40"

fun push_values :: "byte list \<Rightarrow> byte list list \<Rightarrow> byte list" where
  "push_values out [] = out"
| "push_values out (v # vs) = push_values (push_u64 out (word_of_nat (length v)) @ v) vs"

fun encode_logical_event :: "logical_event \<Rightarrow> byte list \<Rightarrow> byte list result" where
  "encode_logical_event (Ev_Relation rel_id schema_epoch) out =
     Ok (push_u64 (push_u64 (out @ [1]) rel_id) schema_epoch)"
| "encode_logical_event (Ev_Insert rel_id row_id values) out =
     Ok (push_values (push_u64 (push_u64 (push_u64 (out @ [2]) rel_id) row_id) (word_of_nat (length values))) values)"
| "encode_logical_event (Ev_Update rel_id row_id values) out =
     Ok (push_values (push_u64 (push_u64 (push_u64 (out @ [3]) rel_id) row_id) (word_of_nat (length values))) values)"
| "encode_logical_event (Ev_Delete rel_id row_id) out =
     Ok (push_u64 (push_u64 (out @ [4]) rel_id) row_id)"
| "encode_logical_event (Ev_Ddl schema_epoch) out = Ok (push_u64 (out @ [5]) schema_epoch)"

fun encode_logical_events :: "logical_event list \<Rightarrow> byte list \<Rightarrow> byte list result" where
  "encode_logical_events [] out = Ok out"
| "encode_logical_events (ev # evs) out = rbind (encode_logical_event ev out) (encode_logical_events evs)"

fun decode_values :: "nat \<Rightarrow> byte list \<Rightarrow> nat \<Rightarrow> byte list list \<Rightarrow> (byte list list \<times> nat) result" where
  "decode_values 0 bytes cursor values = Ok (values, cursor)"
| "decode_values (Suc n) bytes cursor values =
     rbind (read_u64 bytes cursor) (\<lambda>len.
     rbind (ok_or (CorruptWal ''logical payload overflow'') (checked_add_usize (cursor + 8) (unat len))) (\<lambda>end'.
     if length bytes < end' then Err (BufferTooSmall end' (length bytes)) else
     rbind (slice_range bytes (cursor + 8) end') (\<lambda>v.
     decode_values n bytes end' (values @ [v]))))"

definition decode_logical_event :: "byte list \<Rightarrow> (logical_event \<times> nat) result" where
  "decode_logical_event bytes =
     (if bytes = [] then Err (BufferTooSmall 1 0)
      else if bytes ! 0 = 1 then
        rbind (read_u64 bytes 1) (\<lambda>rel_id.
        rbind (read_u64 bytes 9) (\<lambda>schema_epoch. Ok (Ev_Relation rel_id schema_epoch, 17)))
      else if bytes ! 0 = 2 \<or> bytes ! 0 = 3 then
        rbind (read_u64 bytes 1) (\<lambda>rel_id.
        rbind (read_u64 bytes 9) (\<lambda>row_id.
        rbind (read_u64 bytes 17) (\<lambda>count.
        rbind (vec_with_capacity size_of_vec (unat count)) (\<lambda>_.
        rbind (decode_values (unat count) bytes 25 []) (\<lambda>(values, cursor).
        Ok (if bytes ! 0 = 2 then Ev_Insert rel_id row_id values else Ev_Update rel_id row_id values, cursor))))))
      else if bytes ! 0 = 4 then
        rbind (read_u64 bytes 1) (\<lambda>rel_id.
        rbind (read_u64 bytes 9) (\<lambda>row_id. Ok (Ev_Delete rel_id row_id, 17)))
      else if bytes ! 0 = 5 then
        rbind (read_u64 bytes 1) (\<lambda>schema_epoch. Ok (Ev_Ddl schema_epoch, 9))
      else Err (CorruptWal ''unknown logical event tag''))"

fun decode_logical_events ::
    "nat \<Rightarrow> byte list \<Rightarrow> nat \<Rightarrow> logical_event list \<Rightarrow> (logical_event list \<times> nat) result" where
  "decode_logical_events 0 bytes cursor events = Ok (events, cursor)"
| "decode_logical_events (Suc n) bytes cursor events =
     rbind (slice_range bytes cursor (length bytes)) (\<lambda>rest.
     rbind (decode_logical_event rest) (\<lambda>(event, used).
     decode_logical_events n bytes (cursor + used) (events @ [event])))"

section \<open>Combined deltas\<close>

fun encode_combined_value :: "combined_value \<Rightarrow> byte list \<Rightarrow> byte list" where
  "encode_combined_value CV_Null out = out @ [COMBINED_VAL_NULL]"
| "encode_combined_value (CV_Integer n) out = out @ [COMBINED_VAL_INTEGER] @ to_le_bytes n"
| "encode_combined_value (CV_Real r) out = out @ [COMBINED_VAL_REAL] @ to_le_bytes r"
| "encode_combined_value (CV_Text bytes) out =
     out @ [COMBINED_VAL_TEXT] @ to_le_bytes (word_of_nat (length bytes) :: u32) @ bytes"
| "encode_combined_value (CV_Blob bytes) out =
     out @ [COMBINED_VAL_BLOB] @ to_le_bytes (word_of_nat (length bytes) :: u32) @ bytes"

fun push_deltas :: "byte list \<Rightarrow> (u16 \<times> u64) list \<Rightarrow> byte list" where
  "push_deltas out [] = out"
| "push_deltas out ((col, delta) # ds) = push_deltas (out @ to_le_bytes col @ to_le_bytes delta) ds"

fun push_replacements :: "byte list \<Rightarrow> (u16 \<times> combined_value) list \<Rightarrow> byte list" where
  "push_replacements out [] = out"
| "push_replacements out ((col, v) # rs) = push_replacements (encode_combined_value v (out @ to_le_bytes col)) rs"

definition encode_combined_semantic_delta ::
    "tx_id \<Rightarrow> rel_id \<Rightarrow> row_id \<Rightarrow> (u16 \<times> u64) list \<Rightarrow> (u16 \<times> combined_value) list \<Rightarrow> u32 \<Rightarrow> byte list result" where
  "encode_combined_semantic_delta tx_id rel_id row_id deltas replacements batched_count =
     (if length deltas > 4294967295 \<or> length replacements > 4294967295
      then Err (CorruptWal ''combined semantic delta too large'') else
      let out = [TAG_COMBINED_SEMANTIC_DELTA] @ to_le_bytes tx_id @ to_le_bytes rel_id @ to_le_bytes row_id @
            to_le_bytes batched_count @ to_le_bytes (word_of_nat (length deltas) :: u32);
          out = push_deltas out deltas;
          out = out @ to_le_bytes (word_of_nat (length replacements) :: u32)
      in Ok (push_replacements out replacements))"

definition decode_combined_value :: "byte list \<Rightarrow> (combined_value \<times> nat) result" where
  "decode_combined_value bytes =
     (if bytes = [] then Err (CorruptWal ''combined value: missing tag'')
      else if bytes ! 0 = COMBINED_VAL_NULL then Ok (CV_Null, 1)
      else if bytes ! 0 = COMBINED_VAL_INTEGER then
        if length bytes < 9 then Err (BufferTooSmall 9 (length bytes)) else
        rbind (slice_range bytes 1 9) (\<lambda>bs. Ok (CV_Integer (from_le_bytes bs), 9))
      else if bytes ! 0 = COMBINED_VAL_REAL then
        if length bytes < 9 then Err (BufferTooSmall 9 (length bytes)) else
        rbind (slice_range bytes 1 9) (\<lambda>bs. Ok (CV_Real (from_le_bytes bs), 9))
      else if bytes ! 0 = COMBINED_VAL_TEXT \<or> bytes ! 0 = COMBINED_VAL_BLOB then
        if length bytes < 5 then Err (BufferTooSmall 5 (length bytes)) else
        rbind (slice_range bytes 1 5) (\<lambda>bs.
        rbind (ok_or (CorruptWal ''combined value length overflow'')
                 (checked_add_usize 5 (unat (from_le_bytes bs :: u32)))) (\<lambda>end'.
        if length bytes < end' then Err (BufferTooSmall end' (length bytes)) else
        rbind (slice_range bytes 5 end') (\<lambda>payload.
        Ok (if bytes ! 0 = COMBINED_VAL_TEXT then CV_Text payload else CV_Blob payload, end'))))
      else Err (CorruptWal ''unknown combined value tag''))"

fun decode_deltas :: "nat \<Rightarrow> byte list \<Rightarrow> nat \<Rightarrow> (u16 \<times> u64) list \<Rightarrow> ((u16 \<times> u64) list \<times> nat) result" where
  "decode_deltas 0 bytes cursor deltas = Ok (deltas, cursor)"
| "decode_deltas (Suc n) bytes cursor deltas =
     (if length bytes < cursor + 10 then Err (BufferTooSmall (cursor + 10) (length bytes)) else
      rbind (read_u16 bytes cursor) (\<lambda>col.
      rbind (slice_range bytes (cursor + 2) (cursor + 2 + 8)) (\<lambda>bs.
      decode_deltas n bytes (cursor + 10) (deltas @ [(col, from_le_bytes bs)]))))"

fun decode_replacements ::
    "nat \<Rightarrow> byte list \<Rightarrow> nat \<Rightarrow> (u16 \<times> combined_value) list \<Rightarrow> ((u16 \<times> combined_value) list \<times> nat) result" where
  "decode_replacements 0 bytes cursor replacements = Ok (replacements, cursor)"
| "decode_replacements (Suc n) bytes cursor replacements =
     (if length bytes < cursor + 3 then Err (BufferTooSmall (cursor + 3) (length bytes)) else
      rbind (read_u16 bytes cursor) (\<lambda>col.
      rbind (slice_range bytes (cursor + 2) (length bytes)) (\<lambda>rest.
      rbind (decode_combined_value rest) (\<lambda>(v, used).
      decode_replacements n bytes (cursor + 2 + used) (replacements @ [(col, v)])))))"

definition decode_combined_semantic_delta :: "byte list \<Rightarrow> wal_payload result" where
  "decode_combined_semantic_delta bytes =
     (if length bytes < 33 then Err (BufferTooSmall 33 (length bytes)) else
      rbind (read_u64 bytes 1) (\<lambda>tx_id.
      rbind (read_u64 bytes 9) (\<lambda>rel_id.
      rbind (read_u64 bytes 17) (\<lambda>row_id.
      rbind (read_u32 bytes 25) (\<lambda>batched_count.
      rbind (read_u32 bytes 29) (\<lambda>delta_count.
      rbind (vec_with_capacity size_of_delta (unat delta_count)) (\<lambda>_.
      rbind (decode_deltas (unat delta_count) bytes 33 []) (\<lambda>(deltas, cursor).
      if length bytes < cursor + 4 then Err (BufferTooSmall (cursor + 4) (length bytes)) else
      rbind (read_u32 bytes cursor) (\<lambda>repl_count.
      rbind (vec_with_capacity size_of_replacement (unat repl_count)) (\<lambda>_.
      rbind (decode_replacements (unat repl_count) bytes (cursor + 4) []) (\<lambda>(replacements, cursor).
      rbind (require_exact_len bytes cursor) (\<lambda>_.
      Ok (CombinedSemanticDelta tx_id rel_id row_id deltas replacements batched_count)))))))))))))"

section \<open>Encoding and decoding of a payload\<close>

fun payload_encode :: "wal_payload \<Rightarrow> byte list result" where
  "payload_encode (HeapInsert tx_id rel_id row_id payload) =
     encode_row_payload TAG_HEAP_INSERT tx_id rel_id row_id payload"
| "payload_encode (HeapUpdate tx_id rel_id row_id payload) =
     encode_row_payload TAG_HEAP_UPDATE tx_id rel_id row_id payload"
| "payload_encode (HeapDelete tx_id rel_id row_id) =
     rbind (write_u64 (tagged_buffer TAG_HEAP_DELETE 25) 1 tx_id) (\<lambda>out.
     rbind (write_u64 out 9 rel_id) (\<lambda>out.
     write_u64 out 17 row_id))"
| "payload_encode (IndexInsert tx_id index_id logical_key row) =
     encode_index_payload TAG_INDEX_INSERT tx_id index_id logical_key row"
| "payload_encode (IndexDelete tx_id index_id logical_key row) =
     encode_index_payload TAG_INDEX_DELETE tx_id index_id logical_key row"
| "payload_encode (Commit tx_id csn) =
     rbind (write_u64 (tagged_buffer TAG_COMMIT 17) 1 tx_id) (\<lambda>out.
     write_u64 out 9 csn)"
| "payload_encode (PageImage page_id page_lsn page_bytes) =
     (if length page_bytes > 4294967295 then Err (CorruptWal ''page image too large'') else
      rbind (write_u64 (tagged_buffer TAG_PAGE_IMAGE (21 + length page_bytes)) 1 page_id) (\<lambda>out.
      rbind (write_u64 out 9 page_lsn) (\<lambda>out.
      rbind (write_u32 out 17 (word_of_nat (length page_bytes))) (\<lambda>out.
      write_bytes out 21 page_bytes))))"
| "payload_encode (SegmentSeal timeline segment_no first_lsn last_lsn crc32) =
     rbind (write_u64 (tagged_buffer TAG_SEGMENT_SEAL 41) 1 timeline) (\<lambda>out.
     rbind (write_u64 out 9 segment_no) (\<lambda>out.
     rbind (write_u64 out 17 first_lsn) (\<lambda>out.
     rbind (write_u64 out 25 last_lsn) (\<lambda>out.
     write_u32 out 33 crc32))))"
| "payload_encode (BackupBegin backup_id required_wal_start) =
     rbind (write_u64 (tagged_buffer TAG_BACKUP_BEGIN 25) 1 (ucast (drop_bit 64 backup_id))) (\<lambda>out.
     rbind (write_u64 out 9 (ucast backup_id)) (\<lambda>out.
     write_u64 out 17 required_wal_start))"
| "payload_encode (BackupEnd backup_id stop_lsn stop_csn) =
     rbind (write_u64 (tagged_buffer TAG_BACKUP_END 33) 1 (ucast (drop_bit 64 backup_id))) (\<lambda>out.
     rbind (write_u64 out 9 (ucast backup_id)) (\<lambda>out.
     rbind (write_u64 out 17 stop_lsn) (\<lambda>out.
     write_u64 out 25 stop_csn)))"
| "payload_encode (TimelineFork parent fork_lsn child) =
     rbind (write_u64 (tagged_buffer TAG_TIMELINE_FORK 25) 1 parent) (\<lambda>out.
     rbind (write_u64 out 9 fork_lsn) (\<lambda>out.
     write_u64 out 17 child))"
| "payload_encode (LogicalTxn csn first_lsn events) =
     rbind (write_u64 (tagged_buffer TAG_LOGICAL_TXN 17) 1 csn) (\<lambda>out.
     rbind (write_u64 out 9 first_lsn) (\<lambda>out.
     encode_logical_events events (push_u64 out (word_of_nat (length events)))))"
| "payload_encode (CatalogSnapshot tx_id schema_epoch snapshot) =
     (if length snapshot > 4294967295 then Err (CorruptWal ''catalog snapshot too large'') else
      rbind (write_u64 (tagged_buffer TAG_CATALOG_SNAPSHOT (21 + length snapshot)) 1 tx_id) (\<lambda>out.
      rbind (write_u64 out 9 schema_epoch) (\<lambda>out.
      rbind (write_u32 out 17 (word_of_nat (length snapshot))) (\<lambda>out.
      write_bytes out 21 snapshot))))"
| "payload_encode (CombinedSemanticDelta tx_id rel_id row_id deltas replacements batched_count) =
     encode_combined_semantic_delta tx_id rel_id row_id deltas replacements batched_count"

definition decode_heap_delete :: "byte list \<Rightarrow> wal_payload result" where
  "decode_heap_delete bytes =
     (if length bytes \<ge> 25 then
        rbind (read_u64 bytes 9) (\<lambda>rel_id.
        rbind (read_u64 bytes 17) (\<lambda>row_id.
        rbind (require_exact_len bytes 25) (\<lambda>_.
        rbind (read_u64 bytes 1) (\<lambda>tx_id.
        Ok (HeapDelete tx_id rel_id row_id)))))
      else
        rbind (require_exact_len bytes 17) (\<lambda>_.
        rbind (read_u64 bytes 1) (\<lambda>tx_id.
        rbind (read_u64 bytes 9) (\<lambda>row_id.
        Ok (HeapDelete tx_id 0 row_id)))))"

text \<open>The page image and the catalog snapshot share their layout.\<close>

definition decode_sized_tail ::
    "string \<Rightarrow> byte list \<Rightarrow> (u64 \<Rightarrow> u64 \<Rightarrow> byte list \<Rightarrow> wal_payload) \<Rightarrow> wal_payload result" where
  "decode_sized_tail overflow bytes build =
     (if length bytes < 21 then Err (BufferTooSmall 21 (length bytes)) else
      rbind (read_u32 bytes 17) (\<lambda>len.
      rbind (ok_or (CorruptWal overflow) (checked_add_usize 21 (unat len))) (\<lambda>expected.
      rbind (require_exact_len bytes expected) (\<lambda>_.
      rbind (read_u64 bytes 1) (\<lambda>a.
      rbind (read_u64 bytes 9) (\<lambda>b.
      rbind (slice_range bytes 21 expected) (\<lambda>tail.
      Ok (build a b tail))))))))"

definition decode_logical_txn :: "byte list \<Rightarrow> wal_payload result" where
  "decode_logical_txn bytes =
     (if length bytes < 25 then Err (BufferTooSmall 25 (length bytes)) else
      rbind (read_u64 bytes 1) (\<lambda>csn.
      rbind (read_u64 bytes 9) (\<lambda>first_lsn.
      rbind (read_u64 bytes 17) (\<lambda>event_count.
      rbind (vec_with_capacity size_of_logical_event (unat event_count)) (\<lambda>_.
      rbind (decode_logical_events (unat event_count) bytes 25 []) (\<lambda>(events, cursor).
      rbind (require_exact_len bytes cursor) (\<lambda>_.
      Ok (LogicalTxn csn first_lsn events))))))))"

definition payload_decode :: "byte list \<Rightarrow> wal_payload result" where
  "payload_decode bytes =
     (if bytes = [] then Err (CorruptWal ''empty wal payload'') else
      let tag = bytes ! 0 in
      if tag = TAG_HEAP_INSERT then decode_row_payload bytes HeapInsert
      else if tag = TAG_HEAP_UPDATE then decode_row_payload bytes HeapUpdate
      else if tag = TAG_HEAP_DELETE then decode_heap_delete bytes
      else if tag = TAG_INDEX_INSERT then
        decode_index_payload bytes (\<lambda>tx_id index_id key row. Ok (IndexInsert tx_id index_id key row))
      else if tag = TAG_INDEX_DELETE then
        decode_index_payload bytes (\<lambda>tx_id index_id key row. Ok (IndexDelete tx_id index_id key row))
      else if tag = TAG_COMMIT then
        rbind (require_exact_len bytes 17) (\<lambda>_.
        rbind (read_u64 bytes 1) (\<lambda>tx_id.
        rbind (read_u64 bytes 9) (\<lambda>csn. Ok (Commit tx_id csn))))
      else if tag = TAG_PAGE_IMAGE then decode_sized_tail ''page image length overflow'' bytes PageImage
      else if tag = TAG_SEGMENT_SEAL then
        rbind (require_exact_len bytes 41) (\<lambda>_.
        rbind (read_u64 bytes 1) (\<lambda>timeline.
        rbind (read_u64 bytes 9) (\<lambda>segment_no.
        rbind (read_u64 bytes 17) (\<lambda>first_lsn.
        rbind (read_u64 bytes 25) (\<lambda>last_lsn.
        rbind (read_u32 bytes 33) (\<lambda>crc32. Ok (SegmentSeal timeline segment_no first_lsn last_lsn crc32)))))))
      else if tag = TAG_BACKUP_BEGIN then
        rbind (require_exact_len bytes 25) (\<lambda>_.
        rbind (read_backup_id bytes 1) (\<lambda>backup_id.
        rbind (read_u64 bytes 17) (\<lambda>required_wal_start. Ok (BackupBegin backup_id required_wal_start))))
      else if tag = TAG_BACKUP_END then
        rbind (require_exact_len bytes 33) (\<lambda>_.
        rbind (read_backup_id bytes 1) (\<lambda>backup_id.
        rbind (read_u64 bytes 17) (\<lambda>stop_lsn.
        rbind (read_u64 bytes 25) (\<lambda>stop_csn. Ok (BackupEnd backup_id stop_lsn stop_csn)))))
      else if tag = TAG_TIMELINE_FORK then
        rbind (require_exact_len bytes 25) (\<lambda>_.
        rbind (read_u64 bytes 1) (\<lambda>parent.
        rbind (read_u64 bytes 9) (\<lambda>fork_lsn.
        rbind (read_u64 bytes 17) (\<lambda>child. Ok (TimelineFork parent fork_lsn child)))))
      else if tag = TAG_LOGICAL_TXN then decode_logical_txn bytes
      else if tag = TAG_CATALOG_SNAPSHOT then
        decode_sized_tail ''catalog snapshot length overflow'' bytes CatalogSnapshot
      else if tag = TAG_COMBINED_SEMANTIC_DELTA then decode_combined_semantic_delta bytes
      else Err (CorruptWal ''unknown wal payload tag''))"

section \<open>Byte images\<close>

definition values_image :: "byte list list \<Rightarrow> byte list" where
  "values_image vs = concat (map (\<lambda>v. to_le_bytes (word_of_nat (length v) :: u64) @ v) vs)"

fun event_image :: "logical_event \<Rightarrow> byte list" where
  "event_image (Ev_Relation a b) = [1] @ to_le_bytes a @ to_le_bytes b"
| "event_image (Ev_Insert a b vs) =
     [2] @ to_le_bytes a @ to_le_bytes b @ to_le_bytes (word_of_nat (length vs) :: u64) @ values_image vs"
| "event_image (Ev_Update a b vs) =
     [3] @ to_le_bytes a @ to_le_bytes b @ to_le_bytes (word_of_nat (length vs) :: u64) @ values_image vs"
| "event_image (Ev_Delete a b) = [4] @ to_le_bytes a @ to_le_bytes b"
| "event_image (Ev_Ddl a) = [5] @ to_le_bytes a"

definition value_image :: "combined_value \<Rightarrow> byte list" where
  "value_image v = encode_combined_value v []"

definition deltas_image :: "(u16 \<times> u64) list \<Rightarrow> byte list" where
  "deltas_image ds = concat (map (\<lambda>(c, d). to_le_bytes c @ to_le_bytes d) ds)"

definition replacements_image :: "(u16 \<times> combined_value) list \<Rightarrow> byte list" where
  "replacements_image rs = concat (map (\<lambda>(c, v). to_le_bytes c @ value_image v) rs)"

definition row_image :: "byte \<Rightarrow> tx_id \<Rightarrow> rel_id \<Rightarrow> row_id \<Rightarrow> byte list \<Rightarrow> byte list" where
  "row_image tag a b c p =
     [tag] @ to_le_bytes a @ to_le_bytes b @ to_le_bytes c @ to_le_bytes (word_of_nat (length p) :: u32) @ p"

definition index_image :: "byte \<Rightarrow> tx_id \<Rightarrow> u64 \<Rightarrow> byte list \<Rightarrow> index_row_ref \<Rightarrow> byte list" where
  "index_image tag a b k r =
     [tag] @ to_le_bytes a @ to_le_bytes b @ to_le_bytes (ir_row_id r) @
     to_le_bytes (tp_page_id (ir_tuple r)) @ to_le_bytes (tp_slot (ir_tuple r)) @
     to_le_bytes (tp_generation (ir_tuple r)) @ to_le_bytes (word_of_nat (length k) :: u32) @ k"

definition sized_image :: "byte \<Rightarrow> u64 \<Rightarrow> u64 \<Rightarrow> byte list \<Rightarrow> byte list" where
  "sized_image tag a b p =
     [tag] @ to_le_bytes a @ to_le_bytes b @ to_le_bytes (word_of_nat (length p) :: u32) @ p"

definition backup_id_image :: "backup_id \<Rightarrow> byte list" where
  "backup_id_image b = to_le_bytes (ucast (drop_bit 64 b) :: u64) @ to_le_bytes (ucast b :: u64)"

fun payload_image :: "wal_payload \<Rightarrow> byte list" where
  "payload_image (HeapInsert a b c p) = row_image TAG_HEAP_INSERT a b c p"
| "payload_image (HeapUpdate a b c p) = row_image TAG_HEAP_UPDATE a b c p"
| "payload_image (HeapDelete a b c) = [TAG_HEAP_DELETE] @ to_le_bytes a @ to_le_bytes b @ to_le_bytes c"
| "payload_image (IndexInsert a b k r) = index_image TAG_INDEX_INSERT a b k r"
| "payload_image (IndexDelete a b k r) = index_image TAG_INDEX_DELETE a b k r"
| "payload_image (Commit a b) = [TAG_COMMIT] @ to_le_bytes a @ to_le_bytes b"
| "payload_image (PageImage a b p) = sized_image TAG_PAGE_IMAGE a b p"
| "payload_image (SegmentSeal a b c d e) =
     [TAG_SEGMENT_SEAL] @ to_le_bytes a @ to_le_bytes b @ to_le_bytes c @ to_le_bytes d @ to_le_bytes e @ replicate 4 0"
| "payload_image (BackupBegin a b) = [TAG_BACKUP_BEGIN] @ backup_id_image a @ to_le_bytes b"
| "payload_image (BackupEnd a b c) = [TAG_BACKUP_END] @ backup_id_image a @ to_le_bytes b @ to_le_bytes c"
| "payload_image (TimelineFork a b c) = [TAG_TIMELINE_FORK] @ to_le_bytes a @ to_le_bytes b @ to_le_bytes c"
| "payload_image (LogicalTxn a b evs) =
     [TAG_LOGICAL_TXN] @ to_le_bytes a @ to_le_bytes b @ to_le_bytes (word_of_nat (length evs) :: u64) @
     concat (map event_image evs)"
| "payload_image (CatalogSnapshot a b p) = sized_image TAG_CATALOG_SNAPSHOT a b p"
| "payload_image (CombinedSemanticDelta a b c ds rs n) =
     [TAG_COMBINED_SEMANTIC_DELTA] @ to_le_bytes a @ to_le_bytes b @ to_le_bytes c @ to_le_bytes n @
     to_le_bytes (word_of_nat (length ds) :: u32) @ deltas_image ds @
     to_le_bytes (word_of_nat (length rs) :: u32) @ replacements_image rs"

text \<open>The error of a payload that cannot be encoded.\<close>

fun payload_too_large :: "wal_payload \<Rightarrow> error option" where
  "payload_too_large (HeapInsert a b c p) =
     (if length p > 4294967295 then Some (CorruptWal ''heap payload too large'') else None)"
| "payload_too_large (HeapUpdate a b c p) =
     (if length p > 4294967295 then Some (CorruptWal ''heap payload too large'') else None)"
| "payload_too_large (IndexInsert a b k r) =
     (if length k > 4294967295 then Some (CorruptWal ''index key too large'') else None)"
| "payload_too_large (IndexDelete a b k r) =
     (if length k > 4294967295 then Some (CorruptWal ''index key too large'') else None)"
| "payload_too_large (PageImage a b p) =
     (if length p > 4294967295 then Some (CorruptWal ''page image too large'') else None)"
| "payload_too_large (CatalogSnapshot a b p) =
     (if length p > 4294967295 then Some (CorruptWal ''catalog snapshot too large'') else None)"
| "payload_too_large (CombinedSemanticDelta a b c ds rs n) =
     (if length ds > 4294967295 \<or> length rs > 4294967295
      then Some (CorruptWal ''combined semantic delta too large'') else None)"
| "payload_too_large _ = None"

section \<open>Encoding produces the image\<close>

lemma tagged_buffer_Suc: "0 < n \<Longrightarrow> tagged_buffer tag n = [tag] @ replicate (n - 1) 0"
  by (cases n) (simp_all add: tagged_buffer_def)

lemma length_tagged_buffer [simp]: "length (tagged_buffer tag n) = n"
  by (simp add: tagged_buffer_def)

lemma push_values_eq: "push_values out vs = out @ values_image vs"
  by (induction vs arbitrary: out) (simp_all add: values_image_def push_u64_def)

lemma encode_logical_event_eq: "encode_logical_event ev out = Ok (out @ event_image ev)"
  by (cases ev) (simp_all add: push_u64_def push_values_eq)

lemma encode_logical_events_eq: "encode_logical_events evs out = Ok (out @ concat (map event_image evs))"
  by (induction evs arbitrary: out) (simp_all add: encode_logical_event_eq)

lemma encode_combined_value_eq: "encode_combined_value v out = out @ value_image v"
  by (cases v) (simp_all add: value_image_def)

lemma push_deltas_eq: "push_deltas out ds = out @ deltas_image ds"
  by (induction out ds rule: push_deltas.induct) (simp_all add: deltas_image_def)

lemma push_replacements_eq: "push_replacements out rs = out @ replacements_image rs"
  by (induction out rs rule: push_replacements.induct)
    (simp_all add: replacements_image_def encode_combined_value_eq)

lemmas field_writes =
  write_u16_in write_u32_in write_u64_in write_bytes_in overwrite_next copy_from_slice_at_def

text \<open>
  A tagged buffer is its tag followed by zeros; each field write then appends to what has been
  written and drops as many zeros.
\<close>

lemma tagged_bufferE:
  obtains z where "tagged_buffer tag (Suc n) = [tag] @ z" and "length z = n" and "z = replicate n 0"
  by (rule that [of "replicate n 0"]) (simp_all add: tagged_buffer_Suc)

lemma encode_row_payload_eq:
  assumes "length p \<le> 4294967295"
  shows "encode_row_payload tag a b c p = Ok (row_image tag a b c p)"
proof -
  obtain z where z: "tagged_buffer tag (Suc (28 + length p)) = [tag] @ z" "length z = 28 + length p"
    by (rule tagged_bufferE)
  have n: "29 + length p = Suc (28 + length p)" by simp
  have "29 + length p < usize_bound" using assms by (intro usize_bound_u32) simp
  then have "encode_row_payload tag a b c p = Ok ((((((([tag] @ to_le_bytes a) @ to_le_bytes b) @ to_le_bytes c) @
      to_le_bytes (word_of_nat (length p) :: u32)) @ p)) @ drop (28 + length p) z)"
    using assms z(2) unfolding encode_row_payload_def n z(1)
    by (simp add: field_writes del: append_assoc append_Cons append_Nil)
  then show ?thesis by (simp add: row_image_def z)
qed

lemma encode_index_payload_eq:
  assumes "length k \<le> 4294967295"
  shows "encode_index_payload tag a b k r = Ok (index_image tag a b k r)"
proof -
  obtain z where z: "tagged_buffer tag (Suc (42 + length k)) = [tag] @ z" "length z = 42 + length k"
    by (rule tagged_bufferE)
  have n: "43 + length k = Suc (42 + length k)" by simp
  have "43 + length k < usize_bound" using assms by (intro usize_bound_u32) simp
  then have "encode_index_payload tag a b k r = Ok (((((((((([tag] @ to_le_bytes a) @ to_le_bytes b) @
      to_le_bytes (ir_row_id r)) @ to_le_bytes (tp_page_id (ir_tuple r))) @
      to_le_bytes (tp_slot (ir_tuple r))) @ to_le_bytes (tp_generation (ir_tuple r))) @
      to_le_bytes (word_of_nat (length k) :: u32)) @ k)) @ drop (42 + length k) z)"
    using assms z(2) unfolding encode_index_payload_def n z(1)
    by (simp add: field_writes del: append_assoc append_Cons append_Nil)
  then show ?thesis by (simp add: index_image_def z)
qed

lemma write_sized_tail:
  assumes "length p \<le> 4294967295"
  shows "rbind (write_u64 (tagged_buffer tag (21 + length p)) 1 a) (\<lambda>out.
      rbind (write_u64 out 9 b) (\<lambda>out.
      rbind (write_u32 out 17 (word_of_nat (length p))) (\<lambda>out.
      write_bytes out 21 p))) = Ok (sized_image tag a b p)"
proof -
  obtain z where z: "tagged_buffer tag (Suc (20 + length p)) = [tag] @ z" "length z = 20 + length p"
    by (rule tagged_bufferE)
  have n: "21 + length p = Suc (20 + length p)" by simp
  have ub: "21 + length p < usize_bound" using assms by (intro usize_bound_u32) simp
  have "rbind (write_u64 ([tag] @ z) 1 a) (\<lambda>out. rbind (write_u64 out 9 b) (\<lambda>out.
      rbind (write_u32 out 17 (word_of_nat (length p))) (\<lambda>out. write_bytes out 21 p))) =
      Ok ((((([tag] @ to_le_bytes a) @ to_le_bytes b) @
      to_le_bytes (word_of_nat (length p) :: u32)) @ p) @ drop (20 + length p) z)"
    using ub z(2) by (simp add: field_writes del: append_assoc append_Cons append_Nil)
  then show ?thesis unfolding n z(1) by (simp add: sized_image_def z(2))
qed

lemma usize_bound_41: "n \<le> 41 \<Longrightarrow> n < usize_bound"
  by (simp add: usize_bound_def)

lemma write_two:
  "rbind (write_u64 (tagged_buffer tag 17) 1 a) (\<lambda>out. write_u64 out 9 b) =
     Ok ([tag] @ to_le_bytes a @ to_le_bytes b)"
proof -
  obtain z where z: "tagged_buffer tag (Suc 16) = [tag] @ z" "length z = 16" by (rule tagged_bufferE)
  have "rbind (write_u64 ([tag] @ z) 1 a) (\<lambda>out. write_u64 out 9 b) =
      Ok ((([tag] @ to_le_bytes a) @ to_le_bytes b) @ drop 16 z)"
    using z(2) by (simp add: field_writes usize_bound_41 del: append_assoc append_Cons append_Nil)
  then show ?thesis using z by simp
qed

lemma write_three:
  "rbind (write_u64 (tagged_buffer tag 25) 1 a) (\<lambda>out. rbind (write_u64 out 9 b) (\<lambda>out. write_u64 out 17 c)) =
     Ok ([tag] @ to_le_bytes a @ to_le_bytes b @ to_le_bytes c)"
proof -
  obtain z where z: "tagged_buffer tag (Suc 24) = [tag] @ z" "length z = 24" by (rule tagged_bufferE)
  have "rbind (write_u64 ([tag] @ z) 1 a) (\<lambda>out. rbind (write_u64 out 9 b) (\<lambda>out. write_u64 out 17 c)) =
      Ok (((([tag] @ to_le_bytes a) @ to_le_bytes b) @ to_le_bytes c) @ drop 24 z)"
    using z(2) by (simp add: field_writes usize_bound_41 del: append_assoc append_Cons append_Nil)
  then show ?thesis using z by simp
qed

lemma write_four:
  "rbind (write_u64 (tagged_buffer tag 33) 1 a) (\<lambda>out. rbind (write_u64 out 9 b) (\<lambda>out.
     rbind (write_u64 out 17 c) (\<lambda>out. write_u64 out 25 d))) =
     Ok ([tag] @ to_le_bytes a @ to_le_bytes b @ to_le_bytes c @ to_le_bytes d)"
proof -
  obtain z where z: "tagged_buffer tag (Suc 32) = [tag] @ z" "length z = 32" by (rule tagged_bufferE)
  have "rbind (write_u64 ([tag] @ z) 1 a) (\<lambda>out. rbind (write_u64 out 9 b) (\<lambda>out.
     rbind (write_u64 out 17 c) (\<lambda>out. write_u64 out 25 d))) =
      Ok ((((([tag] @ to_le_bytes a) @ to_le_bytes b) @ to_le_bytes c) @ to_le_bytes d) @ drop 32 z)"
    using z(2) by (simp add: field_writes usize_bound_41 del: append_assoc append_Cons append_Nil)
  then show ?thesis using z by simp
qed

lemma write_seal:
  "payload_encode (SegmentSeal a b c d e) = Ok (payload_image (SegmentSeal a b c d e))"
proof -
  obtain z where z: "tagged_buffer TAG_SEGMENT_SEAL (Suc 40) = [TAG_SEGMENT_SEAL] @ z" "length z = 40"
    "z = replicate 40 0"
    by (rule tagged_bufferE)
  have "rbind (write_u64 ([TAG_SEGMENT_SEAL] @ z) 1 a) (\<lambda>out. rbind (write_u64 out 9 b) (\<lambda>out.
     rbind (write_u64 out 17 c) (\<lambda>out. rbind (write_u64 out 25 d) (\<lambda>out. write_u32 out 33 e)))) =
      Ok (((((([TAG_SEGMENT_SEAL] @ to_le_bytes a) @ to_le_bytes b) @ to_le_bytes c) @ to_le_bytes d) @
        to_le_bytes e) @ drop 36 z)"
    using z(2) by (simp add: field_writes usize_bound_41 del: append_assoc append_Cons append_Nil)
  moreover have "drop 36 z = replicate 4 0" by (simp add: z(3))
  ultimately show ?thesis using z(1) by simp
qed

lemma encode_row_payload_if:
  "encode_row_payload tag a b c p =
     (if length p > 4294967295 then Err (CorruptWal ''heap payload too large'') else Ok (row_image tag a b c p))"
  using encode_row_payload_eq [of p tag a b c]
  by (cases "length p > 4294967295") (simp_all add: encode_row_payload_def)

lemma encode_index_payload_if:
  "encode_index_payload tag a b k r =
     (if length k > 4294967295 then Err (CorruptWal ''index key too large'') else Ok (index_image tag a b k r))"
  using encode_index_payload_eq [of k tag a b r]
  by (cases "length k > 4294967295") (simp_all add: encode_index_payload_def)

lemma payload_encode_eq:
  "payload_encode p = (case payload_too_large p of Some e \<Rightarrow> Err e | None \<Rightarrow> Ok (payload_image p))"
proof (cases p)
  case (SegmentSeal a b c d e)
  then show ?thesis by (simp only: write_seal payload_too_large.simps option.case)
next
  case (LogicalTxn a b evs)
  have "rbind (write_u64 (tagged_buffer TAG_LOGICAL_TXN 17) 1 a) (\<lambda>out. rbind (write_u64 out 9 b) f) =
      f ([TAG_LOGICAL_TXN] @ to_le_bytes a @ to_le_bytes b)" for f :: "byte list \<Rightarrow> byte list result"
    by (subst rbind_assoc [symmetric]) (simp only: write_two rbind.simps)
  then show ?thesis using LogicalTxn by (simp add: encode_logical_events_eq push_u64_def)
qed (simp_all add: encode_row_payload_if encode_index_payload_if write_sized_tail write_two write_three
    write_four encode_combined_semantic_delta_def Let_def push_deltas_eq push_replacements_eq
    backup_id_image_def del: rbind_Ok_iff One_nat_def)

section \<open>Decoding reads the image\<close>

lemma backup_id_join: "push_bit 64 (ucast (ucast (drop_bit 64 b) :: u64)) OR ucast (ucast b :: u64) = (b :: u128)"
  by (rule bit_word_eqI) (auto simp: bit_simps)

lemma decode_row_image:
  assumes "length p \<le> 4294967295"
  shows "decode_row_payload (row_image tag a b c p) build = Ok (build a b c p)"
proof -
  have "29 + length p < usize_bound" using assms by (intro usize_bound_u32) simp
  then show ?thesis
    using assms
    by (simp add: decode_row_payload_def row_image_def read_u32_in read_u64_in bslice_def unat_u32_of_nat
        checked_add_usize_def slice_range_def Let_def)
qed

lemma decode_index_image:
  assumes "length k \<le> 4294967295"
  shows "decode_index_payload (index_image tag a b k r) f = f a b k r"
proof -
  have eta: "\<lparr>ir_row_id = ir_row_id r, ir_tuple = \<lparr>tp_page_id = tp_page_id (ir_tuple r),
      tp_slot = tp_slot (ir_tuple r), tp_generation = tp_generation (ir_tuple r)\<rparr>\<rparr> = r"
    by (cases r, cases "ir_tuple r") simp
  have "43 + length k < usize_bound" using assms by (intro usize_bound_u32) simp
  then show ?thesis
    using assms
    by (simp add: eta decode_index_payload_def index_image_def read_u16_in read_u32_in read_u64_in bslice_def
        unat_u32_of_nat checked_add_usize_def slice_range_def require_exact_len_def)
qed

lemma decode_sized_image:
  assumes "length p \<le> 4294967295"
  shows "decode_sized_tail msg (sized_image tag a b p) build = Ok (build a b p)"
proof -
  have "21 + length p < usize_bound" using assms by (intro usize_bound_u32) simp
  then show ?thesis
    using assms
    by (simp add: decode_sized_tail_def sized_image_def read_u32_in read_u64_in bslice_def
        unat_u32_of_nat checked_add_usize_def slice_range_def require_exact_len_def)
qed

text \<open>Reads at the cursor position of a buffer that is a prefix, a field and the rest.\<close>

lemma read_u16_at:
  "off = length pre \<Longrightarrow> length (pre @ to_le_bytes x @ rest) < usize_bound \<Longrightarrow> read_u16 (pre @ to_le_bytes x @ rest) off = Ok x"
  by (simp add: read_u16_in bslice_def)

lemma read_u32_at:
  "off = length pre \<Longrightarrow> length (pre @ to_le_bytes x @ rest) < usize_bound \<Longrightarrow> read_u32 (pre @ to_le_bytes x @ rest) off = Ok x"
  by (simp add: read_u32_in bslice_def)

lemma read_u64_at:
  "off = length pre \<Longrightarrow> length (pre @ to_le_bytes x @ rest) < usize_bound \<Longrightarrow> read_u64 (pre @ to_le_bytes x @ rest) off = Ok x"
  by (simp add: read_u64_in bslice_def)

lemma slice_range_at:
  "a = length pre \<Longrightarrow> b = a + length xs \<Longrightarrow> slice_range (pre @ xs @ rest) a b = Ok xs"
  by (simp add: slice_range_def bslice_def)

lemma unat_length: "length xs < usize_bound \<Longrightarrow> unat (word_of_nat (length xs) :: u64) = length xs"
  by (rule unat_u64_of_nat) (simp add: usize_bound_def)

lemma decode_values_image:
  "cursor = length pre \<Longrightarrow> length (pre @ values_image vs @ rest) < usize_bound \<Longrightarrow>
     decode_values (length vs) (pre @ values_image vs @ rest) cursor acc =
       Ok (acc @ vs, cursor + length (values_image vs))"
proof (induction vs arbitrary: pre cursor acc)
  case Nil
  then show ?case by (simp add: values_image_def)
next
  case (Cons v vs)
  let ?l = "to_le_bytes (word_of_nat (length v) :: u64)"
  have buf: "pre @ values_image (v # vs) @ rest = pre @ ?l @ v @ values_image vs @ rest"
    by (simp add: values_image_def)
  have ub: "length (pre @ ?l @ v @ values_image vs @ rest) < usize_bound"
    using Cons.prems(2) by (simp only: buf)
  then have len: "unat (word_of_nat (length v) :: u64) = length v" by (intro unat_length) simp
  have v: "slice_range (pre @ ?l @ v @ values_image vs @ rest) (cursor + 8) (cursor + 8 + length v) = Ok v"
    using slice_range_at [of "cursor + 8" "pre @ ?l" "cursor + 8 + length v" v] Cons.prems(1) by simp
  have step: "decode_values (length vs) (pre @ ?l @ v @ values_image vs @ rest) (cursor + 8 + length v) (acc @ [v]) =
      Ok (acc @ v # vs, cursor + 8 + length v + length (values_image vs))"
    using Cons.IH [of "cursor + 8 + length v" "pre @ ?l @ v" "acc @ [v]"] Cons.prems(1) ub by simp
  show ?case
    unfolding buf length_Cons decode_values.simps read_u64_at [OF Cons.prems(1) ub] rbind.simps len
    using ub Cons.prems(1) v step by (simp add: checked_add_usize_def values_image_def)
qed

fun event_fits :: "logical_event \<Rightarrow> bool" where
  "event_fits (Ev_Insert _ _ vs) \<longleftrightarrow> length vs * size_of_vec \<le> isize_max"
| "event_fits (Ev_Update _ _ vs) \<longleftrightarrow> length vs * size_of_vec \<le> isize_max"
| "event_fits _ \<longleftrightarrow> True"

lemma event_image_nonempty: "event_image ev \<noteq> []"
  by (cases ev) simp_all

lemma values_event_image:
  assumes "length vs * 24 \<le> isize_max"
    and "length (t # to_le_bytes a @ to_le_bytes b @ to_le_bytes (word_of_nat (length vs) :: u64) @ values_image vs @ rest) < usize_bound"
  shows "rbind (read_u64 (t # to_le_bytes a @ to_le_bytes b @ to_le_bytes (word_of_nat (length vs) :: u64) @ values_image vs @ rest) 17) (\<lambda>count.
        rbind (vec_with_capacity 24 (unat count)) (\<lambda>_. decode_values (unat count)
          (t # to_le_bytes (a :: u64) @ to_le_bytes (b :: u64) @ to_le_bytes (word_of_nat (length vs) :: u64) @ values_image vs @ rest) 25 [])) =
      Ok (vs, 25 + length (values_image vs))"
proof -
  let ?n = "to_le_bytes (word_of_nat (length vs) :: u64)"
  let ?b = "t # to_le_bytes a @ to_le_bytes b @ ?n @ values_image vs @ rest"
  have "read_u64 ?b 17 = Ok (word_of_nat (length vs))"
    using read_u64_at [of 17 "t # to_le_bytes a @ to_le_bytes b" "word_of_nat (length vs)" "values_image vs @ rest"] assms(2)
    by simp
  moreover have "unat (word_of_nat (length vs) :: u64) = length vs"
    using assms(1) by (intro unat_u64_of_nat) (simp add: isize_max_def)
  moreover have "decode_values (length vs) ?b 25 [] = Ok (vs, 25 + length (values_image vs))"
    using decode_values_image [of 25 "t # to_le_bytes a @ to_le_bytes b @ ?n" vs rest "[]"] assms(2) by simp
  ultimately show ?thesis using assms(1) by (simp add: vec_with_capacity_def)
qed

lemma decode_event_image:
  assumes "event_fits ev" and "length (event_image ev @ rest) < usize_bound"
  shows "decode_logical_event (event_image ev @ rest) = Ok (ev, length (event_image ev))"
proof (cases ev)
  case (Ev_Insert a b vs)
  then show ?thesis
    using assms values_event_image [of vs 2 a b rest]
    by (simp add: decode_logical_event_def read_u64_in bslice_def rbind_assoc [symmetric] del: rbind_Ok_iff)
next
  case (Ev_Update a b vs)
  then show ?thesis
    using assms values_event_image [of vs 3 a b rest]
    by (simp add: decode_logical_event_def read_u64_in bslice_def rbind_assoc [symmetric] del: rbind_Ok_iff)
qed (use assms in \<open>simp_all add: decode_logical_event_def read_u64_in bslice_def\<close>)

lemma decode_events_image:
  "cursor = length pre \<Longrightarrow> list_all event_fits evs \<Longrightarrow>
     length (pre @ concat (map event_image evs) @ rest) < usize_bound \<Longrightarrow>
     decode_logical_events (length evs) (pre @ concat (map event_image evs) @ rest) cursor acc =
       Ok (acc @ evs, cursor + length (concat (map event_image evs)))"
proof (induction evs arbitrary: pre cursor acc)
  case Nil
  then show ?case by simp
next
  case (Cons ev evs)
  let ?r = "concat (map event_image evs) @ rest"
  have "decode_logical_event (event_image ev @ ?r) = Ok (ev, length (event_image ev))"
    using Cons.prems(2,3) by (intro decode_event_image) simp_all
  moreover have "slice_range (pre @ event_image ev @ ?r) cursor (length (pre @ event_image ev @ ?r)) =
      Ok (event_image ev @ ?r)"
    using slice_range_at [of cursor pre _ "event_image ev @ ?r" "[]"] Cons.prems(1) by simp
  moreover have "decode_logical_events (length evs) (pre @ event_image ev @ ?r)
      (cursor + length (event_image ev)) (acc @ [ev]) =
      Ok (acc @ ev # evs, cursor + length (event_image ev) + length (concat (map event_image evs)))"
    using Cons.IH [of "cursor + length (event_image ev)" "pre @ event_image ev" "acc @ [ev]"] Cons.prems by simp
  ultimately show ?case by simp
qed

lemma decode_deltas_image:
  "cursor = length pre \<Longrightarrow> length (pre @ deltas_image ds @ rest) < usize_bound \<Longrightarrow>
     decode_deltas (length ds) (pre @ deltas_image ds @ rest) cursor acc =
       Ok (acc @ ds, cursor + length (deltas_image ds))"
proof (induction ds arbitrary: pre cursor acc)
  case Nil
  then show ?case by (simp add: deltas_image_def)
next
  case (Cons p ds)
  obtain c d where p: "p = (c, d)" by fastforce
  let ?b = "pre @ to_le_bytes c @ to_le_bytes d @ deltas_image ds @ rest"
  have buf: "pre @ deltas_image (p # ds) @ rest = ?b" by (simp add: deltas_image_def p)
  have ub: "length ?b < usize_bound" using Cons.prems(2) by (simp only: buf)
  have sl: "slice_range ?b (cursor + 2) (cursor + 2 + 8) = Ok (to_le_bytes d)"
    using slice_range_at [of "cursor + 2" "pre @ to_le_bytes c" _ "to_le_bytes d"] Cons.prems(1) by simp
  have step: "decode_deltas (length ds) ?b (cursor + 10) (acc @ [(c, d)]) =
      Ok (acc @ (c, d) # ds, cursor + 10 + length (deltas_image ds))"
    using Cons.IH [of "cursor + 10" "pre @ to_le_bytes c @ to_le_bytes d" "acc @ [(c, d)]"] Cons.prems(1) ub by simp
  show ?case
    unfolding buf length_Cons decode_deltas.simps sl read_u16_at [OF Cons.prems(1) ub] rbind.simps
    using Cons.prems(1) step by (simp add: deltas_image_def p)
qed

fun value_fits :: "combined_value \<Rightarrow> bool" where
  "value_fits (CV_Text bs) \<longleftrightarrow> length bs \<le> 4294967295"
| "value_fits (CV_Blob bs) \<longleftrightarrow> length bs \<le> 4294967295"
| "value_fits _ \<longleftrightarrow> True"

lemma decode_value_image:
  assumes "value_fits v" and "length (value_image v @ rest) < usize_bound"
  shows "decode_combined_value (value_image v @ rest) = Ok (v, length (value_image v))"
  using assms
  by (cases v) (simp_all add: decode_combined_value_def value_image_def combined_tag_defs slice_range_def
      bslice_def unat_u32_of_nat checked_add_usize_def)

lemma value_image_pos: "0 < length (value_image v)"
  by (cases v) (simp_all add: value_image_def)

lemma decode_replacements_image:
  "cursor = length pre \<Longrightarrow> list_all (value_fits \<circ> snd) rs \<Longrightarrow>
     length (pre @ replacements_image rs @ rest) < usize_bound \<Longrightarrow>
     decode_replacements (length rs) (pre @ replacements_image rs @ rest) cursor acc =
       Ok (acc @ rs, cursor + length (replacements_image rs))"
proof (induction rs arbitrary: pre cursor acc)
  case Nil
  then show ?case by (simp add: replacements_image_def)
next
  case (Cons p rs)
  obtain c v where p: "p = (c, v)" by fastforce
  let ?r = "replacements_image rs @ rest"
  let ?b = "pre @ to_le_bytes c @ value_image v @ ?r"
  have buf: "pre @ replacements_image (p # rs) @ rest = ?b" by (simp add: replacements_image_def p)
  have ub: "length ?b < usize_bound" using Cons.prems(3) by (simp only: buf)
  have sl: "slice_range ?b (cursor + 2) (length ?b) = Ok (value_image v @ ?r)"
    using slice_range_at [of "cursor + 2" "pre @ to_le_bytes c" _ "value_image v @ ?r" "[]"] Cons.prems(1) by simp
  have dv: "decode_combined_value (value_image v @ ?r) = Ok (v, length (value_image v))"
    using Cons.prems(2) ub by (intro decode_value_image) (simp_all add: p)
  have step: "decode_replacements (length rs) ?b (cursor + 2 + length (value_image v)) (acc @ [(c, v)]) =
      Ok (acc @ (c, v) # rs, cursor + 2 + length (value_image v) + length (replacements_image rs))"
    using Cons.IH [of "cursor + 2 + length (value_image v)" "pre @ to_le_bytes c @ value_image v" "acc @ [(c, v)]"]
      Cons.prems(1,2) ub by simp
  have long: "\<not> length ?b < cursor + 3"
    using Cons.prems(1) value_image_pos [of v] by simp
  show ?case
    unfolding buf length_Cons decode_replacements.simps sl read_u16_at [OF Cons.prems(1) ub] rbind.simps dv if_not_P [OF long]
    using step by (simp add: replacements_image_def p)
qed

lemma decode_logical_txn_image:
  assumes "length evs * 48 \<le> isize_max" and "list_all event_fits evs"
    and "length (payload_image (LogicalTxn a b evs)) < usize_bound"
  shows "decode_logical_txn (payload_image (LogicalTxn a b evs)) = Ok (LogicalTxn a b evs)"
proof -
  let ?h = "TAG_LOGICAL_TXN # to_le_bytes a @ to_le_bytes b @ to_le_bytes (word_of_nat (length evs) :: u64)"
  have evs: "decode_logical_events (length evs) (?h @ concat (map event_image evs)) 25 [] =
      Ok (evs, 25 + length (concat (map event_image evs)))"
    using decode_events_image [of 25 ?h evs "[]" "[]"] assms by simp
  have n: "unat (word_of_nat (length evs) :: u64) = length evs"
    using assms(1) by (intro unat_u64_of_nat) (simp add: isize_max_def)
  have "bslice (?h @ concat (map event_image evs)) 17 8 = to_le_bytes (word_of_nat (length evs) :: u64)"
    by (simp add: bslice_def)
  then show ?thesis
    using assms(1,3) evs n
    by (simp add: decode_logical_txn_def read_u64_in bslice_def vec_with_capacity_def require_exact_len_def)
qed

lemma decode_combined_image:
  assumes "length ds \<le> 4294967295" and "length rs \<le> 4294967295" and "list_all (value_fits \<circ> snd) rs"
    and ub: "length (payload_image (CombinedSemanticDelta a b c ds rs n)) < usize_bound"
  shows "decode_combined_semantic_delta (payload_image (CombinedSemanticDelta a b c ds rs n)) =
    Ok (CombinedSemanticDelta a b c ds rs n)"
proof -
  let ?h = "TAG_COMBINED_SEMANTIC_DELTA # to_le_bytes a @ to_le_bytes b @ to_le_bytes c @ to_le_bytes n @
    to_le_bytes (word_of_nat (length ds) :: u32)"
  let ?m = "to_le_bytes (word_of_nat (length rs) :: u32)"
  let ?b = "?h @ deltas_image ds @ ?m @ replacements_image rs"
  let ?cur = "33 + length (deltas_image ds)"
  have b: "payload_image (CombinedSemanticDelta a b c ds rs n) = ?b" by simp
  have "decode_deltas (length ds) ?b 33 [] = Ok (ds, ?cur)"
    using decode_deltas_image [of 33 ?h ds "?m @ replacements_image rs" "[]"] ub by simp
  moreover have "read_u32 ?b ?cur = Ok (word_of_nat (length rs))"
    using read_u32_at [of ?cur "?h @ deltas_image ds" "word_of_nat (length rs)" "replacements_image rs"] ub by simp
  moreover have "decode_replacements (length rs) ?b (?cur + 4) [] = Ok (rs, ?cur + 4 + length (replacements_image rs))"
    using decode_replacements_image [of "?cur + 4" "?h @ deltas_image ds @ ?m" rs "[]" "[]"] ub assms(3) by simp
  moreover have "read_u64 ?b 1 = Ok a" "read_u64 ?b 9 = Ok b" "read_u64 ?b 17 = Ok c" "read_u32 ?b 25 = Ok n"
    "read_u32 ?b 29 = Ok (word_of_nat (length ds))"
    using ub by (simp_all add: read_u32_in read_u64_in bslice_def)
  moreover have "vec_with_capacity 16 (length ds) = Ok ()" "vec_with_capacity 40 (length rs) = Ok ()"
    using assms(1,2) by (simp_all add: vec_with_capacity_def isize_max_def)
  ultimately show ?thesis
    unfolding b decode_combined_semantic_delta_def using assms(1,2)
    by (simp add: unat_u32_of_nat require_exact_len_def)
qed

fun payload_ok :: "wal_payload \<Rightarrow> bool" where
  "payload_ok (LogicalTxn _ _ evs) \<longleftrightarrow> length evs * size_of_logical_event \<le> isize_max \<and> list_all event_fits evs"
| "payload_ok (CombinedSemanticDelta _ _ _ _ rs _) \<longleftrightarrow> list_all (value_fits \<circ> snd) rs"
| "payload_ok _ \<longleftrightarrow> True"

lemma image_heads:
  "row_image t a b c q \<noteq> []" "row_image t a b c q ! 0 = t"
  "index_image t a b k r \<noteq> []" "index_image t a b k r ! 0 = t"
  "sized_image t a b q \<noteq> []" "sized_image t a b q ! 0 = t"
  by (simp_all add: row_image_def index_image_def sized_image_def)

lemma payload_decode_image:
  assumes "payload_ok p" and "payload_too_large p = None" and "length (payload_image p) < usize_bound"
  shows "payload_decode (payload_image p) = Ok p"
proof (cases p)
  case (LogicalTxn a b evs)
  then show ?thesis
    using assms decode_logical_txn_image [of evs a b]
    by (simp add: payload_decode_def tag_defs)
next
  case (CombinedSemanticDelta a b c ds rs n)
  then show ?thesis
    using assms decode_combined_image [of ds rs a b c n]
    by (simp add: payload_decode_def tag_defs split: if_splits)
qed (use assms in \<open>simp_all add: payload_decode_def image_heads tag_defs decode_row_image decode_index_image
      decode_sized_image decode_heap_delete_def read_u32_in read_u64_in bslice_def require_exact_len_def
      read_backup_id_def backup_id_image_def backup_id_join split: if_splits\<close>)

interpretation payload_codec: byte_codec payload_encode payload_decode
  "\<lambda>p. payload_ok p \<and> payload_too_large p = None \<and> length (payload_image p) < usize_bound"
  by unfold_locales (auto simp: payload_encode_eq payload_decode_image)

section \<open>Arbitrary bytes\<close>

lemma vec_with_capacity_u32:
  "vec_with_capacity size_of_delta (unat (w :: u32)) = Ok ()"
  "vec_with_capacity size_of_replacement (unat (w :: u32)) = Ok ()"
  using unat_u32_bound [of w] by (simp_all add: vec_with_capacity_def isize_max_def del: unat_u32_bound)

lemma decode_combined_value_used:
  "decode_combined_value bs = Ok (v, used) \<Longrightarrow> used \<le> length bs"
  by (auto simp: decode_combined_value_def Suc_le_eq split: if_splits)

lemma decode_combined_value_no_panic: "decode_combined_value bs \<noteq> Panic"
  by (auto simp: decode_combined_value_def panic_simps)

lemma decode_deltas_no_panic: "decode_deltas n bs cursor acc \<noteq> Panic"
  by (induction n bs cursor acc rule: decode_deltas.induct) (auto simp: panic_simps)

lemma decode_replacements_no_panic: "decode_replacements n bs cursor acc \<noteq> Panic"
proof (induction n bs cursor acc rule: decode_replacements.induct)
  case (2 n bs cursor acc)
  then show ?case
    by (auto simp: panic_simps decode_combined_value_no_panic split: prod.splits)
qed simp

lemma decode_combined_semantic_delta_no_panic: "decode_combined_semantic_delta bs \<noteq> Panic"
  by (auto simp: decode_combined_semantic_delta_def panic_simps vec_with_capacity_u32
      decode_deltas_no_panic decode_replacements_no_panic require_exact_len_def split: prod.splits if_splits)

lemma decode_row_payload_no_panic: "decode_row_payload bs build \<noteq> Panic"
  by (auto simp: decode_row_payload_def panic_simps Let_def split: if_splits)

lemma decode_index_payload_no_panic:
  "(\<And>a b k r. f a b k r \<noteq> Panic) \<Longrightarrow> decode_index_payload bs f \<noteq> Panic"
  by (auto simp: decode_index_payload_def panic_simps require_exact_len_def split: if_splits)

lemma decode_sized_tail_no_panic: "decode_sized_tail msg bs build \<noteq> Panic"
  by (auto simp: decode_sized_tail_def panic_simps require_exact_len_def split: if_splits)

lemma decode_heap_delete_no_panic: "decode_heap_delete bs \<noteq> Panic"
  by (auto simp: decode_heap_delete_def panic_simps require_exact_len_def)

lemma payload_decode_panic:
  assumes "payload_decode bs = Panic"
  shows "bs \<noteq> [] \<and> bs ! 0 = TAG_LOGICAL_TXN \<and> decode_logical_txn bs = Panic"
  using assms
  by (auto simp: payload_decode_def Let_def panic_simps require_exact_len_def read_backup_id_def
      decode_row_payload_no_panic decode_index_payload_no_panic decode_sized_tail_no_panic
      decode_heap_delete_no_panic decode_combined_semantic_delta_no_panic split: if_splits)

section \<open>Properties\<close>

text \<open>
  C22. Every log payload survives encoding and decoding. The payloads that do not fit their
  32-bit length fields are refused by the encoder with the error of their kind. The hypotheses
  are the limits of memory (a vector holds at most \<^verbatim>\<open>isize::MAX\<close> bytes) and, for the texts and
  blobs of a combined delta, the 32-bit length that the encoder does not check.
\<close>

theorem payload_roundtrip:
  assumes "payload_ok p" and "length (payload_image p) < usize_bound"
  shows "rbind (payload_encode p) payload_decode =
    (case payload_too_large p of Some e \<Rightarrow> Err e | None \<Rightarrow> Ok p)"
  using assms by (cases "payload_too_large p") (simp_all add: payload_encode_eq payload_decode_image)

theorem payload_roundtrip_witness:
  "rbind (payload_encode (LogicalTxn 9 48 [Ev_Insert 1 2 [[7], []], Ev_Ddl 3])) payload_decode =
     Ok (LogicalTxn 9 48 [Ev_Insert 1 2 [[7], []], Ev_Ddl 3])"
  using payload_roundtrip [of "LogicalTxn 9 48 [Ev_Insert 1 2 [[7], []], Ev_Ddl 3]"]
  by (simp add: isize_max_def usize_bound_def values_image_def)

text \<open>
  C31. On arbitrary bytes the payload decoder returns a payload or an error, except for a
  logical transaction, whose 64-bit event and value counts size an allocation before anything
  is read: such a payload can panic the process.
\<close>

theorem payload_decode_panics_only_on_counts:
  assumes "payload_decode bs = Panic"
  shows "25 \<le> length bs \<and> bs ! 0 = TAG_LOGICAL_TXN"
proof -
  have "bs ! 0 = TAG_LOGICAL_TXN" and "decode_logical_txn bs = Panic"
    using payload_decode_panic [OF assms] by simp_all
  then show ?thesis by (auto simp: decode_logical_txn_def split: if_splits)
qed

definition huge_count_payload :: "byte list" where
  "huge_count_payload = TAG_LOGICAL_TXN # to_le_bytes (1 :: u64) @ to_le_bytes (0 :: u64) @ to_le_bytes (- 1 :: u64)"

theorem payload_decode_panics_only_on_counts_witness:
  "payload_decode huge_count_payload = Panic \<and>
     25 \<le> length huge_count_payload \<and> huge_count_payload ! 0 = TAG_LOGICAL_TXN"
proof -
  have "unat (- 1 :: u64) = 18446744073709551615" by (simp add: unsigned_minus_1_eq_mask mask_eq_exp_minus_1)
  then have "payload_decode huge_count_payload = Panic"
    by (simp add: huge_count_payload_def payload_decode_def tag_defs decode_logical_txn_def read_u64_in
        usize_bound_def bslice_def vec_with_capacity_def isize_max_def)
  then show ?thesis using payload_decode_panics_only_on_counts [of huge_count_payload] by blast
qed

text \<open>
  The layout of a row payload before the relation id was added, as the fallback branch of
  \<^verbatim>\<open>decode_row_payload\<close> reads it.
\<close>

definition legacy_row_image :: "byte \<Rightarrow> tx_id \<Rightarrow> row_id \<Rightarrow> byte list \<Rightarrow> byte list" where
  "legacy_row_image tag tx row p =
     [tag] @ to_le_bytes tx @ to_le_bytes row @ to_le_bytes (word_of_nat (length p) :: u32) @ p"

text \<open>
  C32. How the decoder reads a row payload of the older layout, which has no version mark. It
  recovers the record when the row has fewer than 8 bytes, or when bytes 4 to 8 of the row read
  as a number below the length of the row less 8. When they read as exactly that number, the
  record is taken for one of the newer layout, with a wrong relation, a wrong row id and a
  truncated row; when they read as more, a valid record is reported as too short.
\<close>

theorem legacy_row_payload_decoding:
  assumes "length p \<le> 4294967295"
  shows "payload_decode (legacy_row_image TAG_HEAP_INSERT tx row p) =
    (let n = unat (from_le_bytes (bslice p 4 4) :: u32) in
     if length p < 8 \<or> n < length p - 8 then Ok (HeapInsert tx 0 row p)
     else if n = length p - 8 then
       Ok (HeapInsert tx row (from_le_bytes (to_le_bytes (word_of_nat (length p) :: u32) @ take 4 p)) (drop 8 p))
     else Err (BufferTooSmall (29 + n) (21 + length p)))"
proof -
  let ?b = "legacy_row_image TAG_HEAP_INSERT tx row p"
  define n where "n = unat (from_le_bytes (bslice p 4 4) :: u32)"
  have "n < 4294967296" by (simp add: n_def)
  then have ub: "29 + n < usize_bound" and lb: "21 + length p < usize_bound"
    using assms by (auto intro: usize_bound_u32)
  have old: "read_u64 ?b 1 = Ok tx" "read_u64 ?b 9 = Ok row" "read_u32 ?b 17 = Ok (word_of_nat (length p))"
    using lb by (simp_all add: legacy_row_image_def read_u32_in read_u64_in bslice_def)
  have new: "read_u32 ?b 25 = Ok (from_le_bytes (bslice p 4 4))"
    "read_u64 ?b 17 = Ok (from_le_bytes (to_le_bytes (word_of_nat (length p) :: u32) @ take 4 p))"
    if "8 \<le> length p"
    using lb that by (simp_all add: legacy_row_image_def read_u32_in read_u64_in bslice_def)
  have len: "length ?b = 21 + length p" by (simp add: legacy_row_image_def)
  have tail: "bslice ?b 21 (length p) = p" "length p = n + 8 \<Longrightarrow> bslice ?b 29 n = drop 8 p"
    by (simp_all add: legacy_row_image_def bslice_def)
  have dec: "payload_decode ?b = decode_row_payload ?b HeapInsert"
    by (simp add: payload_decode_def legacy_row_image_def)
  note defs = old new len tail n_def [symmetric] unat_u32_of_nat checked_add_usize_def slice_range_def
  consider "length p < 8" | "8 \<le> length p" "n + 8 < length p" | "length p = n + 8" | "8 \<le> length p" "length p < n + 8"
    by linarith
  then show ?thesis
    unfolding dec decode_row_payload_def len Let_def n_def [symmetric]
    using assms lb ub
    by cases (auto simp add: defs simp del: One_nat_def rbind_Ok_iff)
qed

theorem legacy_row_payload_decoding_witness:
  "payload_decode (legacy_row_image TAG_HEAP_INSERT 3 5 [1, 2, 3, 4, 1, 0, 0, 0, 9]) =
     Ok (HeapInsert 3 5 (from_le_bytes (to_le_bytes (9 :: u32) @ [1, 2, 3, 4])) [9])"
proof -
  have "from_le_bytes (bslice [1, 2, 3, 4, 1, 0, 0, 0, 9 :: byte] 4 4) = (1 :: u32)" by code_simp
  then show ?thesis
    using legacy_row_payload_decoding [of "[1, 2, 3, 4, 1, 0, 0, 0, 9]" 3 5] by (simp add: Let_def)
qed

end
