(* ===== verification/Wal_Coordinator.thy ===== *)
theory Wal_Coordinator
  imports Wal_Policy Wal_Payload
begin

text \<open>
  \<^verbatim>\<open>crates/kernel/src/wal/manager/coordinator\<close>: the queue between the threads that append to the
  log and the writer thread. A section under the state mutex is one function of the shared
  state, and the writer loop is a step function with one step per section or write. A caller
  or writer that would wait on the condition variable has the value \<open>None\<close>. Telemetry, fail
  points and mutex poisoning are left out.
\<close>

section \<open>Shared state\<close>

record queued_wal_record =
  qr_append :: wal_append
  qr_encoded :: "byte list"

record wal_coordinator_state =
  cs_reserved_lsn :: lsn
  cs_written_lsn :: lsn
  cs_prev_lsn :: lsn
  cs_durable_lsn :: lsn
  cs_pending :: "queued_wal_record list"
  cs_pending_bytes :: nat
  cs_write_requested :: bool
  cs_flush_requested_lsn :: lsn
  cs_shutdown :: bool
  cs_failure :: "string option"

record wal_coordinator =
  co_config :: wal_config
  co_volatile :: bool

definition volatile_state :: wal_coordinator_state where
  "volatile_state =
     \<lparr>cs_reserved_lsn = 0, cs_written_lsn = 0, cs_prev_lsn = 0, cs_durable_lsn = 0, cs_pending = [],
      cs_pending_bytes = 0, cs_write_requested = False, cs_flush_requested_lsn = 0,
      cs_shutdown = False, cs_failure = None\<rparr>"

definition coordinator_new :: "wal_manager \<Rightarrow> wal_coordinator_state" where
  "coordinator_new wal =
     \<lparr>cs_reserved_lsn = wm_written_lsn wal, cs_written_lsn = wm_written_lsn wal,
      cs_prev_lsn = wm_prev_lsn wal, cs_durable_lsn = wm_durable_lsn wal, cs_pending = [],
      cs_pending_bytes = 0, cs_write_requested = False, cs_flush_requested_lsn = 0,
      cs_shutdown = False, cs_failure = None\<rparr>"

definition check_wal_failure :: "wal_coordinator_state \<Rightarrow> unit result" where
  "check_wal_failure state =
     (case cs_failure state of Some message \<Rightarrow> Err (CorruptWal message) | None \<Rightarrow> Ok ())"

definition publish_wal_failure :: "wal_coordinator_state \<Rightarrow> wal_coordinator_state" where
  "publish_wal_failure state = state\<lparr>cs_failure := Some ''wal writer failed''\<rparr>"

definition publish_written_lsn :: "lsn \<Rightarrow> wal_coordinator_state \<Rightarrow> wal_coordinator_state" where
  "publish_written_lsn written_lsn state =
     (if cs_written_lsn state < written_lsn then state\<lparr>cs_written_lsn := written_lsn\<rparr> else state)"

section \<open>Reserving positions and enqueueing\<close>

definition reserve_queued_append :: "u64 \<Rightarrow> u64 \<Rightarrow> lsn \<Rightarrow> (wal_append \<times> lsn) result" where
  "reserve_queued_append segment_bytes encoded_len reserved_lsn =
     (if encoded_len > segment_bytes then Err (CorruptWal ''record larger than wal segment'') else
      rbind (segment_for_lsn reserved_lsn segment_bytes) (\<lambda>current_segment.
      rbind (offset_for_lsn reserved_lsn segment_bytes) (\<lambda>current_offset.
      let start_lsn = (if current_offset > 0 \<and> current_offset + encoded_len > segment_bytes
                       then current_segment * segment_bytes else reserved_lsn)
      in Ok (\<lparr>wa_start_lsn = start_lsn, wa_end_lsn = start_lsn + encoded_len\<rparr>, start_lsn + encoded_len))))"

definition enqueue_reserved_record ::
    "crc_fn \<Rightarrow> u64 \<Rightarrow> wal_record_kind \<Rightarrow> tx_id \<Rightarrow> byte list \<Rightarrow> u64 \<Rightarrow> (wal_coordinator_state, wal_append) action" where
  "enqueue_reserved_record crc segment_bytes kind tx_id payload encoded_len state =
     (case reserve_queued_append segment_bytes encoded_len (cs_reserved_lsn state) of
        Err e \<Rightarrow> (Err e, state) | Panic \<Rightarrow> (Panic, state)
      | Ok (ap, reserved) \<Rightarrow>
          let state = state\<lparr>cs_reserved_lsn := reserved\<rparr> in
          case wal_encode crc \<lparr>wr_lsn = wa_start_lsn ap, wr_prev_lsn = cs_prev_lsn state, wr_tx_id = tx_id,
                               wr_kind = kind, wr_payload = payload\<rparr> of
            Err e \<Rightarrow> (Err e, state) | Panic \<Rightarrow> (Panic, state)
          | Ok encoded \<Rightarrow>
              (Ok ap, state\<lparr>cs_prev_lsn := wa_start_lsn ap,
                            cs_pending_bytes := wrapping_add_usize (cs_pending_bytes state) (length encoded),
                            cs_pending := cs_pending state @ [\<lparr>qr_append = ap, qr_encoded = encoded\<rparr>]\<rparr>))"

text \<open>One round of \<^verbatim>\<open>wait_for_wal_buffer\<close>: the value tells whether the record may be enqueued now.\<close>

definition wait_for_wal_buffer :: "wal_config \<Rightarrow> nat \<Rightarrow> (wal_coordinator_state, bool) action" where
  "wait_for_wal_buffer config encoded_len state =
     (if encoded_len > unat (wc_segment_bytes config)
      then (Err (CorruptWal ''record larger than wal segment''), state)
      else if encoded_len > wc_wal_buffer_bytes config
      then (Err (CorruptWal ''record larger than wal buffer''), state)
      else case check_wal_failure state of
        Err e \<Rightarrow> (Err e, state) | Panic \<Rightarrow> (Panic, state)
      | Ok _ \<Rightarrow>
          if wc_wal_buffer_bytes config - cs_pending_bytes state \<ge> encoded_len then (Ok True, state)
          else (Ok False, state\<lparr>cs_write_requested := True\<rparr>))"

definition zero_append :: wal_append where
  "zero_append = \<lparr>wa_start_lsn = 0, wa_end_lsn = 0\<rparr>"

text \<open>The part of both commit functions after the wait for room.\<close>

definition enqueue_commit :: "crc_fn \<Rightarrow> wal_config \<Rightarrow> tx_id \<Rightarrow> csn \<Rightarrow> (wal_coordinator_state, wal_append) action" where
  "enqueue_commit crc config tx_id csn =
     abind (alift (\<lambda>_. payload_encode (Commit tx_id csn))) (\<lambda>payload.
     abind (enqueue_reserved_record crc (wc_segment_bytes config) Kind_Commit tx_id payload
              (word_of_nat (WAL_HEADER_LEN + 17))) (\<lambda>ap.
     abind (aupdate (\<lambda>state. Ok (state\<lparr>cs_write_requested := True\<rparr>))) (\<lambda>_.
     areturn ap)))"

definition append_commit_with_csn ::
    "crc_fn \<Rightarrow> wal_coordinator \<Rightarrow> tx_id \<Rightarrow> csn \<Rightarrow> (wal_coordinator_state, wal_append option) action" where
  "append_commit_with_csn crc co tx_id csn =
     (if co_volatile co then areturn (Some zero_append) else
      abind (wait_for_wal_buffer (co_config co) (WAL_HEADER_LEN + 17)) (\<lambda>room.
      if \<not> room then areturn None else
      abind (enqueue_commit crc (co_config co) tx_id csn) (\<lambda>ap. areturn (Some ap))))"

text \<open>
  The caller of \<^verbatim>\<open>append_commit\<close> passes a closure that reserves the commit number, with a state
  \<open>'c\<close> of its own. It runs once there is room, under the mutex.
\<close>

definition append_commit ::
    "crc_fn \<Rightarrow> wal_coordinator \<Rightarrow> tx_id \<Rightarrow> ('c \<Rightarrow> csn \<times> 'c) \<Rightarrow>
     (wal_coordinator_state \<times> 'c, (csn \<times> wal_append) option) action" where
  "append_commit crc co tx_id reserve_csn =
     (\<lambda>(state, c).
        if co_volatile co then (case reserve_csn c of (csn, c) \<Rightarrow> (Ok (Some (csn, zero_append)), (state, c)))
        else case wait_for_wal_buffer (co_config co) (WAL_HEADER_LEN + 17) state of
          (Err e, state) \<Rightarrow> (Err e, (state, c)) | (Panic, state) \<Rightarrow> (Panic, (state, c))
        | (Ok room, state) \<Rightarrow>
            if \<not> room then (Ok None, (state, c))
            else case reserve_csn c of (csn, c) \<Rightarrow>
              (case enqueue_commit crc (co_config co) tx_id csn state of
                 (Ok ap, state) \<Rightarrow> (Ok (Some (csn, ap)), (state, c))
               | (Err e, state) \<Rightarrow> (Err e, (state, c)) | (Panic, state) \<Rightarrow> (Panic, (state, c))))"

section \<open>Folding combined deltas\<close>

record combined_semantic_delta_parts =
  cp_tx_id :: tx_id
  cp_rel_id :: rel_id
  cp_row_id :: row_id
  cp_deltas :: "(u16 \<times> u64) list"
  cp_replacements :: "(u16 \<times> combined_value) list"
  cp_batched_count :: u32

definition decode_combined_semantic_delta_parts :: "wal_record_kind \<Rightarrow> tx_id \<Rightarrow> byte list \<Rightarrow> combined_semantic_delta_parts option result" where
  "decode_combined_semantic_delta_parts kind tx_id payload =
     (if kind \<noteq> Kind_PageDelta then Ok None else
      case payload_decode payload of
        Ok (CombinedSemanticDelta candidate_tx_id rel_id row_id deltas replacements batched_count) \<Rightarrow>
          Ok (if candidate_tx_id = tx_id
              then Some \<lparr>cp_tx_id = candidate_tx_id, cp_rel_id = rel_id, cp_row_id = row_id, cp_deltas = deltas,
                         cp_replacements = replacements, cp_batched_count = batched_count\<rparr>
              else None)
      | Panic \<Rightarrow> Panic
      | _ \<Rightarrow> Ok None)"

text \<open>Replace the last slot of the column, or push a new one.\<close>

definition set_replacement ::
    "(u16 \<times> combined_value) list \<Rightarrow> u16 \<times> combined_value \<Rightarrow> (u16 \<times> combined_value) list" where
  "set_replacement rs cv =
     (case cv of (col, v) \<Rightarrow>
        if col \<in> fst ` set rs
        then rev (AList.update col v (rev rs))
        else rs @ [(col, v)])"

definition merge_combined_semantic_delta_parts :: "combined_semantic_delta_parts \<Rightarrow> combined_semantic_delta_parts \<Rightarrow> wal_payload" where
  "merge_combined_semantic_delta_parts left right =
     CombinedSemanticDelta (cp_tx_id left) (cp_rel_id left) (cp_row_id left)
       (cp_deltas left @ cp_deltas right)
       (foldl set_replacement (cp_replacements left) (cp_replacements right))
       (saturating_add_word (cp_batched_count left) (cp_batched_count right))"

definition checked_sub_add :: "nat \<Rightarrow> nat \<Rightarrow> nat \<Rightarrow> nat option" where
  "checked_sub_add a b c = Option.bind (checked_sub_usize a b) (\<lambda>v. checked_add_usize v c)"

definition fold_replace_last ::
    "wal_append \<Rightarrow> byte list \<Rightarrow> nat \<Rightarrow> wal_coordinator_state \<Rightarrow> wal_coordinator_state" where
  "fold_replace_last ap encoded pending_bytes state =
     state\<lparr>cs_pending := butlast (cs_pending state) @ [\<lparr>qr_append = ap, qr_encoded = encoded\<rparr>],
           cs_pending_bytes := pending_bytes, cs_reserved_lsn := wa_end_lsn ap\<rparr>"

definition try_fold_pending_combined_semantic_delta ::
    "crc_fn \<Rightarrow> wal_config \<Rightarrow> wal_record_kind \<Rightarrow> combined_semantic_delta_parts \<Rightarrow> (wal_coordinator_state, wal_append option) action" where
  "try_fold_pending_combined_semantic_delta crc config kind candidate state =
     (if kind \<noteq> Kind_PageDelta \<or> cs_pending state = [] then (Ok None, state) else
      let last_q = last (cs_pending state) in
      case wal_decode crc (qr_encoded last_q) of
        Err _ \<Rightarrow> (Ok None, state) | Panic \<Rightarrow> (Panic, state)
      | Ok last_record \<Rightarrow>
      if wr_kind last_record \<noteq> kind \<or> wr_tx_id last_record \<noteq> cp_tx_id candidate then (Ok None, state) else
      case decode_combined_semantic_delta_parts kind (wr_tx_id last_record) (wr_payload last_record) of
        Err e \<Rightarrow> (Err e, state) | Panic \<Rightarrow> (Panic, state) | Ok None \<Rightarrow> (Ok None, state)
      | Ok (Some parts) \<Rightarrow>
      if cp_tx_id parts \<noteq> cp_tx_id candidate \<or> cp_rel_id parts \<noteq> cp_rel_id candidate \<or>
         cp_row_id parts \<noteq> cp_row_id candidate then (Ok None, state) else
      case payload_encode (merge_combined_semantic_delta_parts parts candidate) of
        Err e \<Rightarrow> (Err e, state) | Panic \<Rightarrow> (Panic, state)
      | Ok merged_bytes \<Rightarrow>
      case checked_add_usize WAL_HEADER_LEN (length merged_bytes) of
        None \<Rightarrow> (Err (CorruptWal ''record length overflow''), state)
      | Some merged_len \<Rightarrow>
      if merged_len > unat (wc_segment_bytes config) \<or> merged_len > wc_wal_buffer_bytes config then (Ok None, state) else
      case checked_sub_add (cs_pending_bytes state) (length (qr_encoded last_q)) merged_len of
        None \<Rightarrow> (Err (CorruptWal ''pending WAL bytes overflow''), state)
      | Some new_pending_bytes \<Rightarrow>
      if new_pending_bytes > wc_wal_buffer_bytes config then (Ok None, state) else
      let start_lsn = wa_start_lsn (qr_append last_q) in
      case offset_for_lsn start_lsn (wc_segment_bytes config) of
        Err e \<Rightarrow> (Err e, state) | Panic \<Rightarrow> (Panic, state)
      | Ok offset \<Rightarrow>
      if saturating_add_word offset (word_of_nat merged_len) > wc_segment_bytes config then (Ok None, state) else
      case wal_encode crc \<lparr>wr_lsn = start_lsn, wr_prev_lsn = wr_prev_lsn last_record, wr_tx_id = cp_tx_id candidate,
                           wr_kind = kind, wr_payload = merged_bytes\<rparr> of
        Err e \<Rightarrow> (Err e, state) | Panic \<Rightarrow> (Panic, state)
      | Ok merged_encoded \<Rightarrow>
      let ap = \<lparr>wa_start_lsn = start_lsn, wa_end_lsn = start_lsn + word_of_nat (length merged_encoded)\<rparr>
      in (Ok (Some ap), fold_replace_last ap merged_encoded new_pending_bytes state))"

text \<open>
  The second half of \<^verbatim>\<open>append_with_payload\<close>, which takes the mutex again: the value \<open>None\<close> means
  that there is no room yet, and the caller runs this part again once it is woken.
\<close>

definition append_enqueue ::
    "crc_fn \<Rightarrow> wal_config \<Rightarrow> wal_record_kind \<Rightarrow> tx_id \<Rightarrow> byte list \<Rightarrow> nat \<Rightarrow> bool \<Rightarrow>
     (wal_coordinator_state, wal_append option) action" where
  "append_enqueue crc config kind tx_id payload encoded_len combined =
     abind (wait_for_wal_buffer config encoded_len) (\<lambda>room.
     if \<not> room then areturn None else
     abind (enqueue_reserved_record crc (wc_segment_bytes config) kind tx_id payload (word_of_nat encoded_len)) (\<lambda>ap.
     abind (aupdate (\<lambda>state. Ok (if combined then state else state\<lparr>cs_write_requested := True\<rparr>))) (\<lambda>_.
     areturn (Some ap))))"

definition append_with_payload ::
    "crc_fn \<Rightarrow> wal_coordinator \<Rightarrow> wal_record_kind \<Rightarrow> tx_id \<Rightarrow> byte list \<Rightarrow>
     (wal_coordinator_state, wal_append option) action" where
  "append_with_payload crc co kind tx_id payload =
     (if co_volatile co then areturn (Some zero_append) else
      let config = co_config co in
      abind (alift (\<lambda>_. ok_or (CorruptWal ''record length overflow'')
                          (checked_add_usize WAL_HEADER_LEN (length payload)))) (\<lambda>encoded_len.
      if encoded_len > unat (wc_segment_bytes config)
      then alift (\<lambda>_. Err (CorruptWal ''record larger than wal segment''))
      else if encoded_len > wc_wal_buffer_bytes config
      then alift (\<lambda>_. Err (CorruptWal ''record larger than wal buffer''))
      else
      abind (alift (\<lambda>_. if wc_semantic_combiner config
                        then decode_combined_semantic_delta_parts kind tx_id payload else Ok None)) (\<lambda>combined.
      abind (alift check_wal_failure) (\<lambda>_.
      abind (case combined of
               Some candidate \<Rightarrow> try_fold_pending_combined_semantic_delta crc config kind candidate
             | None \<Rightarrow> areturn None) (\<lambda>folded.
      case folded of
        Some ap \<Rightarrow> areturn (Some ap)
      | None \<Rightarrow> append_enqueue crc config kind tx_id payload encoded_len (combined \<noteq> None))))))"

section \<open>Waiting for the log\<close>

text \<open>One round of the loops in \<^verbatim>\<open>flush_until\<close> and \<^verbatim>\<open>write_until\<close>; \<open>None\<close> means that the caller waits.\<close>

definition flush_until :: "wal_coordinator \<Rightarrow> lsn \<Rightarrow> (wal_coordinator_state, lsn option) action" where
  "flush_until co target_lsn =
     (if co_volatile co then areturn (Some 0) else
      abind (alift check_wal_failure) (\<lambda>_ state.
        if cs_durable_lsn state \<ge> target_lsn then (Ok (Some (cs_durable_lsn state)), state)
        else (Ok None, if target_lsn > cs_flush_requested_lsn state
                       then state\<lparr>cs_flush_requested_lsn := target_lsn\<rparr> else state)))"

definition write_until :: "wal_coordinator \<Rightarrow> lsn \<Rightarrow> (wal_coordinator_state, lsn option) action" where
  "write_until co target_lsn =
     (if co_volatile co then areturn (Some 0) else
      abind (alift check_wal_failure) (\<lambda>_ state.
        if cs_written_lsn state \<ge> target_lsn then (Ok (Some (cs_written_lsn state)), state)
        else (Ok None, state\<lparr>cs_write_requested := True\<rparr>)))"

definition flush_all :: "wal_coordinator \<Rightarrow> (wal_coordinator_state, lsn option) action" where
  "flush_all co state =
     (if co_volatile co then (Ok (Some 0), state) else flush_until co (cs_reserved_lsn state) state)"

definition coordinator_written_lsn :: "wal_coordinator \<Rightarrow> wal_coordinator_state \<Rightarrow> lsn" where
  "coordinator_written_lsn co state = (if co_volatile co then 0 else cs_written_lsn state)"

definition coordinator_durable_lsn :: "wal_coordinator \<Rightarrow> wal_coordinator_state \<Rightarrow> lsn" where
  "coordinator_durable_lsn co state = (if co_volatile co then 0 else cs_durable_lsn state)"

text \<open>Pruning works on the directory and not through the writer.\<close>

definition coordinator_prune ::
    "wal_coordinator \<Rightarrow> lsn \<Rightarrow> wal_coordinator_state \<Rightarrow> wal_files \<Rightarrow> (nat \<times> wal_files) result" where
  "coordinator_prune co checkpoint_lsn state fs =
     (if co_volatile co then Ok (0, fs) else
      rbind (segment_for_lsn checkpoint_lsn (wc_segment_bytes (co_config co))) (\<lambda>keep_segment.
      rbind (segment_for_lsn (cs_reserved_lsn state) (wc_segment_bytes (co_config co))) (\<lambda>active_segment.
      let victims = filter (\<lambda>c. c < keep_segment \<and> c < active_segment) (segment_numbers fs)
      in Ok (length victims, fold (\<lambda>c fs. AList.delete (segment_name c) fs) victims fs))))"

definition coordinator_drop :: "wal_coordinator_state \<Rightarrow> wal_coordinator_state" where
  "coordinator_drop state = state\<lparr>cs_shutdown := True\<rparr>"

section \<open>The writer\<close>

text \<open>The loop that pops records until the batch limit or the target, if there is one, is reached.\<close>

fun pop_batch ::
    "nat \<Rightarrow> lsn option \<Rightarrow> nat \<Rightarrow> queued_wal_record list \<Rightarrow> nat \<Rightarrow>
     queued_wal_record list \<times> queued_wal_record list \<times> nat" where
  "pop_batch limit target batch_bytes [] pending_bytes = ([], [], pending_bytes)"
| "pop_batch limit target batch_bytes (q # qs) pending_bytes =
     (let batch_bytes = wrapping_add_usize batch_bytes (length (qr_encoded q));
          pending_bytes = pending_bytes - length (qr_encoded q)
      in if batch_bytes \<ge> limit \<or> (case target of Some t \<Rightarrow> wa_end_lsn (qr_append q) \<ge> t | None \<Rightarrow> False)
         then ([q], qs, pending_bytes)
         else (case pop_batch limit target batch_bytes qs pending_bytes of
                 (batch, rest, pending_bytes) \<Rightarrow> (q # batch, rest, pending_bytes)))"

definition resample_flush_target :: "wal_config \<Rightarrow> lsn \<Rightarrow> wal_coordinator_state \<Rightarrow> lsn" where
  "resample_flush_target config current state =
     (if cs_flush_requested_lsn state > current then
        if \<not> default_resample_flush_target ((context_from_config config)
                \<lparr>sc_pending_bytes := cs_pending_bytes state, sc_pending_records := length (cs_pending state),
                 sc_flush_gap_bytes := saturating_sub_word (cs_flush_requested_lsn state) current\<rparr>)
        then current else cs_flush_requested_lsn state
      else current)"

text \<open>
  Where the writer thread stands: at the head of the loop; writing a batch, with the last end
  position, the flush target if a flush was requested, and the shutdown flag it saw; after the
  group commit window; at the head of \<^verbatim>\<open>drain_until\<close> or writing a batch of it; before either
  call of \<^verbatim>\<open>flush\<close>; or returned.
\<close>

datatype writer_pc =
    W_Head
  | W_Writing "queued_wal_record list" lsn "lsn option" bool
  | W_Window lsn
  | W_Drain lsn
  | W_Drain_Writing "queued_wal_record list" lsn lsn
  | W_Flush
  | W_Shutdown_Flush
  | W_Returned

record wal_system =
  sys_pc :: writer_pc
  sys_state :: wal_coordinator_state
  sys_wal :: wal_manager

definition writer_take :: "wal_config \<Rightarrow> wal_coordinator_state \<Rightarrow> writer_pc \<times> wal_coordinator_state" where
  "writer_take config state =
     (if cs_shutdown state \<and> cs_pending state = [] then (W_Returned, state)
      else
        let batch_limit = default_write_batch_bytes
              (context_with_pending config (cs_pending_bytes state) (length (cs_pending state)));
            (batch, rest, pending_bytes) = pop_batch batch_limit None 0 (cs_pending state) (cs_pending_bytes state)
        in (W_Writing batch 0
              (if cs_flush_requested_lsn state > cs_durable_lsn state then Some (cs_flush_requested_lsn state) else None)
              (cs_shutdown state),
            state\<lparr>cs_pending := rest, cs_pending_bytes := pending_bytes, cs_write_requested := (rest \<noteq> [])\<rparr>))"

definition writer_take_until :: "wal_config \<Rightarrow> lsn \<Rightarrow> wal_coordinator_state \<Rightarrow> writer_pc \<times> wal_coordinator_state" where
  "writer_take_until config target_lsn state =
     (case pop_batch (max (default_drain_batch_bytes (context_from_config config)) 1) (Some target_lsn) 0
             (cs_pending state) (cs_pending_bytes state) of
        (batch, rest, pending_bytes) \<Rightarrow>
          (W_Drain_Writing batch 0 target_lsn, state\<lparr>cs_pending := rest, cs_pending_bytes := pending_bytes\<rparr>))"

definition publish_last_written :: "lsn \<Rightarrow> wal_coordinator_state \<Rightarrow> wal_coordinator_state" where
  "publish_last_written last_written state =
     (if last_written \<noteq> 0 then publish_written_lsn last_written state else state)"

definition writer_write :: "(lsn \<Rightarrow> writer_pc) \<Rightarrow> queued_wal_record \<Rightarrow> wal_system \<Rightarrow> wal_system" where
  "writer_write continue q sys =
     (case write_encoded (qr_append q) (qr_encoded q) (sys_wal sys) of
        (Ok _, wal) \<Rightarrow> sys\<lparr>sys_pc := continue (wa_end_lsn (qr_append q)), sys_wal := wal\<rparr>
      | (_, wal) \<Rightarrow> sys\<lparr>sys_pc := W_Returned, sys_wal := wal, sys_state := publish_wal_failure (sys_state sys)\<rparr>)"

definition publish_durable :: "bool \<Rightarrow> lsn \<Rightarrow> wal_coordinator_state \<Rightarrow> wal_coordinator_state" where
  "publish_durable requested durable_lsn state =
     (let state = state\<lparr>cs_durable_lsn := durable_lsn\<rparr>
      in if requested \<and> cs_flush_requested_lsn state \<le> durable_lsn then state\<lparr>cs_flush_requested_lsn := 0\<rparr> else state)"

definition writer_flush :: "bool \<Rightarrow> wal_system \<Rightarrow> wal_system" where
  "writer_flush requested sys =
     (case wal_flush (sys_wal sys) of
        (Ok durable_lsn, wal) \<Rightarrow>
          sys\<lparr>sys_pc := W_Head, sys_wal := wal, sys_state := publish_durable requested durable_lsn (sys_state sys)\<rparr>
      | (_, wal) \<Rightarrow> sys\<lparr>sys_pc := W_Returned, sys_wal := wal, sys_state := publish_wal_failure (sys_state sys)\<rparr>)"

definition writer_drain :: "wal_config \<Rightarrow> lsn \<Rightarrow> wal_system \<Rightarrow> wal_system option" where
  "writer_drain config target_lsn sys =
     (let state = sys_state sys in
      if wm_written_lsn (sys_wal sys) \<ge> target_lsn then Some (sys\<lparr>sys_pc := W_Flush\<rparr>)
      else if cs_pending state \<noteq> [] then
        (case writer_take_until config target_lsn state of (pc, state) \<Rightarrow> Some (sys\<lparr>sys_pc := pc, sys_state := state\<rparr>))
      else if cs_failure state = None \<and> \<not> cs_shutdown state then None
      else case check_wal_failure state of
             Ok _ \<Rightarrow> Some sys
           | _ \<Rightarrow> Some (sys\<lparr>sys_pc := W_Returned, sys_state := publish_wal_failure state\<rparr>))"

definition writer_step :: "wal_config \<Rightarrow> bool \<Rightarrow> wal_system \<Rightarrow> wal_system option" where
  "writer_step config flush_on_shutdown sys =
     (let state = sys_state sys in
      case sys_pc sys of
        W_Head \<Rightarrow>
          if \<not> cs_write_requested state \<and> cs_flush_requested_lsn state \<le> cs_durable_lsn state \<and> \<not> cs_shutdown state
          then None
          else (case writer_take config state of (pc, state) \<Rightarrow> Some (sys\<lparr>sys_pc := pc, sys_state := state\<rparr>))
      | W_Writing (q # qs) _ target shutdown \<Rightarrow> Some (writer_write (\<lambda>last_written. W_Writing qs last_written target shutdown) q sys)
      | W_Writing [] last_written target shutdown \<Rightarrow>
          Some (sys\<lparr>sys_state := publish_last_written last_written state,
                    sys_pc := (case target of Some t \<Rightarrow> W_Window t
                               | None \<Rightarrow> if shutdown \<and> flush_on_shutdown \<and> last_written \<noteq> 0 then W_Shutdown_Flush
                                         else W_Head)\<rparr>)
      | W_Window target \<Rightarrow> Some (sys\<lparr>sys_pc := W_Drain (resample_flush_target config target state)\<rparr>)
      | W_Drain target \<Rightarrow> writer_drain config target sys
      | W_Drain_Writing (q # qs) _ target \<Rightarrow> Some (writer_write (\<lambda>last_written. W_Drain_Writing qs last_written target) q sys)
      | W_Drain_Writing [] last_written target \<Rightarrow>
          Some (sys\<lparr>sys_state := publish_last_written last_written state, sys_pc := W_Drain target\<rparr>)
      | W_Flush \<Rightarrow> Some (writer_flush True sys)
      | W_Shutdown_Flush \<Rightarrow> Some (writer_flush False sys)
      | W_Returned \<Rightarrow> None)"

end
