(* ===== verification/Wal_Group_Commit.thy ===== *)
theory Wal_Group_Commit
  imports Wal_Coordinator
begin

text \<open>
  Correctness of the coordinator and its writer thread under every interleaving. The queue of
  reserved records is a function of where the log ends and of the operations that are still to
  be written, so that it does not change when the log is synced.
\<close>

section \<open>Reserved positions and write positions\<close>

lemma wal_position_nat:
  assumes inv: "wal_inv crc w first segs" and off: "unat (wm_active_offset w) < unat (wm_segment_bytes w)"
  shows "unat (wal_position w) = (first + length segs - 2) * unat (wm_segment_bytes w) + unat (wm_active_offset w)"
    and "segment_for_lsn (wal_position w) (wm_segment_bytes w) = Ok (wm_active_segment w)"
    and "offset_for_lsn (wal_position w) (wm_segment_bytes w) = Ok (wm_active_offset w)"
proof -
  note i = wal_invD [OF inv] and d = log_dirD [OF wal_invD(2) [OF inv]]
  let ?k = "first + length segs - 1" let ?o = "unat (wm_active_offset w)"
  have k: "1 \<le> ?k" using d(4,5) by (cases segs) auto
  have pos: "wal_position w = word_of_nat ((?k - 1) * unat (wm_segment_bytes w) + ?o)"
    using wal_position_inv [OF inv] i(4) by (simp add: numeral_2_eq_2 diff_diff_left)
  show "unat (wal_position w) = (first + length segs - 2) * unat (wm_segment_bytes w) + ?o"
    unfolding pos using unat_u64_of_nat [OF segment_base_bound [OF k d(6) off]] by (simp add: numeral_2_eq_2 diff_diff_left)
  show "segment_for_lsn (wal_position w) (wm_segment_bytes w) = Ok (wm_active_segment w)"
    unfolding pos i(3) by (rule position_split(1) [OF k d(6) off])
  show "offset_for_lsn (wal_position w) (wm_segment_bytes w) = Ok (wm_active_offset w)"
    unfolding pos position_split(2) [OF k d(6) off] by simp
qed

lemma wal_position_rotate: "wal_position (rotate_segment w) = wm_active_segment w * wm_segment_bytes w"
  by (simp add: wal_position_def rotate_segment_def)

text \<open>The place that a record of \<open>n\<close> bytes gets in the log \<open>w\<close>.\<close>

definition next_append :: "nat \<Rightarrow> wal_manager \<Rightarrow> wal_append" where
  "next_append n w =
     \<lparr>wa_start_lsn = wal_position (wal_make_room n w),
      wa_end_lsn = wal_position (wal_make_room n w) + word_of_nat n\<rparr>"

lemma write_reserved:
  assumes inv: "wal_inv crc w first segs" and off: "unat (wm_active_offset w) < unat (wm_segment_bytes w)"
    and room: "(first + length segs) * unat (wm_segment_bytes w) \<le> 2 ^ 64"
    and n: "length encoded \<le> unat (wm_segment_bytes w)"
  defines "v \<equiv> wal_make_room (length encoded) w"
  shows "write_encoded (next_append (length encoded) w) encoded w =
    (Ok (), wal_written (next_append (length encoded) w) encoded v)"
proof (cases "v = w")
  case True
  then show ?thesis using n by (simp add: next_append_def v_def write_encoded_at)
next
  case False
  then have v: "v = rotate_segment w" and need: "0 < unat (wm_active_offset w)"
    "unat (wm_segment_bytes w) < unat (wm_active_offset w) + length encoded"
    by (auto simp: v_def wal_make_room_def split: if_splits)
  have sb: "unat (wm_segment_bytes w) < 2 ^ 62" using log_dirD(3) [OF wal_invD(2) [OF inv]] .
  have b: "unat (wm_active_offset w) < 2 ^ 63" "length encoded < 2 ^ 63" using off n sb by simp_all
  have guard: "0 < wm_active_offset w" "wm_segment_bytes w < wm_active_offset w + word_of_nat (length encoded)"
    using need word_add_less_iff [OF b] by (simp_all add: word_less_nat_alt [of 0])
  have "offset_for_lsn (wal_position v) (wm_segment_bytes v) = Ok (wm_active_offset v)"
    unfolding v by (rule wal_position_nat [OF wal_inv_rotate [OF inv room]]) (use off in simp)
  then have ne: "wal_position w \<noteq> wal_position v"
    using wal_position_nat(3) [OF inv off] need(1) by (auto simp: v)
  have ap: "wa_start_lsn (next_append (length encoded) w) = wal_position v" by (simp add: next_append_def v_def)
  show ?thesis
    using n guard ne ap by (simp add: write_encoded_def wal_written_def Let_def v [symmetric])
qed

text \<open>
  A log that can take the next reserved record: its last record does not fill the active
  segment, and the written position is where the next write goes.
\<close>

definition log_ready :: "crc_fn \<Rightarrow> wal_manager \<Rightarrow> nat \<Rightarrow> wal_record list list \<Rightarrow> bool" where
  "log_ready crc w first segs \<longleftrightarrow>
     wal_inv crc w first segs \<and> unat (wm_active_offset w) < unat (wm_segment_bytes w) \<and>
     wm_written_lsn w = wal_position w"

lemma log_readyD:
  assumes "log_ready crc w first segs"
  shows "wal_inv crc w first segs" "unat (wm_active_offset w) < unat (wm_segment_bytes w)"
    "wm_written_lsn w = wal_position w"
  using assms by (simp_all add: log_ready_def)

lemma full_segment_position:
  assumes inv: "wal_inv crc w first segs" and full: "unat (wm_active_offset w) = unat (wm_segment_bytes w)"
    and room: "(first + length segs) * unat (wm_segment_bytes w) \<le> 2 ^ 64"
  shows "wal_position w mod wm_segment_bytes w = 0"
proof -
  note i = wal_invD [OF inv] and d = log_dirD [OF wal_invD(2) [OF inv]]
  have "wm_active_offset w = wm_segment_bytes w" using full by (simp only: word_unat_eq_iff)
  then have "wal_position w = wal_position (rotate_segment w)"
    by (simp add: wal_position_def rotate_segment_def algebra_simps)
  moreover have "offset_for_lsn (wal_position (rotate_segment w)) (wm_segment_bytes (rotate_segment w)) =
      Ok (wm_active_offset (rotate_segment w))"
    using d(2) by (intro wal_position_nat(3) [OF wal_inv_rotate [OF inv room]]) simp
  ultimately show ?thesis by (simp add: offset_for_lsn_def split: if_splits)
qed

text \<open>Writing one reserved record extends the log by exactly that record.\<close>

lemma write_reserved_record:
  fixes kind tx payload
  assumes ready: "log_ready crc w first segs"
    and room: "(Suc (first + length segs)) * unat (wm_segment_bytes w) \<le> 2 ^ 64"
    and fits: "op_fits (wm_segment_bytes w) (kind, tx, payload)"
  defines "ap \<equiv> next_append (48 + length payload) w"
  defines "r \<equiv> appended_record ap w kind tx payload"
  assumes inside: "wa_end_lsn ap mod wm_segment_bytes w \<noteq> 0"
  obtains w' segs' where "write_encoded ap (wal_image crc r) w = (Ok (), w')" and "log_ready crc w' first segs'"
    and "concat segs' = concat segs @ [r]" and "length segs' \<le> Suc (length segs)" and "wm_config w' = wm_config w"
    and "wm_prev_lsn w' = wa_start_lsn ap" and "wal_position w' = wa_end_lsn ap"
    and "\<And>n. durable_records crc w first segs n \<Longrightarrow> durable_records crc w' first segs' n"
proof -
  note rd = log_readyD [OF ready]
  have room': "(first + length segs) * unat (wm_segment_bytes w) \<le> 2 ^ 64" using room by simp
  have f: "length payload \<le> 4294967295" "48 + length payload \<le> unat (wm_segment_bytes w)"
    using fits by (simp_all add: op_fits_def)
  let ?w = "wal_written ap (wal_image crc r) (wal_make_room (48 + length payload) w)"
  have run: "wal_append_record crc kind tx payload w = (Ok ap, ?w)"
    using wal_append_run [OF rd(1) room' f, of kind tx] by (simp add: ap_def r_def next_append_def)
  obtain ss where ss: "wal_inv crc ?w first ss" "concat ss = concat segs @ [r]" "length ss \<le> Suc (length segs)"
    "\<And>n. durable_records crc w first segs n \<Longrightarrow> durable_records crc ?w first ss n"
    using wal_append_inv [OF rd(1) room' f, of kind tx] run unfolding r_def by (metis Pair_inject result.inject(1))
  have pos: "wal_position ?w = wa_end_lsn ap" "wm_config ?w = wm_config w"
    by (simp_all add: ap_def next_append_def wal_written_def wal_position_def r_def)
  have "(first + length ss) * unat (wm_segment_bytes ?w) \<le> 2 ^ 64"
    using room unfolding pos by (rule le_trans [rotated]) (intro mult_le_mono1, use ss(3) in simp)
  then have "unat (wm_active_offset ?w) \<noteq> unat (wm_segment_bytes ?w)"
    using full_segment_position [OF ss(1)] inside pos by auto
  then have "unat (wm_active_offset ?w) < unat (wm_segment_bytes ?w)" using wal_inv_offset [OF ss(1)] by linarith
  then have ready': "log_ready crc ?w first ss" using ss(1) pos by (simp add: log_ready_def wal_written_def)
  have "write_encoded ap (wal_image crc r) w = (Ok (), ?w)"
    using write_reserved [OF rd(1,2) room', of "wal_image crc r"] f(2) by (simp add: ap_def r_def)
  then show ?thesis
    by (rule that [OF _ ready' ss(2,3) pos(2) _ pos(1) ss(4)]) (simp add: wal_written_def)
qed

section \<open>The system of clients and writer\<close>

text \<open>
  All interleavings of the clients' critical sections with the steps of the writer. The history
  lists the records that appends and commits have returned, with their positions.
\<close>

type_synonym history = "(wal_append \<times> wal_op) list"

definition returned :: "wal_append option result \<Rightarrow> wal_op \<Rightarrow> history" where
  "returned res op = (case res of Ok (Some ap) \<Rightarrow> [(ap, op)] | _ \<Rightarrow> [])"

inductive coord_reach ::
    "crc_fn \<Rightarrow> wal_coordinator \<Rightarrow> bool \<Rightarrow> wal_manager \<Rightarrow> history \<Rightarrow> wal_system \<Rightarrow> bool"
  for crc co flush_on_shutdown w0 where
  start: "coord_reach crc co flush_on_shutdown w0 []
      \<lparr>sys_pc = W_Head, sys_state = coordinator_new w0, sys_wal = w0\<rparr>"
| append: "coord_reach crc co flush_on_shutdown w0 h s \<Longrightarrow>
    append_with_payload crc co kind tx payload (sys_state s) = (res, st) \<Longrightarrow>
    coord_reach crc co flush_on_shutdown w0 (h @ returned res (kind, tx, payload)) (s\<lparr>sys_state := st\<rparr>)"
| commit: "coord_reach crc co flush_on_shutdown w0 h s \<Longrightarrow>
    append_commit_with_csn crc co tx csn (sys_state s) = (res, st) \<Longrightarrow>
    payload_encode (Commit tx csn) = Ok payload \<Longrightarrow>
    coord_reach crc co flush_on_shutdown w0 (h @ returned res (Kind_Commit, tx, payload)) (s\<lparr>sys_state := st\<rparr>)"
| flush: "coord_reach crc co flush_on_shutdown w0 h s \<Longrightarrow> flush_until co target (sys_state s) = (flushed, st) \<Longrightarrow>
    coord_reach crc co flush_on_shutdown w0 h (s\<lparr>sys_state := st\<rparr>)"
| written: "coord_reach crc co flush_on_shutdown w0 h s \<Longrightarrow> write_until co target (sys_state s) = (flushed, st) \<Longrightarrow>
    coord_reach crc co flush_on_shutdown w0 h (s\<lparr>sys_state := st\<rparr>)"
| drop: "coord_reach crc co flush_on_shutdown w0 h s \<Longrightarrow>
    coord_reach crc co flush_on_shutdown w0 h (s\<lparr>sys_state := coordinator_drop (sys_state s)\<rparr>)"
| writer: "coord_reach crc co flush_on_shutdown w0 h s \<Longrightarrow> writer_step (co_config co) flush_on_shutdown s = Some s' \<Longrightarrow>
    coord_reach crc co flush_on_shutdown w0 h s'"

fun in_flight :: "writer_pc \<Rightarrow> queued_wal_record list" where
  "in_flight (W_Writing qs _ _ _) = qs"
| "in_flight (W_Drain_Writing qs _ _) = qs"
| "in_flight _ = []"

definition outstanding :: "wal_system \<Rightarrow> queued_wal_record list" where
  "outstanding s = in_flight (sys_pc s) @ cs_pending (sys_state s)"

section \<open>The queue as a function of the write position\<close>

text \<open>Where the log ends: active segment, offset in it, and the position of the last record.\<close>

type_synonym wal_view = "nat \<times> nat \<times> lsn"

definition wal_view :: "wal_manager \<Rightarrow> wal_view" where
  "wal_view w = (unat (wm_active_segment w), unat (wm_active_offset w), wm_prev_lsn w)"

definition view_pos :: "u64 \<Rightarrow> wal_view \<Rightarrow> nat" where
  "view_pos sb v = (fst v - 1) * unat sb + fst (snd v)"

definition view_room :: "u64 \<Rightarrow> nat \<Rightarrow> wal_view \<Rightarrow> wal_view" where
  "view_room sb n v =
     (case v of (m, off, prev) \<Rightarrow> if 0 < off \<and> unat sb < off + n then (m + 1, 0, prev) else (m, off, prev))"

definition op_len :: "wal_op \<Rightarrow> nat" where
  "op_len op = 48 + length (snd (snd op))"

definition view_append :: "u64 \<Rightarrow> wal_view \<Rightarrow> wal_op \<Rightarrow> wal_append" where
  "view_append sb v op =
     (let start = word_of_nat (view_pos sb (view_room sb (op_len op) v))
      in \<lparr>wa_start_lsn = start, wa_end_lsn = start + word_of_nat (op_len op)\<rparr>)"

definition view_record :: "u64 \<Rightarrow> wal_view \<Rightarrow> wal_op \<Rightarrow> wal_record" where
  "view_record sb v op =
     \<lparr>wr_lsn = wa_start_lsn (view_append sb v op), wr_prev_lsn = snd (snd v), wr_tx_id = fst (snd op),
      wr_kind = fst op, wr_payload = snd (snd op)\<rparr>"

definition view_queued :: "crc_fn \<Rightarrow> u64 \<Rightarrow> wal_view \<Rightarrow> wal_op \<Rightarrow> queued_wal_record" where
  "view_queued crc sb v op = \<lparr>qr_append = view_append sb v op, qr_encoded = wal_image crc (view_record sb v op)\<rparr>"

definition view_after :: "u64 \<Rightarrow> wal_view \<Rightarrow> wal_op \<Rightarrow> wal_view" where
  "view_after sb v op =
     (case view_room sb (op_len op) v of
        (m, off, prev) \<Rightarrow> (m, off + op_len op, wa_start_lsn (view_append sb v op)))"

definition plan_view :: "u64 \<Rightarrow> wal_view \<Rightarrow> wal_op list \<Rightarrow> wal_view" where
  "plan_view sb v ops = foldl (view_after sb) v ops"

fun plan_queue :: "crc_fn \<Rightarrow> u64 \<Rightarrow> wal_view \<Rightarrow> wal_op list \<Rightarrow> queued_wal_record list" where
  "plan_queue crc sb v [] = []"
| "plan_queue crc sb v (op # ops) = view_queued crc sb v op # plan_queue crc sb (view_after sb v op) ops"

lemma plan_queue_snoc:
  "plan_queue crc sb v (ops @ [op]) = plan_queue crc sb v ops @ [view_queued crc sb (plan_view sb v ops) op]"
  by (induction ops arbitrary: v) (simp_all add: plan_view_def)

lemma length_plan_queue [simp]: "length (plan_queue crc sb v ops) = length ops"
  by (induction ops arbitrary: v) simp_all

lemma view_after_segment: "fst v \<le> fst (view_after sb v op)" "fst (view_after sb v op) \<le> Suc (fst v)"
  by (auto simp: view_after_def view_room_def split: prod.splits if_splits)

lemma plan_view_segment: "fst v \<le> fst (plan_view sb v ops)"
proof (induction ops arbitrary: v)
  case (Cons op ops)
  show ?case using le_trans [OF view_after_segment(1) Cons.IH] by (simp add: plan_view_def)
qed (simp add: plan_view_def)

text \<open>A view from which the next record can be placed.\<close>

definition view_ok :: "u64 \<Rightarrow> wal_view \<Rightarrow> bool" where
  "view_ok sb v \<longleftrightarrow> 48 \<le> unat sb \<and> unat sb < 2 ^ 62 \<and> 1 \<le> fst v \<and> fst (snd v) < unat sb"

lemma view_pos_split:
  assumes "view_ok sb v" and "fst v * unat sb \<le> 2 ^ 64"
  shows "view_pos sb v < 2 ^ 64"
    and "segment_for_lsn (word_of_nat (view_pos sb v)) sb = Ok (word_of_nat (fst v))"
    and "offset_for_lsn (word_of_nat (view_pos sb v)) sb = Ok (word_of_nat (fst (snd v)))"
  using segment_base_bound [OF _ assms(2)] position_split [OF _ assms(2)] assms(1)
  by (simp_all add: view_pos_def view_ok_def)

lemma view_room_ok:
  assumes "view_ok sb v" and "n \<le> unat sb" and "(fst v + 2) * unat sb \<le> 2 ^ 64"
  shows "view_ok sb (view_room sb n v)" and "fst (view_room sb n v) * unat sb \<le> 2 ^ 64"
    and "view_pos sb v \<le> view_pos sb (view_room sb n v)"
    and "fst (snd (view_room sb n v)) + n \<le> unat sb"
    and "view_pos sb (view_room sb n v) + n < 2 ^ 64"
proof -
  obtain m off prev where v: "v = (Suc m, off, prev)"
    using assms(1) by (cases v) (auto simp: view_ok_def Suc_le_eq gr0_conv_Suc)
  have b: "off < unat sb" "0 < unat sb" using assms(1) by (simp_all add: view_ok_def v)
  have lim: "m * unat sb + 3 * unat sb \<le> 2 ^ 64" using assms(3) by (simp add: v algebra_simps)
  show "view_ok sb (view_room sb n v)" "fst (view_room sb n v) * unat sb \<le> 2 ^ 64"
    "view_pos sb v \<le> view_pos sb (view_room sb n v)" "fst (snd (view_room sb n v)) + n \<le> unat sb"
    using assms(1,2) lim b by (auto simp: view_room_def v view_ok_def view_pos_def algebra_simps)
  show "view_pos sb (view_room sb n v) + n < 2 ^ 64"
    using assms(2) lim b by (auto simp: view_room_def v view_pos_def algebra_simps)
qed

lemma view_append_nat:
  assumes "view_ok sb v" and "op_fits sb op" and "(fst v + 2) * unat sb \<le> 2 ^ 64"
  shows "unat (wa_end_lsn (view_append sb v op)) = view_pos sb (view_room sb (op_len op) v) + op_len op"
    and "view_pos sb (view_after sb v op) = unat (wa_end_lsn (view_append sb v op))"
    and "view_pos sb v < unat (wa_end_lsn (view_append sb v op))"
    and "wa_end_lsn (view_append sb v op) mod sb \<noteq> 0 \<Longrightarrow> view_ok sb (view_after sb v op)"
proof -
  have n: "op_len op \<le> unat sb" "0 < op_len op" using assms(2) by (simp_all add: op_fits_def op_len_def)
  note r = view_room_ok [OF assms(1) n(1) assms(3)]
  show e: "unat (wa_end_lsn (view_append sb v op)) = view_pos sb (view_room sb (op_len op) v) + op_len op"
    using r(5) by (simp add: view_append_def Let_def unat_word_ariths unat_of_nat)
  then show "view_pos sb v < unat (wa_end_lsn (view_append sb v op))" using r(3) n(2) by simp
  obtain m off prev where v: "view_room sb (op_len op) v = (m, off, prev)" by (cases "view_room sb (op_len op) v") auto
  show "view_pos sb (view_after sb v op) = unat (wa_end_lsn (view_append sb v op))"
    unfolding e by (simp add: view_after_def view_pos_def v)
  assume "wa_end_lsn (view_append sb v op) mod sb \<noteq> 0"
  then have "unat (wa_end_lsn (view_append sb v op)) mod unat sb \<noteq> 0"
    by (simp only: unat_mod_distrib [symmetric] unat_eq_0 not_False_eq_True)
  then have "(off + op_len op) mod unat sb \<noteq> 0" unfolding e by (simp add: v view_pos_def add.assoc)
  then have "off + op_len op \<noteq> unat sb" by auto
  then show "view_ok sb (view_after sb v op)" using r(1,4) by (simp add: view_after_def view_ok_def v)
qed

lemma reserve_view:
  assumes ok: "view_ok sb v" and fits: "op_fits sb op" and room: "(fst v + 2) * unat sb \<le> 2 ^ 64"
  shows "reserve_queued_append sb (word_of_nat (op_len op)) (word_of_nat (view_pos sb v)) =
    Ok (view_append sb v op, wa_end_lsn (view_append sb v op))"
proof -
  obtain m off prev where v: "v = (Suc m, off, prev)"
    using ok by (cases v) (auto simp: view_ok_def Suc_le_eq gr0_conv_Suc)
  have n: "op_len op \<le> unat sb" using fits by (simp add: op_fits_def op_len_def)
  have b: "off < 2 ^ 62" "op_len op < 2 ^ 63" using ok n by (auto simp: view_ok_def v)
  have o: "unat (word_of_nat off :: u64) = off" "unat (word_of_nat (op_len op) :: u64) = op_len op"
    using b by (simp_all add: unat_u64_of_nat)
  have small: "\<not> word_of_nat (op_len op) > sb" using n o(2) by (simp only: word_less_nat_alt not_less)
  have guard: "(0 < (word_of_nat off :: u64) \<and> sb < word_of_nat off + word_of_nat (op_len op)) \<longleftrightarrow>
      (0 < off \<and> unat sb < off + op_len op)"
    using word_add_less_iff [of "word_of_nat off" "op_len op" sb] b o by (simp add: word_less_nat_alt [of 0])
  have "fst v * unat sb \<le> 2 ^ 64" using room by simp
  note split = view_pos_split(2,3) [OF ok this]
  have next_start: "(word_of_nat (Suc m) :: u64) * sb = word_of_nat (view_pos sb (Suc m + 1, 0, prev))"
    by (simp add: view_pos_def algebra_simps)
  show ?thesis
    unfolding reserve_queued_append_def split using small guard
    by (simp add: view_append_def view_room_def v Let_def next_start del: of_nat_Suc)
qed

text \<open>The view of a ready log, and the log after its next record.\<close>

lemma wal_view_ready:
  assumes "log_ready crc w first segs"
  shows "view_ok (wm_segment_bytes w) (wal_view w)" and "fst (wal_view w) = first + length segs - 1"
    and "wal_position w = word_of_nat (view_pos (wm_segment_bytes w) (wal_view w))"
proof -
  note r = log_readyD [OF assms]
  note i = wal_invD [OF r(1)] and d = log_dirD [OF wal_invD(2) [OF r(1)]]
  have "first + length segs - 1 < 2 ^ 60" by (rule segment_number_bound [OF d(6,2)])
  then show seg: "fst (wal_view w) = first + length segs - 1"
    by (simp add: wal_view_def i(3) unat_u64_of_nat)
  have "1 \<le> first + length segs - 1" using d(4,5) by (cases segs) auto
  then show "view_ok (wm_segment_bytes w) (wal_view w)"
    using seg r(2) d(2,3) by (simp add: view_ok_def wal_view_def)
  show "wal_position w = word_of_nat (view_pos (wm_segment_bytes w) (wal_view w))"
    using wal_position_inv [OF r(1)] seg i(4) by (simp add: view_pos_def) (simp add: wal_view_def numeral_2_eq_2 diff_diff_left)
qed

lemma next_append_view:
  assumes ready: "log_ready crc w first segs"
  shows "next_append (op_len op) w = view_append (wm_segment_bytes w) (wal_view w) op"
proof -
  note v = wal_view_ready [OF ready]
  have "wal_position (wal_make_room (op_len op) w) =
      word_of_nat (view_pos (wm_segment_bytes w) (view_room (wm_segment_bytes w) (op_len op) (wal_view w)))"
    using v(3) by (simp add: wal_make_room_def view_room_def wal_view_def)
      (simp add: wal_position_rotate view_pos_def)
  then show ?thesis by (simp add: next_append_def view_append_def Let_def)
qed

lemma wal_view_written:
  assumes ready: "log_ready crc w first segs" and fits: "op_fits (wm_segment_bytes w) op"
    and len: "length bs = op_len op" and ap: "wa_start_lsn ap = wa_start_lsn (view_append (wm_segment_bytes w) (wal_view w) op)"
  shows "wal_view (wal_written ap bs (wal_make_room (op_len op) w)) = view_after (wm_segment_bytes w) (wal_view w) op"
proof -
  note v = wal_view_ready [OF ready] and d = log_dirD [OF wal_invD(2) [OF log_readyD(1) [OF ready]]]
  have n: "op_len op \<le> unat (wm_segment_bytes w)" using fits by (simp add: op_fits_def op_len_def)
  have "first + length segs - 1 < 2 ^ 60" by (rule segment_number_bound [OF d(6,2)])
  then have "unat (wm_active_segment w) < 2 ^ 60" using v(2) by (simp add: wal_view_def)
  then have seg: "unat (wm_active_segment w + 1) = unat (wm_active_segment w) + 1" by (simp add: unat_word_ariths)
  have off: "unat (a + word_of_nat (op_len op)) = unat a + op_len op" if "unat a \<le> unat (wm_segment_bytes w)" for a :: u64
    using that n d(3) by (simp add: unat_word_ariths unat_of_nat)
  have "unat (wm_active_offset w) \<le> unat (wm_segment_bytes w)" using log_readyD(2) [OF ready] by simp
  from off [OF this] off [of 0] seg show ?thesis
    using len ap by (simp add: wal_view_def wal_written_def wal_make_room_def view_after_def view_room_def)
      (auto simp: rotate_segment_def)
qed

text \<open>Writing the record that the view asks for.\<close>

lemma write_view:
  assumes ready: "log_ready crc w first segs" and fits: "op_fits (wm_segment_bytes w) op"
    and room: "(Suc (first + length segs)) * unat (wm_segment_bytes w) \<le> 2 ^ 64"
  defines "q \<equiv> view_queued crc (wm_segment_bytes w) (wal_view w) op"
  assumes inside: "wa_end_lsn (qr_append q) mod wm_segment_bytes w \<noteq> 0"
  obtains w' segs' where "write_encoded (qr_append q) (qr_encoded q) w = (Ok (), w')" and "log_ready crc w' first segs'"
    and "map op_of (concat segs') = map op_of (concat segs) @ [op]" and "wm_config w' = wm_config w"
    and "wal_view w' = view_after (wm_segment_bytes w) (wal_view w) op" and "wm_written_lsn w' = wa_end_lsn (qr_append q)"
    and "\<And>n. durable_records crc w first segs n \<Longrightarrow> durable_records crc w' first segs' n"
proof -
  obtain kind tx payload where op: "op = (kind, tx, payload)" by (cases op) auto
  let ?ap = "next_append (48 + length payload) w"
  from next_append_view [OF ready, of op]
  have ap: "?ap = view_append (wm_segment_bytes w) (wal_view w) op" by (simp add: op_len_def op)
  let ?r = "appended_record ?ap w kind tx payload"
  have q: "qr_append q = ?ap" "qr_encoded q = wal_image crc ?r"
    by (simp_all add: q_def view_queued_def view_record_def ap appended_record_def op wal_view_def)
  obtain w' segs' where w: "write_encoded ?ap (wal_image crc ?r) w = (Ok (), w')" "log_ready crc w' first segs'"
    "concat segs' = concat segs @ [?r]" "wm_config w' = wm_config w"
    "wm_prev_lsn w' = wa_start_lsn ?ap" "wal_position w' = wa_end_lsn ?ap"
    "\<And>n. durable_records crc w first segs n \<Longrightarrow> durable_records crc w' first segs' n"
    using write_reserved_record [OF ready room fits [unfolded op] inside [unfolded q]] by metis
  have "w' = wal_written ?ap (wal_image crc ?r) (wal_make_room (op_len op) w)"
    using write_reserved [OF log_readyD(1,2) [OF ready], of "wal_image crc ?r"] room fits w(1)
    by (simp add: op op_len_def op_fits_def)
  then have view: "wal_view w' = view_after (wm_segment_bytes w) (wal_view w) op"
    using wal_view_written [OF ready fits, of "wal_image crc ?r" ?ap] ap by (simp add: op_len_def op)
  show ?thesis
  proof (rule that [of w' segs'])
    show "map op_of (concat segs') = map op_of (concat segs) @ [op]"
      by (simp add: w(3)) (simp add: op_of_def appended_record_def op)
  qed (use w q view in \<open>simp_all add: log_readyD(3) [OF w(2)]\<close>)
qed

section \<open>The invariant\<close>

text \<open>The end positions of the history, after the position where the log began.\<close>

definition ends :: "lsn \<Rightarrow> history \<Rightarrow> lsn list" where
  "ends base h = base # map (wa_end_lsn \<circ> fst) h"

lemma ends_append: "ends base (h @ [x]) = ends base h @ [wa_end_lsn (fst x)]"
  by (simp add: ends_def)

lemma length_ends [simp]: "length (ends base h) = Suc (length h)"
  by (simp add: ends_def)

lemma ends_append_nth: "i \<le> length h \<Longrightarrow> ends base (h @ [x]) ! i = ends base h ! i"
  by (simp add: ends_append nth_append)

lemma sorted_ends_append:
  assumes "sorted_wrt (<) (ends base h)" and "ends base h ! length h < e"
  shows "sorted_wrt (<) (ends base h @ [e])"
proof -
  have "x < e" if x: "x \<in> set (ends base h)" for x
  proof -
    obtain i where i: "i \<le> length h" "ends base h ! i = x"
      using x unfolding in_set_conv_nth by (auto simp: less_Suc_eq_le)
    then have "x \<le> ends base h ! length h"
      using sorted_wrt_nth_less [OF assms(1), of i "length h"] by (cases "i = length h") auto
    with assms(2) show ?thesis by simp
  qed
  with assms(1) show ?thesis by (simp add: sorted_wrt_append)
qed

text \<open>The record that the coordinator enqueues is the one that the log expects next.\<close>

definition enqueued :: "crc_fn \<Rightarrow> wal_op \<Rightarrow> wal_append \<Rightarrow> wal_coordinator_state \<Rightarrow> wal_coordinator_state" where
  "enqueued crc op ap st =
     (let encoded = wal_image crc \<lparr>wr_lsn = wa_start_lsn ap, wr_prev_lsn = cs_prev_lsn st, wr_tx_id = fst (snd op),
                                   wr_kind = fst op, wr_payload = snd (snd op)\<rparr>
      in st\<lparr>cs_reserved_lsn := wa_end_lsn ap, cs_prev_lsn := wa_start_lsn ap,
            cs_pending_bytes := wrapping_add_usize (cs_pending_bytes st) (length encoded),
            cs_pending := cs_pending st @ [\<lparr>qr_append = ap, qr_encoded = encoded\<rparr>]\<rparr>)"


text \<open>
  The first \<open>k\<close> records of the history are in the log, on top of the records \<open>rs0\<close> that it began
  with, and the first \<open>n\<close> of them are synced. The outstanding queue is what the end of the log
  and the other operations ask for, and the reserved position is where it ends.
\<close>

definition sys_view ::
    "crc_fn \<Rightarrow> wal_config \<Rightarrow> nat \<Rightarrow> wal_op list \<Rightarrow> lsn \<Rightarrow> nat \<Rightarrow> history \<Rightarrow> wal_system \<Rightarrow>
     wal_record list list \<Rightarrow> nat \<Rightarrow> nat \<Rightarrow> bool" where
  "sys_view crc config first ops0 base bound h s segs k n \<longleftrightarrow>
     (let sb = wc_segment_bytes config; st = sys_state s; rest = map snd (drop k h);
          v = plan_view sb (wal_view (sys_wal s)) rest in
      log_ready crc (sys_wal s) first segs \<and> wm_config (sys_wal s) = config \<and>
      map op_of (concat segs) = ops0 @ map snd (take k h) \<and> k \<le> length h \<and> n \<le> k \<and>
      outstanding s = plan_queue crc sb (wal_view (sys_wal s)) rest \<and>
      map qr_append (outstanding s) = map fst (drop k h) \<and> list_all (op_fits sb) (map snd h) \<and>
      view_ok sb v \<and> fst v \<le> bound + length h \<and> cs_reserved_lsn st = word_of_nat (view_pos sb v) \<and>
      cs_prev_lsn st = snd (snd v) \<and> wm_written_lsn (sys_wal s) = ends base h ! k \<and>
      cs_reserved_lsn st = ends base h ! length h \<and>
      durable_records crc (sys_wal s) first segs (length ops0 + n) \<and> cs_durable_lsn st \<le> ends base h ! n \<and>
      sorted_wrt (<) (ends base h) \<and> cs_failure st = None)"

lemma sys_viewD:
  assumes "sys_view crc config first ops0 base bound h s segs k n"
  defines "sb \<equiv> wc_segment_bytes config" and "v \<equiv> plan_view (wc_segment_bytes config) (wal_view (sys_wal s)) (map snd (drop k h))"
  shows "log_ready crc (sys_wal s) first segs" "wm_config (sys_wal s) = config"
    "map op_of (concat segs) = ops0 @ map snd (take k h)" "k \<le> length h" "n \<le> k"
    "outstanding s = plan_queue crc sb (wal_view (sys_wal s)) (map snd (drop k h))"
    "map qr_append (outstanding s) = map fst (drop k h)" "list_all (op_fits sb) (map snd h)"
    "view_ok sb v" "fst v \<le> bound + length h" "cs_reserved_lsn (sys_state s) = word_of_nat (view_pos sb v)"
    "cs_prev_lsn (sys_state s) = snd (snd v)" "wm_written_lsn (sys_wal s) = ends base h ! k"
    "cs_reserved_lsn (sys_state s) = ends base h ! length h"
    "durable_records crc (sys_wal s) first segs (length ops0 + n)" "cs_durable_lsn (sys_state s) \<le> ends base h ! n"
    "sorted_wrt (<) (ends base h)" "cs_failure (sys_state s) = None"
  using assms(1) unfolding sys_view_def Let_def sb_def v_def by blast+

definition sys_inv :: "crc_fn \<Rightarrow> wal_config \<Rightarrow> nat \<Rightarrow> wal_op list \<Rightarrow> lsn \<Rightarrow> nat \<Rightarrow> history \<Rightarrow> wal_system \<Rightarrow> bool" where
  "sys_inv crc config first ops0 base bound h s \<longleftrightarrow> (\<exists>segs k n. sys_view crc config first ops0 base bound h s segs k n)"

text \<open>Steps that touch neither the queue nor the log keep the invariant.\<close>

definition same_queue :: "wal_coordinator_state \<Rightarrow> wal_coordinator_state \<Rightarrow> bool" where
  "same_queue st st' \<longleftrightarrow>
     cs_reserved_lsn st' = cs_reserved_lsn st \<and> cs_prev_lsn st' = cs_prev_lsn st \<and>
     cs_durable_lsn st' = cs_durable_lsn st \<and> cs_failure st' = cs_failure st"

lemma sys_inv_frame:
  assumes "sys_inv crc config first ops0 base bound h s" and "outstanding s' = outstanding s" and "sys_wal s' = sys_wal s"
    and "same_queue (sys_state s) (sys_state s')"
  shows "sys_inv crc config first ops0 base bound h s'"
  using assms by (simp add: sys_inv_def sys_view_def same_queue_def Let_def)

lemma sys_inv_enqueue:
  assumes inv: "sys_inv crc config first ops0 base bound h s" and fits: "op_fits (wc_segment_bytes config) op"
    and room: "(bound + length h + 2) * unat (wc_segment_bytes config) \<le> 2 ^ 64"
  obtains ap where
    "enqueue_reserved_record crc (wc_segment_bytes config) (fst op) (fst (snd op)) (snd (snd op))
       (word_of_nat (op_len op)) (sys_state s) = (Ok ap, enqueued crc op ap (sys_state s))"
    and "wa_end_lsn ap mod wc_segment_bytes config \<noteq> 0 \<Longrightarrow>
       sys_inv crc config first ops0 base bound (h @ [(ap, op)]) (s\<lparr>sys_state := enqueued crc op ap (sys_state s)\<rparr>)"
proof -
  let ?sb = "wc_segment_bytes config"
  obtain segs k n where view: "sys_view crc config first ops0 base bound h s segs k n" using inv by (auto simp: sys_inv_def)
  note i = sys_viewD [OF view]
  define v where "v = plan_view ?sb (wal_view (sys_wal s)) (map snd (drop k h))"
  note i' = i(9-12) [folded v_def]
  let ?ap = "view_append ?sb v op"
  have room': "(fst v + 2) * unat ?sb \<le> 2 ^ 64"
    using room by (rule le_trans [rotated]) (intro mult_le_mono1, use i'(2) in simp)
  note a = view_append_nat [OF i'(1) fits room']
  let ?s = "s\<lparr>sys_state := enqueued crc op ?ap (sys_state s)\<rparr>"
  have rest: "map snd (drop k (h @ [(?ap, op)])) = map snd (drop k h) @ [op]" using i(4) by simp
  have plan: "plan_view ?sb (wal_view (sys_wal s)) (map snd (drop k h) @ [op]) = view_after ?sb v op"
    by (simp add: v_def plan_view_def)
  have out: "outstanding ?s = outstanding s @ [view_queued crc ?sb v op]"
    using i'(4) by (simp add: outstanding_def enqueued_def Let_def view_queued_def view_record_def)
  have queue: "outstanding ?s = plan_queue crc ?sb (wal_view (sys_wal s)) (map snd (drop k h) @ [op])"
    by (simp only: out i(6) plan_queue_snoc v_def [symmetric])
  have prev: "snd (snd (view_after ?sb v op)) = wa_start_lsn ?ap" by (simp add: view_after_def split: prod.splits)
  have "fst v * unat ?sb \<le> 2 ^ 64" using room' by simp
  from unat_u64_of_nat [OF view_pos_split(1) [OF i'(1) this]]
  have "unat (ends base h ! length h) = view_pos ?sb v" using i(14) i'(3) by simp
  with a(3) have sorted: "sorted_wrt (<) (ends base (h @ [(?ap, op)]))"
    unfolding ends_append by (intro sorted_ends_append i(17)) (simp add: word_less_nat_alt)
  show ?thesis
  proof (rule that [of ?ap])
    show "enqueue_reserved_record crc ?sb (fst op) (fst (snd op)) (snd (snd op)) (word_of_nat (op_len op)) (sys_state s) =
        (Ok ?ap, enqueued crc op ?ap (sys_state s))"
      using reserve_view [OF i'(1) fits room'] fits i'(3)
      by (simp add: enqueue_reserved_record_def enqueued_def wal_encode_eq op_fits_def Let_def)
  next
    assume inside: "wa_end_lsn ?ap mod ?sb \<noteq> 0"
    have "sys_view crc config first ops0 base bound (h @ [(?ap, op)]) ?s segs k n"
      unfolding sys_view_def Let_def rest queue
      using i(1-5,7,8,13,15,16,18) fits a(2) a(4) [OF inside] view_after_segment(2) [of ?sb v op] i'(2) prev plan sorted out
      by (simp add: ends_append_nth queue [symmetric] view_queued_def)
        (simp add: enqueued_def Let_def ends_append nth_append)
    then show "sys_inv crc config first ops0 base bound (h @ [(?ap, op)]) ?s" by (auto simp: sys_inv_def)
  qed
qed

section \<open>Every step keeps the invariant\<close>

lemma wait_for_wal_buffer_cases:
  assumes "wait_for_wal_buffer config n st = (res, st')"
  shows "same_queue st st'" and "cs_pending st' = cs_pending st"
    and "res = Ok True \<Longrightarrow> st' = st \<and> n \<le> unat (wc_segment_bytes config)"
  using assms
  by (auto simp: wait_for_wal_buffer_def check_wal_failure_def same_queue_def split: if_splits option.splits)

lemma sys_inv_state:
  assumes "sys_inv crc config first ops0 base bound h s" and "same_queue (sys_state s) st"
    and "cs_pending st = cs_pending (sys_state s)"
  shows "sys_inv crc config first ops0 base bound h (s\<lparr>sys_state := st\<rparr>)"
  using assms by (intro sys_inv_frame [OF assms(1)]) (simp_all add: outstanding_def)

text \<open>The part of an append or commit after the wait: enqueue, then perhaps wake the writer.\<close>

lemma sys_inv_enqueue_wake:
  assumes inv: "sys_inv crc config first ops0 base bound h s" and fits: "op_fits (wc_segment_bytes config) op"
    and room: "(bound + length h + 2) * unat (wc_segment_bytes config) \<le> 2 ^ 64"
    and run: "abind (enqueue_reserved_record crc (wc_segment_bytes config) (fst op) (fst (snd op)) (snd (snd op))
        (word_of_nat (op_len op))) (\<lambda>ap.
      abind (aupdate (\<lambda>st. Ok (if quiet then st else st\<lparr>cs_write_requested := True\<rparr>))) (\<lambda>_.
      areturn (Some ap))) (sys_state s) = (res, st)"
    and inside: "list_all (\<lambda>(ap, op). wa_end_lsn ap mod wc_segment_bytes config \<noteq> 0) (returned res op)"
  shows "sys_inv crc config first ops0 base bound (h @ returned res op) (s\<lparr>sys_state := st\<rparr>)"
proof -
  obtain ap where a: "enqueue_reserved_record crc (wc_segment_bytes config) (fst op) (fst (snd op)) (snd (snd op))
      (word_of_nat (op_len op)) (sys_state s) = (Ok ap, enqueued crc op ap (sys_state s))"
    "wa_end_lsn ap mod wc_segment_bytes config \<noteq> 0 \<Longrightarrow>
      sys_inv crc config first ops0 base bound (h @ [(ap, op)]) (s\<lparr>sys_state := enqueued crc op ap (sys_state s)\<rparr>)"
    using sys_inv_enqueue [OF inv fits room] by metis
  define st1 where "st1 = enqueued crc op ap (sys_state s)"
  have r: "res = Ok (Some ap)" "st = (if quiet then st1 else st1\<lparr>cs_write_requested := True\<rparr>)"
    using run a(1) by (auto simp: abind_def aupdate_def areturn_def st1_def)
  have "sys_inv crc config first ops0 base bound (h @ [(ap, op)]) (s\<lparr>sys_state := st1\<rparr>)"
    using a(2) inside by (simp add: r returned_def st1_def)
  from sys_inv_state [OF this, of st] show ?thesis
    by (simp add: r returned_def same_queue_def)
qed

text \<open>
  The coordinators considered here: on disk, segments below 4 GiB so that every record that
  fits a segment can be encoded, and the semantic combiner off, which is the default.
\<close>

definition plain_coordinator :: "wal_coordinator \<Rightarrow> bool" where
  "plain_coordinator co \<longleftrightarrow>
     \<not> co_volatile co \<and> validate_config (co_config co) = Ok () \<and>
     unat (wc_segment_bytes (co_config co)) \<le> 4294967295 \<and> \<not> wc_semantic_combiner (co_config co)"

lemma fits_plain:
  "plain_coordinator co \<Longrightarrow> op_len op \<le> unat (wc_segment_bytes (co_config co)) \<Longrightarrow>
     op_fits (wc_segment_bytes (co_config co)) op"
  by (simp add: plain_coordinator_def op_fits_def op_len_def)

lemma append_enqueue_inv:
  assumes inv: "sys_inv crc (co_config co) first ops0 base bound h s" and plain: "plain_coordinator co"
    and room: "(bound + length h + 2) * unat (wc_segment_bytes (co_config co)) \<le> 2 ^ 64"
    and run: "append_enqueue crc (co_config co) (fst op) (fst (snd op)) (snd (snd op)) (op_len op) quiet (sys_state s) = (res, st)"
    and inside: "list_all (\<lambda>(ap, op). wa_end_lsn ap mod wc_segment_bytes (co_config co) \<noteq> 0) (returned res op)"
  shows "sys_inv crc (co_config co) first ops0 base bound (h @ returned res op) (s\<lparr>sys_state := st\<rparr>)"
proof -
  obtain wres st1 where w: "wait_for_wal_buffer (co_config co) (op_len op) (sys_state s) = (wres, st1)" by fastforce
  note c = wait_for_wal_buffer_cases [OF w]
  show ?thesis
  proof (cases "wres = Ok True")
    case True
    with c(3) w have "wait_for_wal_buffer (co_config co) (op_len op) (sys_state s) = (Ok True, sys_state s)"
      "op_len op \<le> unat (wc_segment_bytes (co_config co))" by auto
    with run fits_plain [OF plain] show ?thesis
      by (intro sys_inv_enqueue_wake [OF inv _ room _ inside, of quiet])
        (simp_all add: append_enqueue_def abind_Ok)
  next
    case False
    then have "returned res op = []" "st = st1"
      using run w by (auto simp: append_enqueue_def abind_def areturn_def returned_def split: result.splits)
    then show ?thesis using sys_inv_state [OF inv c(1,2)] by simp
  qed
qed

lemma append_with_payload_inv:
  assumes inv: "sys_inv crc (co_config co) first ops0 base bound h s" and plain: "plain_coordinator co"
    and room: "(bound + length h + 2) * unat (wc_segment_bytes (co_config co)) \<le> 2 ^ 64"
    and run: "append_with_payload crc co kind tx payload (sys_state s) = (res, st)"
    and inside: "list_all (\<lambda>(ap, op). wa_end_lsn ap mod wc_segment_bytes (co_config co) \<noteq> 0) (returned res (kind, tx, payload))"
  shows "sys_inv crc (co_config co) first ops0 base bound (h @ returned res (kind, tx, payload)) (s\<lparr>sys_state := st\<rparr>)"
proof (cases "\<exists>e. res = Err e \<and> st = sys_state s")
  case True
  then show ?thesis using inv by (auto simp: returned_def)
next
  case False
  have "append_enqueue crc (co_config co) kind tx payload (op_len (kind, tx, payload)) False (sys_state s) = (res, st)"
    using run False plain
    by (auto simp: append_with_payload_def plain_coordinator_def abind_def alift_def areturn_def ok_or_def Let_def
        check_wal_failure_def op_len_def split: option.splits if_splits)
  then show ?thesis using append_enqueue_inv [OF inv plain room, of "(kind, tx, payload)"] inside by simp
qed

lemma append_commit_inv:
  assumes inv: "sys_inv crc (co_config co) first ops0 base bound h s" and plain: "plain_coordinator co"
    and room: "(bound + length h + 2) * unat (wc_segment_bytes (co_config co)) \<le> 2 ^ 64"
    and run: "append_commit_with_csn crc co tx csn (sys_state s) = (res, st)"
    and payload: "payload_encode (Commit tx csn) = Ok payload"
    and inside: "list_all (\<lambda>(ap, op). wa_end_lsn ap mod wc_segment_bytes (co_config co) \<noteq> 0) (returned res (Kind_Commit, tx, payload))"
  shows "sys_inv crc (co_config co) first ops0 base bound (h @ returned res (Kind_Commit, tx, payload)) (s\<lparr>sys_state := st\<rparr>)"
proof -
  have len: "op_len (Kind_Commit, tx, payload) = WAL_HEADER_LEN + 17" 
    using payload unfolding payload_encode_eq by (auto simp: op_len_def split: option.splits)
  have "append_enqueue crc (co_config co) Kind_Commit tx payload (op_len (Kind_Commit, tx, payload)) False (sys_state s) = (res, st)"
    using run plain payload unfolding len
    by (auto simp: append_commit_with_csn_def append_enqueue_def enqueue_commit_def plain_coordinator_def abind_def
        alift_def areturn_def split: result.splits prod.splits)
  then show ?thesis using append_enqueue_inv [OF inv plain room, of "(Kind_Commit, tx, payload)"] inside by simp
qed

lemma pop_batch_split:
  "pop_batch limit target b qs pb = (batch, rest, pb') \<Longrightarrow> batch @ rest = qs \<and> (qs \<noteq> [] \<longrightarrow> batch \<noteq> [])"
proof (induction limit target b qs pb arbitrary: batch rest pb' rule: pop_batch.induct)
  case (2 limit target b q qs pb)
  then show ?case by (auto simp: Let_def split: if_splits prod.splits)
qed simp

definition inside_segments :: "u64 \<Rightarrow> history \<Rightarrow> bool" where
  "inside_segments sb h \<longleftrightarrow> list_all (\<lambda>(ap, op). wa_end_lsn ap mod sb \<noteq> 0) h"

text \<open>The writer's next write succeeds, whatever the clients have enqueued behind it.\<close>

lemma sys_inv_write:
  assumes inv: "sys_inv crc config first ops0 base bound h s" and out: "outstanding s = q # qs"
    and inside: "inside_segments (wc_segment_bytes config) h"
    and room: "(bound + length h + 2) * unat (wc_segment_bytes config) \<le> 2 ^ 64"
  obtains w' where "write_encoded (qr_append q) (qr_encoded q) (sys_wal s) = (Ok (), w')"
    and "\<And>s'. outstanding s' = qs \<Longrightarrow> sys_wal s' = w' \<Longrightarrow> sys_state s' = sys_state s \<Longrightarrow>
      sys_inv crc config first ops0 base bound h s'"
proof -
  let ?sb = "wc_segment_bytes config" let ?v = "wal_view (sys_wal s)"
  obtain segs k n where view: "sys_view crc config first ops0 base bound h s segs k n" using inv by (auto simp: sys_inv_def)
  note i = sys_viewD [OF view]
  obtain ap op rest where h: "drop k h = (ap, op) # rest" using i(7) out by (cases "drop k h") auto
  have q: "q = view_queued crc ?sb ?v op" "qs = plan_queue crc ?sb (view_after ?sb ?v op) (map snd rest)"
    "qr_append q = ap" "map qr_append qs = map fst rest"
    using i(6,7) out h by simp_all
  have in_h: "(ap, op) \<in> set h" using h by (metis in_set_dropD list.set_intros(1))
  have fits: "op_fits (wm_segment_bytes (sys_wal s)) op" and ne: "wa_end_lsn ap mod wm_segment_bytes (sys_wal s) \<noteq> 0"
    using i(2,8) in_h bspec [OF inside [unfolded inside_segments_def list_all_iff] in_h] by (auto simp: list_all_iff)
  have "first + length segs - 1 \<le> bound + length h"
    using wal_view_ready(2) [OF i(1)] le_trans [OF plan_view_segment i(10)] by simp
  then have "(Suc (first + length segs)) * unat (wm_segment_bytes (sys_wal s)) \<le> 2 ^ 64"
    using room unfolding i(2) by (elim le_trans [rotated]) (intro mult_le_mono1, simp)
  from write_view [OF i(1) fits this] obtain w' segs' where w:
    "write_encoded (qr_append q) (qr_encoded q) (sys_wal s) = (Ok (), w')" "log_ready crc w' first segs'"
    "map op_of (concat segs') = map op_of (concat segs) @ [op]" "wm_config w' = wm_config (sys_wal s)"
    "wal_view w' = view_after ?sb ?v op" "wm_written_lsn w' = wa_end_lsn ap"
    "\<And>n. durable_records crc (sys_wal s) first segs n \<Longrightarrow> durable_records crc w' first segs' n"
    using ne q(1,3) i(2) by metis
  have k: "k < length h" "h ! k = (ap, op)" "drop (Suc k) h = rest"
    using h by (metis drop_eq_Nil list.distinct(1) not_le, metis nth_via_drop, metis drop_Suc list.sel(3) tl_drop)
  have end_k: "ends base h ! Suc k = wa_end_lsn ap" using k by (simp add: ends_def)
  have ops: "map snd (take (Suc k) h) = map snd (take k h) @ [op]" using k by (simp add: take_Suc_conv_app_nth)
  show ?thesis
  proof (rule that [OF w(1)])
    fix s' assume s': "outstanding s' = qs" "sys_wal s' = w'" "sys_state s' = sys_state s"
    have "sys_view crc config first ops0 base bound h s' segs' (Suc k) n"
      unfolding sys_view_def Let_def s' k(3) w(5)
      using i(2,3,5,8,14-18) i(9-12) [unfolded h] w(2-4,6) w(7) [OF i(15)] k(1) end_k ops q(2,4)
      by (simp add: plan_view_def)
    then show "sys_inv crc config first ops0 base bound h s'" by (auto simp: sys_inv_def)
  qed
qed

lemma sys_inv_flush:
  assumes inv: "sys_inv crc config first ops0 base bound h s" and "outstanding s' = outstanding s"
    and "wal_flush (sys_wal s) = (Ok d, sys_wal s')"
    and "same_queue ((sys_state s)\<lparr>cs_durable_lsn := d\<rparr>) (sys_state s')"
  shows "sys_inv crc config first ops0 base bound h s'"
proof -
  obtain segs k n where view: "sys_view crc config first ops0 base bound h s segs k n" using inv by (auto simp: sys_inv_def)
  note i = sys_viewD [OF view]
  obtain w' where w: "wal_flush (sys_wal s) = (Ok (wm_written_lsn (sys_wal s)), w')" "wal_inv crc w' first segs"
    "durable_records crc w' first segs (length (concat segs))"
    using wal_flush_durable [OF log_readyD(1) [OF i(1)] i(15)] by metis
  then have w': "w' = sys_wal s'" "d = wm_written_lsn (sys_wal s)" using assms(3) by auto
  have same: "wm_config w' = wm_config (sys_wal s)" "wal_view w' = wal_view (sys_wal s)"
    "wm_written_lsn w' = wm_written_lsn (sys_wal s)" "wm_active_offset w' = wm_active_offset (sys_wal s)"
    "wal_position w' = wal_position (sys_wal s)"
    using w(1) by (auto simp: wal_flush_def wal_view_def wal_position_def)
  have "log_ready crc w' first segs" using w(2) same log_readyD [OF i(1)] by (simp add: log_ready_def)
  moreover have "length (concat segs) = length ops0 + k"
    using arg_cong [OF i(3), of length] i(4) by simp
  ultimately have "sys_view crc config first ops0 base bound h s' segs k k"
    unfolding sys_view_def Let_def assms(2) w'(1) [symmetric]
    using i(2-4,6-14,17,18) w(3) same w'(2) assms(4) by (simp add: same_queue_def del: length_concat)
  then show ?thesis by (auto simp: sys_inv_def)
qed

lemma publish_last_written_same:
  "same_queue st (publish_last_written l st)" "cs_pending (publish_last_written l st) = cs_pending st"
  by (simp_all add: publish_last_written_def publish_written_lsn_def same_queue_def)

lemma publish_durable_same:
  "same_queue (st\<lparr>cs_durable_lsn := d\<rparr>) (publish_durable requested d st)"
  "cs_pending (publish_durable requested d st) = cs_pending st"
  by (simp_all add: publish_durable_def same_queue_def Let_def)

lemma writer_write_inv:
  assumes inv: "sys_inv crc config first ops0 base bound h s" and out: "in_flight (sys_pc s) = q # qs"
    and inside: "inside_segments (wc_segment_bytes config) h"
    and room: "(bound + length h + 2) * unat (wc_segment_bytes config) \<le> 2 ^ 64"
    and pc: "\<And>l. in_flight (continue l) = qs"
  shows "sys_inv crc config first ops0 base bound h (writer_write continue q s)"
proof -
  have "outstanding s = q # (qs @ cs_pending (sys_state s))" using out by (simp add: outstanding_def)
  from sys_inv_write [OF inv this inside room] obtain w' where
    w: "write_encoded (qr_append q) (qr_encoded q) (sys_wal s) = (Ok (), w')"
    and keep: "\<And>s'. outstanding s' = qs @ cs_pending (sys_state s) \<Longrightarrow> sys_wal s' = w' \<Longrightarrow>
      sys_state s' = sys_state s \<Longrightarrow> sys_inv crc config first ops0 base bound h s'"
    by metis
  show ?thesis by (rule keep) (simp_all add: writer_write_def w outstanding_def pc)
qed

lemma writer_flush_inv:
  assumes "sys_inv crc config first ops0 base bound h s" and "in_flight (sys_pc s) = []"
  shows "sys_inv crc config first ops0 base bound h (writer_flush requested s)"
proof (rule sys_inv_flush [OF assms(1), of _ "wm_written_lsn (sys_wal s)"])
qed (simp_all add: writer_flush_def wal_flush_def outstanding_def assms(2) publish_durable_same)

lemma writer_take_inv:
  assumes "sys_inv crc config first ops0 base bound h s" and "in_flight (sys_pc s) = []"
  shows "writer_take config' (sys_state s) = (pc, st) \<Longrightarrow> sys_inv crc config first ops0 base bound h (s\<lparr>sys_pc := pc, sys_state := st\<rparr>)"
    and "writer_take_until config' target (sys_state s) = (pc, st) \<Longrightarrow>
      sys_inv crc config first ops0 base bound h (s\<lparr>sys_pc := pc, sys_state := st\<rparr>)"
  using assms(2)
  by (auto intro!: sys_inv_frame [OF assms(1)] simp: writer_take_def writer_take_until_def outstanding_def same_queue_def
      Let_def dest!: pop_batch_split split: if_splits prod.splits)

lemma writer_drain_inv:
  assumes inv: "sys_inv crc config first ops0 base bound h s" and pc: "sys_pc s = W_Drain target"
    and step: "writer_drain config' target s = Some s'"
  shows "sys_inv crc config first ops0 base bound h s'"
proof -
  have "cs_failure (sys_state s) = None" using inv by (auto simp: sys_inv_def dest: sys_viewD(18))
  then consider "s' = s\<lparr>sys_pc := W_Flush\<rparr>" | "s' = s"
    | "s' = s\<lparr>sys_pc := fst (writer_take_until config' target (sys_state s)),
             sys_state := snd (writer_take_until config' target (sys_state s))\<rparr>"
    using step by (auto simp: writer_drain_def check_wal_failure_def Let_def split: if_splits prod.splits)
  then show ?thesis
  proof cases
    case 1
    then show ?thesis by (intro sys_inv_frame [OF inv]) (simp_all add: outstanding_def pc same_queue_def)
  next
    case 3
    then show ?thesis using writer_take_inv(2) [OF inv, of config' target] pc by simp
  qed (simp add: inv)
qed

lemma writer_step_inv:
  assumes inv: "sys_inv crc config first ops0 base bound h s"
    and inside: "inside_segments (wc_segment_bytes config) h"
    and room: "(bound + length h + 2) * unat (wc_segment_bytes config) \<le> 2 ^ 64"
    and step: "writer_step config' fos s = Some s'"
  shows "sys_inv crc config first ops0 base bound h s'"
proof (cases "sys_pc s")
  case W_Head
  then show ?thesis
    using step writer_take_inv(1) [OF inv, of config'] by (auto simp: writer_step_def Let_def split: if_splits prod.splits)
next
  case (W_Writing qs l t sd)
  show ?thesis
  proof (cases qs)
    case Nil
    with W_Writing step show ?thesis
      by (auto simp: writer_step_def Let_def outstanding_def publish_last_written_same split: option.splits
          intro!: sys_inv_frame [OF inv])
  next
    case (Cons q qs')
    with W_Writing step show ?thesis
      by (auto simp: writer_step_def Let_def intro!: writer_write_inv [OF inv _ inside room])
  qed
next
  case (W_Window t)
  then show ?thesis
    using step by (auto simp: writer_step_def Let_def outstanding_def same_queue_def intro!: sys_inv_frame [OF inv])
next
  case (W_Drain t)
  then show ?thesis using step writer_drain_inv [OF inv W_Drain] by (simp add: writer_step_def Let_def)
next
  case (W_Drain_Writing qs l t)
  show ?thesis
  proof (cases qs)
    case Nil
    with W_Drain_Writing step show ?thesis
      by (auto simp: writer_step_def Let_def outstanding_def publish_last_written_same
          intro!: sys_inv_frame [OF inv])
  next
    case (Cons q qs')
    with W_Drain_Writing step show ?thesis
      by (auto simp: writer_step_def Let_def intro!: writer_write_inv [OF inv _ inside room])
  qed
qed (use step writer_flush_inv [OF inv] in \<open>auto simp: writer_step_def Let_def\<close>)

text \<open>The invariant holds in every reachable state.\<close>

lemma inside_segments_append: "inside_segments sb (h @ g) \<longleftrightarrow> inside_segments sb h \<and> inside_segments sb g"
  by (simp add: inside_segments_def)

lemma coord_reach_inv:
  assumes "coord_reach crc co fos w0 h s" and plain: "plain_coordinator co" and cfg: "wm_config w0 = co_config co"
    and ready: "log_ready crc w0 first segs0" and dur: "durable_records crc w0 first segs0 (length (concat segs0))"
    and "wm_durable_lsn w0 \<le> wm_written_lsn w0"
    and "inside_segments (wc_segment_bytes (co_config co)) h"
    and "(first + length segs0 + length h + 2) * unat (wc_segment_bytes (co_config co)) \<le> 2 ^ 64"
  shows "sys_inv crc (co_config co) first (map op_of (concat segs0)) (wm_written_lsn w0) (first + length segs0) h s"
  using assms(1,7,8)
proof (induction rule: coord_reach.induct)
  case start
  have "sys_view crc (co_config co) first (map op_of (concat segs0)) (wm_written_lsn w0) (first + length segs0) []
      \<lparr>sys_pc = W_Head, sys_state = coordinator_new w0, sys_wal = w0\<rparr> segs0 0 0"
    using ready dur assms(6) cfg wal_view_ready [OF ready] log_readyD(3) [OF ready]
    by (simp add: sys_view_def outstanding_def plan_view_def coordinator_new_def ends_def wal_view_def Let_def)
  then show ?case by (auto simp: sys_inv_def)
next
  case (append h s kind tx payload res st)
  have "(first + length segs0 + length h + 2) * unat (wc_segment_bytes (co_config co)) \<le> 2 ^ 64"
    using append.prems(2) by (rule le_trans [rotated]) (intro mult_le_mono1, simp)
  with append show ?case
    using append_with_payload_inv [OF append.IH plain _ append.hyps(2)]
    by (simp add: inside_segments_append) (simp add: inside_segments_def)
next
  case (commit h s tx csn res st payload)
  have "(first + length segs0 + length h + 2) * unat (wc_segment_bytes (co_config co)) \<le> 2 ^ 64"
    using commit.prems(2) by (rule le_trans [rotated]) (intro mult_le_mono1, simp)
  with commit show ?case
    using append_commit_inv [OF commit.IH plain _ commit.hyps(2,3)]
    by (simp add: inside_segments_append) (simp add: inside_segments_def)
next
  case (flush h s target flushed st)
  then show ?case
    by (intro sys_inv_state) (auto simp: flush_until_def abind_def alift_def areturn_def same_queue_def
        check_wal_failure_def split: if_splits option.splits)
next
  case (written h s target flushed st)
  then show ?case
    by (intro sys_inv_state) (auto simp: write_until_def abind_def alift_def areturn_def same_queue_def
        check_wal_failure_def split: if_splits option.splits)
next
  case (drop h s)
  then show ?case by (intro sys_inv_state) (simp_all add: coordinator_drop_def same_queue_def)
next
  case (writer h s s')
  then show ?case by (intro writer_step_inv [OF writer.IH]) simp_all
qed

section \<open>Safety\<close>

lemma create_ready:
  assumes plain: "plain_coordinator co" and new: "create_with_fs (co_config co) [] = Ok w0"
  shows "log_ready crc w0 1 [[]]" and "durable_records crc w0 1 [[]] 0" and "wm_config w0 = co_config co"
    and "wm_durable_lsn w0 \<le> wm_written_lsn w0" and "wm_written_lsn w0 = 0"
proof -
  have v: "validate_config (co_config co) = Ok ()" "unat (wc_segment_bytes (co_config co)) < 2 ^ 62"
    using plain by (simp_all add: plain_coordinator_def)
  obtain w where w: "create_with_fs (co_config co) [] = Ok w" "wal_inv crc w 1 [[]]" "wm_config w = co_config co"
    "wm_written_lsn w = 0"
    by (rule create_with_fs_inv [OF v])
  have "w = w0" using w(1) new by simp
  note w = w(2-4) [unfolded this]
  have w0: "wm_active_offset w0 = 0" "wal_position w0 = 0" "wm_durable_lsn w0 = 0"
    using new v(1) by (auto simp: create_with_fs_def wal_position_def)
  show "log_ready crc w0 1 [[]]"
    using w w0 log_dirD(2) [OF wal_invD(2) [OF w(1)]] by (simp add: log_ready_def)
  show "durable_records crc w0 1 [[]] 0" by (rule create_durable [OF new])
  show "wm_config w0 = co_config co" "wm_durable_lsn w0 \<le> wm_written_lsn w0" "wm_written_lsn w0 = 0"
    using w w0 by simp_all
qed

lemma reach_inv:
  assumes "coord_reach crc co fos w0 h s" and plain: "plain_coordinator co"
    and new: "create_with_fs (co_config co) [] = Ok w0" and "inside_segments (wc_segment_bytes (co_config co)) h"
    and "(4 + length h) * unat (wc_segment_bytes (co_config co)) \<le> 2 ^ 64"
  shows "sys_inv crc (co_config co) 1 [] 0 2 h s"
  using coord_reach_inv [OF assms(1) plain create_ready(3,1) [OF plain new] _ create_ready(4) [OF plain new] assms(4)]
    create_ready(2,5) [OF plain new] assms(5) by (simp add: numeral_2_eq_2 algebra_simps)

lemma ends_before:
  assumes "sorted_wrt (<) (ends base h)" and "i < length h" and "n \<le> length h" and "wa_end_lsn (fst (h ! i)) \<le> ends base h ! n"
  shows "i < n"
proof (rule ccontr)
  assume "\<not> i < n"
  then have "ends base h ! n < ends base h ! Suc i"
    using sorted_wrt_nth_less [OF assms(1), of n "Suc i"] assms(2) by simp
  with assms(2,4) show False by (simp add: ends_def)
qed



section \<open>Flush requests are served\<close>

text \<open>The writer running alone for a number of steps.\<close>

fun writer_run :: "wal_config \<Rightarrow> bool \<Rightarrow> nat \<Rightarrow> wal_system \<Rightarrow> wal_system option" where
  "writer_run config fos 0 s = Some s"
| "writer_run config fos (Suc n) s = Option.bind (writer_step config fos s) (writer_run config fos n)"

lemma writer_run_add:
  "writer_run config fos m s = Some s' \<Longrightarrow> writer_run config fos (m + n) s = writer_run config fos n s'"
  by (induction m arbitrary: s) (auto simp: bind_eq_Some_conv)

definition runs_to :: "wal_config \<Rightarrow> bool \<Rightarrow> wal_system \<Rightarrow> wal_system \<Rightarrow> bool" where
  "runs_to config fos s s' \<longleftrightarrow> (\<exists>n. writer_run config fos n s = Some s')"

lemma runs_to_refl: "runs_to config fos s s"
  unfolding runs_to_def by (intro exI [of _ 0]) simp

lemma runs_to_trans: "runs_to config fos a b \<Longrightarrow> runs_to config fos b c \<Longrightarrow> runs_to config fos a c"
  unfolding runs_to_def by (metis writer_run_add)

lemma runs_to_step: "writer_step config fos a = Some b \<Longrightarrow> runs_to config fos b c \<Longrightarrow> runs_to config fos a c"
  by (rule runs_to_trans [of _ _ _ b]) (auto simp: runs_to_def intro!: exI [of _ "Suc 0"])

text \<open>The writer gets through its batch; \<open>pc\<close> is either of the two states that write one.\<close>

lemma batch_completes:
  assumes step: "\<And>q qs l s. sys_pc s = pc (q # qs) l \<Longrightarrow> writer_step config' fos s = Some (writer_write (pc qs) q s)"
    and fl: "\<And>qs l. in_flight (pc qs l) = qs"
    and inside: "inside_segments (wc_segment_bytes config) h"
    and room: "(bound + length h + 2) * unat (wc_segment_bytes config) \<le> 2 ^ 64"
  shows "sys_inv crc config first ops0 base bound h s \<Longrightarrow> sys_pc s = pc qs l \<Longrightarrow>
    \<exists>s' l'. runs_to config' fos s s' \<and> sys_pc s' = pc [] l' \<and> sys_state s' = sys_state s \<and>
      sys_inv crc config first ops0 base bound h s'"
proof (induction qs arbitrary: s l)
  case Nil
  then show ?case using runs_to_refl by blast
next
  case (Cons q qs)
  let ?s = "writer_write (pc qs) q s"
  have "outstanding s = q # (qs @ cs_pending (sys_state s))" using Cons.prems(2) fl by (simp add: outstanding_def)
  from sys_inv_write [OF Cons.prems(1) this inside room]
  obtain w' where "write_encoded (qr_append q) (qr_encoded q) (sys_wal s) = (Ok (), w')" by metis
  then have s: "sys_pc ?s = pc qs (wa_end_lsn (qr_append q))" "sys_state ?s = sys_state s"
    by (simp_all add: writer_write_def)
  have "sys_inv crc config first ops0 base bound h ?s"
    using Cons.prems(2) fl by (intro writer_write_inv [OF Cons.prems(1) _ inside room]) simp_all
  from Cons.IH [OF this s(1)] show ?case
    using runs_to_step [OF step [OF Cons.prems(2)]] s(2) by metis
qed

lemma all_written:
  assumes "sys_inv crc config first ops0 base bound h s" and "outstanding s = []"
  shows "wm_written_lsn (sys_wal s) = cs_reserved_lsn (sys_state s)"
proof -
  obtain segs k n where "sys_view crc config first ops0 base bound h s segs k n" using assms(1) by (auto simp: sys_inv_def)
  note i = sys_viewD [OF this]
  have "k = length h" using i(4,7) assms(2) by simp
  then show ?thesis using i(13,14) by simp
qed

text \<open>Draining reaches any target that has been reserved.\<close>

lemma drain_completes:
  assumes inside: "inside_segments (wc_segment_bytes config) h"
    and room: "(bound + length h + 2) * unat (wc_segment_bytes config) \<le> 2 ^ 64"
  shows "sys_inv crc config first ops0 base bound h s \<Longrightarrow> sys_pc s = W_Drain t \<Longrightarrow> t \<le> cs_reserved_lsn (sys_state s) \<Longrightarrow>
    \<exists>s'. runs_to config' fos s s' \<and> sys_pc s' = W_Flush \<and> t \<le> wm_written_lsn (sys_wal s') \<and>
      sys_inv crc config first ops0 base bound h s'"
proof (induction "length (cs_pending (sys_state s))" arbitrary: s rule: less_induct)
  case less
  note inv = less.prems(1)
  show ?case
  proof (cases "t \<le> wm_written_lsn (sys_wal s)")
    case True
    then have "writer_step config' fos s = Some (s\<lparr>sys_pc := W_Flush\<rparr>)"
      using less.prems(2) by (simp add: writer_step_def writer_drain_def Let_def)
    moreover from this have "sys_inv crc config first ops0 base bound h (s\<lparr>sys_pc := W_Flush\<rparr>)"
      by (rule writer_step_inv [OF inv inside room])
    ultimately show ?thesis using runs_to_step [OF _ runs_to_refl] True by fastforce
  next
    case False
    have ne: "cs_pending (sys_state s) \<noteq> []"
      using all_written [OF inv] False less.prems(2,3) by (auto simp: outstanding_def)
    obtain batch rest pb where p: "pop_batch (max (default_drain_batch_bytes (context_from_config config')) 1) (Some t) 0
        (cs_pending (sys_state s)) (cs_pending_bytes (sys_state s)) = (batch, rest, pb)"
      by (metis prod_cases3)
    let ?st = "(sys_state s)\<lparr>cs_pending := rest, cs_pending_bytes := pb\<rparr>"
    let ?s = "s\<lparr>sys_pc := W_Drain_Writing batch 0 t, sys_state := ?st\<rparr>"
    have take: "writer_step config' fos s = Some ?s"
      using False ne less.prems(2) p by (simp add: writer_step_def writer_drain_def writer_take_until_def Let_def)
    then have inv1: "sys_inv crc config first ops0 base bound h ?s" by (rule writer_step_inv [OF inv inside room])
    obtain s2 l where s2: "runs_to config' fos ?s s2" "sys_pc s2 = W_Drain_Writing [] l t" "sys_state s2 = ?st"
      "sys_inv crc config first ops0 base bound h s2"
      using batch_completes [where pc = "\<lambda>qs l. W_Drain_Writing qs l t", OF _ _ inside room inv1]
      by (fastforce simp: writer_step_def Let_def)
    let ?s3 = "s2\<lparr>sys_state := publish_last_written l ?st, sys_pc := W_Drain t\<rparr>"
    have again: "writer_step config' fos s2 = Some ?s3" using s2(2,3) by (simp add: writer_step_def Let_def)
    have "batch @ rest = cs_pending (sys_state s)" "batch \<noteq> []" using pop_batch_split [OF p] ne by simp_all
    then have "length rest < length (cs_pending (sys_state s))" by (metis length_append length_greater_0_conv less_add_same_cancel2)
    moreover have "cs_reserved_lsn (publish_last_written l ?st) = cs_reserved_lsn (sys_state s)"
      using publish_last_written_same(1) [of ?st l] by (simp add: same_queue_def)
    ultimately obtain s4 where "runs_to config' fos ?s3 s4" "sys_pc s4 = W_Flush" "t \<le> wm_written_lsn (sys_wal s4)"
      "sys_inv crc config first ops0 base bound h s4"
      using less.hyps [of ?s3] writer_step_inv [OF s2(4) inside room again] less.prems(3)
      by (auto simp: publish_last_written_same)
    then show ?thesis
      using runs_to_step [OF take runs_to_trans [OF s2(1) runs_to_step [OF again]]] by blast
  qed
qed

lemma head_completes:
  assumes inside: "inside_segments (wc_segment_bytes config) h"
    and room: "(bound + length h + 2) * unat (wc_segment_bytes config) \<le> 2 ^ 64"
    and inv: "sys_inv crc config first ops0 base bound h s" and pc: "sys_pc s = W_Head"
    and up: "\<not> cs_shutdown (sys_state s)"
    and req: "cs_durable_lsn (sys_state s) < cs_flush_requested_lsn (sys_state s)"
      "cs_flush_requested_lsn (sys_state s) \<le> cs_reserved_lsn (sys_state s)"
  shows "\<exists>s'. runs_to config' fos s s' \<and> cs_flush_requested_lsn (sys_state s) \<le> cs_durable_lsn (sys_state s') \<and>
    cs_failure (sys_state s') = None"
proof -
  define t where "t = cs_flush_requested_lsn (sys_state s)"
  obtain batch rest pb where p: "pop_batch (default_write_batch_bytes (context_with_pending config' (cs_pending_bytes (sys_state s))
      (length (cs_pending (sys_state s))))) None 0 (cs_pending (sys_state s)) (cs_pending_bytes (sys_state s)) = (batch, rest, pb)"
    by (metis prod_cases3)
  let ?st = "(sys_state s)\<lparr>cs_pending := rest, cs_pending_bytes := pb, cs_write_requested := (rest \<noteq> [])\<rparr>"
  let ?s = "s\<lparr>sys_pc := W_Writing batch 0 (Some t) False, sys_state := ?st\<rparr>"
  have s1: "writer_step config' fos s = Some ?s"
    using pc up req(1) p by (simp add: writer_step_def writer_take_def t_def Let_def not_le)
  have inv1: "sys_inv crc config first ops0 base bound h ?s" by (rule writer_step_inv [OF inv inside room s1])
  obtain s2 l where s2: "runs_to config' fos ?s s2" "sys_pc s2 = W_Writing [] l (Some t) False" "sys_state s2 = ?st"
    "sys_inv crc config first ops0 base bound h s2"
    using batch_completes [where pc = "\<lambda>qs l. W_Writing qs l (Some t) False", OF _ _ inside room inv1]
    by (fastforce simp: writer_step_def Let_def)
  let ?s3 = "s2\<lparr>sys_state := publish_last_written l ?st, sys_pc := W_Window t\<rparr>"
  let ?s4 = "?s3\<lparr>sys_pc := W_Drain t\<rparr>"
  have s3: "writer_step config' fos s2 = Some ?s3" using s2(2,3) by (simp add: writer_step_def Let_def)
  have same: "cs_reserved_lsn (publish_last_written l ?st) = cs_reserved_lsn (sys_state s)"
    "cs_flush_requested_lsn (publish_last_written l ?st) = t"
    by (simp_all add: publish_last_written_def publish_written_lsn_def t_def)
  have s4: "writer_step config' fos ?s3 = Some ?s4"
    using same(2) by (simp add: writer_step_def resample_flush_target_def Let_def)
  have "sys_inv crc config first ops0 base bound h ?s4"
    by (rule writer_step_inv [OF writer_step_inv [OF s2(4) inside room s3] inside room s4])
  then obtain s5 where s5: "runs_to config' fos ?s4 s5" "sys_pc s5 = W_Flush" "t \<le> wm_written_lsn (sys_wal s5)"
    "sys_inv crc config first ops0 base bound h s5"
    using drain_completes [OF inside room, of crc first ops0 base ?s4 t] same(1) req(2) by (auto simp: t_def)
  let ?s6 = "writer_flush True s5"
  have s6: "writer_step config' fos s5 = Some ?s6" using s5(2) by (simp add: writer_step_def Let_def)
  have "t \<le> cs_durable_lsn (sys_state ?s6)"
    using s5(3) by (simp add: writer_flush_def wal_flush_def publish_durable_def Let_def)
  moreover have "cs_failure (sys_state ?s6) = None"
    using writer_step_inv [OF s5(4) inside room s6] by (auto simp: sys_inv_def dest: sys_viewD(18))
  moreover have "runs_to config' fos s ?s6"
    by (rule runs_to_step [OF s1 runs_to_trans [OF s2(1) runs_to_step [OF s3 runs_to_step [OF s4
          runs_to_trans [OF s5(1) runs_to_step [OF s6 runs_to_refl]]]]]])
  ultimately show ?thesis unfolding t_def by blast
qed


section \<open>A record that fills its segment\<close>

text \<open>
  When the log ends exactly at the end of a segment, the next reserved record starts where the
  log ends, and the writer does not rotate: it writes past the end of the segment. The record
  after that is reserved in the next segment, but the writer rotates from a segment that is
  one behind, so the positions no longer match.
\<close>

lemma rotate_behind:
  assumes off: "unat (wm_active_offset w) = unat (wm_segment_bytes w) + n" and n: "0 < n" "n < unat (wm_segment_bytes w)"
    and len: "0 < length encoded" "length encoded \<le> unat (wm_segment_bytes w)" and sb: "unat (wm_segment_bytes w) < 2 ^ 62"
    and start: "wa_start_lsn ap = (wm_active_segment w + 1) * wm_segment_bytes w"
  shows "write_encoded ap encoded w = (Err (CorruptWal ''record lsn does not match write position''), rotate_segment w)"
proof -
  have nz: "wm_segment_bytes w \<noteq> 0" using n by auto
  have pos: "wal_position (rotate_segment w) \<noteq> wa_start_lsn ap"
    using nz unfolding start by (simp add: wal_position_rotate ring_distribs)
  have b: "unat (wm_active_offset w) < 2 ^ 63" "length encoded < 2 ^ 63" using off n len sb by simp_all
  have grow: "wm_segment_bytes w < wm_active_offset w + word_of_nat (length encoded)" "0 < wm_active_offset w"
    using off n len word_add_less_iff [OF b, of "wm_segment_bytes w"] by (simp_all add: word_less_nat_alt [of 0])
  have "unat (word_of_nat n :: u64) = n" using n sb by (intro unat_u64_of_nat) simp
  then have ne: "(word_of_nat n :: u64) \<noteq> wm_segment_bytes w" using n(2) by auto
  have "wm_active_offset w = word_of_nat (unat (wm_segment_bytes w) + n)" by (simp add: off [symmetric])
  then have "wal_position w = wm_active_segment w * wm_segment_bytes w + word_of_nat n"
    by (simp add: wal_position_def algebra_simps)
  then have "wal_position w \<noteq> wa_start_lsn ap" using ne unfolding start by (simp add: ring_distribs)
  then show ?thesis using grow pos len(2) by (simp add: write_encoded_def Let_def)
qed

text \<open>Two records reserved from the start of segment \<open>m\<close> that do not fit one segment together.\<close>

lemma reserve_two:
  assumes sb: "48 \<le> unat sb" "unat sb < 2 ^ 62" and m: "1 \<le> m" "(m + 3) * unat sb \<le> 2 ^ 64"
    and fits: "op_fits sb op1" "op_fits sb op2" and len: "op_len op1 < unat sb" "unat sb < op_len op1 + op_len op2"
  defines "p \<equiv> word_of_nat ((m - 1) * unat sb) :: lsn"
  shows "reserve_queued_append sb (word_of_nat (op_len op1)) p =
      Ok (\<lparr>wa_start_lsn = p, wa_end_lsn = p + word_of_nat (op_len op1)\<rparr>, p + word_of_nat (op_len op1))"
    and "reserve_queued_append sb (word_of_nat (op_len op2)) (p + word_of_nat (op_len op1)) =
      Ok (\<lparr>wa_start_lsn = p + sb, wa_end_lsn = p + sb + word_of_nat (op_len op2)\<rparr>, p + sb + word_of_nat (op_len op2))"
proof -
  let ?v = "(m, 0, 0) :: wal_view" let ?v' = "(m, op_len op1, 0) :: wal_view"
  have ok: "view_ok sb ?v" "view_ok sb ?v'" and room: "(fst ?v + 2) * unat sb \<le> 2 ^ 64" "(fst ?v' + 2) * unat sb \<le> 2 ^ 64"
    using sb m len(1) by (auto simp: view_ok_def algebra_simps)
  obtain k where k: "m = Suc k" using m(1) by (cases m) auto
  have r: "view_room sb (op_len op1) ?v = ?v" "view_room sb (op_len op2) ?v' = (m + 1, 0, 0)"
    using len by (simp_all add: view_room_def op_len_def)
  show "reserve_queued_append sb (word_of_nat (op_len op1)) p =
      Ok (\<lparr>wa_start_lsn = p, wa_end_lsn = p + word_of_nat (op_len op1)\<rparr>, p + word_of_nat (op_len op1))"
    using reserve_view [OF ok(1) fits(1) room(1)] by (simp add: view_append_def r(1) view_pos_def p_def Let_def)
  show "reserve_queued_append sb (word_of_nat (op_len op2)) (p + word_of_nat (op_len op1)) =
      Ok (\<lparr>wa_start_lsn = p + sb, wa_end_lsn = p + sb + word_of_nat (op_len op2)\<rparr>, p + sb + word_of_nat (op_len op2))"
    using reserve_view [OF ok(2) fits(2) room(2), unfolded view_append_def Let_def r(2)]
    by (simp add: view_pos_def p_def k algebra_simps)
qed

text \<open>
  C36. A record that ends exactly at the end of its segment stops the log. From such a log, two
  records that do not fit one segment together are both enqueued without an error; the writer
  then writes the first past the end of the segment, fails on the second and returns, and a
  flush up to any position reports that the writer has failed.
\<close>

theorem full_segment_stops_writer:
  fixes op1 op2 :: wal_op
  assumes "wal_inv crc w first segs" and "unat (wm_active_offset w) = unat (wm_segment_bytes w)"
    and "(first + length segs + 4) * unat (wm_segment_bytes w) \<le> 2 ^ 64"
    and "op_fits (wm_segment_bytes w) op1" and "op_fits (wm_segment_bytes w) op2"
    and "op_len op1 < unat (wm_segment_bytes w)" and "unat (wm_segment_bytes w) < op_len op1 + op_len op2"
    and "cs_reserved_lsn st = wal_position w" and "cs_pending st = []" and "\<not> co_volatile co"
  shows "\<exists>ap1 st1 ap2 st2 s'.
    enqueue_reserved_record crc (wm_segment_bytes w) (fst op1) (fst (snd op1)) (snd (snd op1))
      (word_of_nat (op_len op1)) st = (Ok ap1, st1) \<and>
    enqueue_reserved_record crc (wm_segment_bytes w) (fst op2) (fst (snd op2)) (snd (snd op2))
      (word_of_nat (op_len op2)) st1 = (Ok ap2, st2) \<and>
    writer_run config flush_on_shutdown 2
      \<lparr>sys_pc = W_Writing (cs_pending st2) 0 None False, sys_state = st2\<lparr>cs_pending := []\<rparr>, sys_wal = w\<rparr> = Some s' \<and>
    sys_pc s' = W_Returned \<and>
    flush_until co target (sys_state s') = (Err (CorruptWal ''wal writer failed''), sys_state s')"
proof -
  let ?sb = "wm_segment_bytes w" let ?n1 = "op_len op1" let ?p = "wal_position w"
  note i = wal_invD [OF assms(1)] and d = log_dirD [OF wal_invD(2) [OF assms(1)]]
  let ?m = "first + length segs"
  have m: "1 \<le> ?m" "(?m + 3) * unat ?sb \<le> 2 ^ 64" using assms(3) d(4) by (simp_all add: algebra_simps)
  have o: "wm_active_offset w = ?sb" using assms(2) by (simp only: word_unat_eq_iff)
  then have p: "?p = wm_active_segment w * ?sb" by (simp add: wal_position_def algebra_simps)
  have p': "?p = word_of_nat ((?m - 1) * unat ?sb)" unfolding p i(3) by simp
  note two = reserve_two [OF d(2,3) m assms(4-7), folded p']
  define ap1 where "ap1 = \<lparr>wa_start_lsn = ?p, wa_end_lsn = ?p + word_of_nat ?n1\<rparr>"
  define ap2 where "ap2 = \<lparr>wa_start_lsn = ?p + ?sb, wa_end_lsn = ?p + ?sb + word_of_nat (op_len op2)\<rparr>"
  define st1 where "st1 = enqueued crc op1 ap1 st"
  define st2 where "st2 = enqueued crc op2 ap2 st1"
  have e1: "enqueue_reserved_record crc ?sb (fst op1) (fst (snd op1)) (snd (snd op1)) (word_of_nat ?n1) st = (Ok ap1, st1)"
    using two(1) assms(4,8)
    by (simp add: enqueue_reserved_record_def enqueued_def wal_encode_eq op_fits_def Let_def st1_def ap1_def)
  have "cs_reserved_lsn st1 = ?p + word_of_nat ?n1" by (simp add: st1_def enqueued_def ap1_def Let_def)
  then have e2: "enqueue_reserved_record crc ?sb (fst op2) (fst (snd op2)) (snd (snd op2)) (word_of_nat (op_len op2)) st1 = (Ok ap2, st2)"
    using two(2) assms(5)
    by (simp add: enqueue_reserved_record_def enqueued_def wal_encode_eq op_fits_def Let_def st2_def ap2_def)
  obtain b1 b2 where q: "cs_pending st2 = [\<lparr>qr_append = ap1, qr_encoded = b1\<rparr>, \<lparr>qr_append = ap2, qr_encoded = b2\<rparr>]"
    and b: "length b1 = ?n1" "length b2 = op_len op2"
    by (simp add: st2_def st1_def enqueued_def assms(9) Let_def wal_encoded_len_def op_len_def)
  let ?w1 = "wal_written ap1 b1 w"
  have w1: "write_encoded ap1 b1 w = (Ok (), ?w1)" using assms(6) b by (intro write_encoded_at) (simp_all add: ap1_def)
  have "unat (wm_active_offset ?w1) = unat (wm_segment_bytes ?w1) + ?n1"
    using assms(6) d(3) b o by (simp add: wal_written_def unat_word_ariths unat_of_nat)
  then have w2: "write_encoded ap2 b2 ?w1 = (Err (CorruptWal ''record lsn does not match write position''), rotate_segment ?w1)"
    using assms(5,6) d(3) b p by (intro rotate_behind [of _ ?n1])
      (simp_all add: wal_written_def ap2_def op_len_def op_fits_def algebra_simps)
  define s' where "s' = \<lparr>sys_pc = W_Returned, sys_state = publish_wal_failure (st2\<lparr>cs_pending := []\<rparr>), sys_wal = rotate_segment ?w1\<rparr>"
  have "writer_run config flush_on_shutdown 2
      \<lparr>sys_pc = W_Writing (cs_pending st2) 0 None False, sys_state = st2\<lparr>cs_pending := []\<rparr>, sys_wal = w\<rparr> = Some s'"
    using w1 w2 by (simp add: q numeral_2_eq_2 writer_step_def writer_write_def Let_def s'_def)
  moreover have "flush_until co target (sys_state s') = (Err (CorruptWal ''wal writer failed''), sys_state s')"
    using assms(10) by (simp add: s'_def flush_until_def abind_def alift_def check_wal_failure_def publish_wal_failure_def)
  moreover have "sys_pc s' = W_Returned" by (simp add: s'_def)
  ultimately show ?thesis using e1 e2 by blast
qed

section \<open>A sample run\<close>

lemma coord_reach_run:
  "coord_reach crc co fos w0 h s \<Longrightarrow> writer_run (co_config co) fos n s = Some s' \<Longrightarrow> coord_reach crc co fos w0 h s'"
  by (induction n arbitrary: s) (auto simp: bind_eq_Some_conv intro: coord_reach.writer)

definition sample_coordinator :: wal_coordinator where
  "sample_coordinator = \<lparr>co_config = wal_config_default, co_volatile = False\<rparr>"

definition sample_wal :: wal_manager where
  "sample_wal = \<lparr>wm_files = open_rw_create (segment_name 1) [], wm_config = wal_config_default, wm_active_segment = 1,
     wm_active_offset = 0, wm_written_lsn = 0, wm_durable_lsn = 0, wm_prev_lsn = 0\<rparr>"

definition sample_op :: wal_op where
  "sample_op = (Kind_Begin, 1, [7])"

definition sample_append :: wal_append where
  "sample_append = \<lparr>wa_start_lsn = 0, wa_end_lsn = 49\<rparr>"

definition sample_system :: wal_system where
  "sample_system =
     \<lparr>sys_pc = W_Head,
      sys_state = (enqueued byte_sum sample_op sample_append (coordinator_new sample_wal))\<lparr>cs_write_requested := True\<rparr>,
      sys_wal = sample_wal\<rparr>"

lemma sample_plain: "plain_coordinator sample_coordinator"
  by (simp add: plain_coordinator_def sample_coordinator_def validate_config_def wal_config_default_def)

lemma sample_create: "create_with_fs (co_config sample_coordinator) [] = Ok sample_wal"
  by (simp add: sample_coordinator_def create_with_fs_def sample_wal_def validate_config_def wal_config_default_def)

lemma sample_bounds:
  "inside_segments (wc_segment_bytes (co_config sample_coordinator)) [(sample_append, sample_op)]"
  "(4 + length [(sample_append, sample_op)]) * unat (wc_segment_bytes (co_config sample_coordinator)) \<le> 2 ^ 64"
  by (simp_all add: inside_segments_def sample_append_def sample_coordinator_def wal_config_default_def)

lemma sample_reach: "coord_reach byte_sum sample_coordinator True sample_wal [(sample_append, sample_op)] sample_system"
proof -
  have "append_with_payload byte_sum sample_coordinator Kind_Begin 1 [7] (coordinator_new sample_wal) =
      (Ok (Some sample_append), sys_state sample_system)"
    by (simp add: append_with_payload_def append_enqueue_def sample_coordinator_def wal_config_default_def
        coordinator_new_def sample_wal_def sample_append_def sample_system_def sample_op_def enqueued_def
        wait_for_wal_buffer_def check_wal_failure_def enqueue_reserved_record_def reserve_queued_append_def
        segment_for_lsn_def offset_for_lsn_def wal_encode_eq checked_add_usize_def usize_bound_def ok_or_def
        abind_def alift_def aupdate_def areturn_def Let_def)
  from coord_reach.append [OF coord_reach.start, of byte_sum sample_coordinator _ _ _ sample_wal, simplified, OF this]
  show ?thesis by (simp add: returned_def sample_system_def sample_op_def)
qed

lemma sample_system_simps:
  "sys_pc sample_system = W_Head" "\<not> cs_shutdown (sys_state sample_system)"
  "cs_reserved_lsn (sys_state sample_system) = 49" "cs_flush_requested_lsn (sys_state sample_system) = 0"
  "cs_durable_lsn (sys_state sample_system) = 0" "cs_failure (sys_state sample_system) = None"
  by (simp_all add: sample_system_def enqueued_def sample_append_def coordinator_new_def sample_wal_def Let_def)

lemma sample_flush:
  "flush_until sample_coordinator 49 (sys_state sample_system) =
     (Ok None, (sys_state sample_system)\<lparr>cs_flush_requested_lsn := 49\<rparr>)"
  by (simp add: flush_until_def sample_coordinator_def abind_def alift_def check_wal_failure_def sample_system_simps)

lemma sample_flushed:
  obtains s d where "coord_reach byte_sum sample_coordinator True sample_wal [(sample_append, sample_op)] s"
    and "flush_until sample_coordinator 49 (sys_state s) = (Ok (Some d), sys_state s)"
proof -
  let ?s = "sample_system\<lparr>sys_state := (sys_state sample_system)\<lparr>cs_flush_requested_lsn := 49\<rparr>\<rparr>"
  note reach = coord_reach.flush [OF sample_reach sample_flush]
  have inv: "sys_inv byte_sum (co_config sample_coordinator) 1 [] 0 2 [(sample_append, sample_op)] ?s"
    by (rule reach_inv [OF reach sample_plain sample_create sample_bounds])
  have "(2 + length [(sample_append, sample_op)] + 2) * unat (wc_segment_bytes (co_config sample_coordinator)) \<le> 2 ^ 64"
    using sample_bounds(2) by simp
  from head_completes [OF sample_bounds(1) this inv, of "co_config sample_coordinator" True]
  obtain s where s: "runs_to (co_config sample_coordinator) True ?s s" "49 \<le> cs_durable_lsn (sys_state s)"
    "cs_failure (sys_state s) = None"
    by (auto simp: sample_system_simps)
  have "flush_until sample_coordinator 49 (sys_state s) = (Ok (Some (cs_durable_lsn (sys_state s))), sys_state s)"
    using s(2,3) by (simp add: flush_until_def sample_coordinator_def abind_def alift_def check_wal_failure_def)
  with s(1) that coord_reach_run [OF reach] show ?thesis unfolding runs_to_def by blast
qed




text \<open>A log of 49-byte segments whose only record fills the first one.\<close>

definition small_config :: wal_config where
  "small_config = wal_config_default\<lparr>wc_segment_bytes := 49\<rparr>"

lemma small_full_log:
  obtains w segs where "wal_inv byte_sum w 1 segs" and "length segs \<le> 2" and "wm_config w = small_config"
    and "wm_active_offset w = 49"
proof -
  have v: "validate_config small_config = Ok ()" "unat (wc_segment_bytes small_config) < 2 ^ 62"
    by (simp_all add: validate_config_def small_config_def wal_config_default_def)
  obtain w0 where w0: "create_with_fs small_config [] = Ok w0" "wal_inv byte_sum w0 1 [[]]" "wm_config w0 = small_config"
    by (rule create_with_fs_inv [OF v])
  have off: "wm_active_offset w0 = 0" using w0(1) v(1) by (auto simp: create_with_fs_def)
  have room: "(1 + length [[] :: wal_record list]) * unat (wm_segment_bytes w0) \<le> 2 ^ 64"
    "48 + length [7 :: byte] \<le> unat (wm_segment_bytes w0)" "length [7 :: byte] \<le> 4294967295"
    by (simp_all add: w0(3) small_config_def)
  obtain ap w segs where w: "wal_append_record byte_sum Kind_Begin 1 [7] w0 = (Ok ap, w)" "wal_inv byte_sum w 1 segs"
    "length segs \<le> Suc (length [[] :: wal_record list])" "wm_config w = wm_config w0"
    using wal_append_inv [OF w0(2) room(1,3,2), of Kind_Begin 1] by metis
  have "wm_active_offset w = 49"
    using wal_append_run [OF w0(2) room(1,3,2), of Kind_Begin 1] w(1) off
    by (auto simp: wal_written_def wal_make_room_def appended_record_def wal_encoded_len_def)
  then show ?thesis using w w0(3) by (intro that [of w segs]) simp_all
qed

theorem full_segment_stops_writer_witness:
  "\<exists>w st1 s'. wm_config w = small_config \<and>
     writer_run small_config True 2 \<lparr>sys_pc = W_Writing (cs_pending st1) 0 None False,
       sys_state = st1\<lparr>cs_pending := []\<rparr>, sys_wal = w\<rparr> = Some s' \<and>
     sys_pc s' = W_Returned \<and> length (cs_pending st1) = 2 \<and>
     flush_until sample_coordinator 0 (sys_state s') = (Err (CorruptWal ''wal writer failed''), sys_state s')"
proof -
  obtain w segs where w: "wal_inv byte_sum w 1 segs" "length segs \<le> 2" "wm_config w = small_config" "wm_active_offset w = 49"
    by (rule small_full_log)
  let ?st = "volatile_state\<lparr>cs_reserved_lsn := wal_position w\<rparr>" let ?op = "(Kind_Begin, 1, []) :: wal_op"
  have sb: "wm_segment_bytes w = 49" by (simp add: w(3) small_config_def)
  have "(1 + length segs + 4) * unat (wm_segment_bytes w) \<le> 7 * 49" unfolding sb using w(2) by simp
  then have room: "(1 + length segs + 4) * unat (wm_segment_bytes w) \<le> 2 ^ 64" by (rule le_trans) simp
  have st: "cs_pending ?st = []" by (simp add: volatile_state_def)
  from full_segment_stops_writer [OF w(1) _ room, of ?op ?op ?st sample_coordinator small_config True 0]
  obtain ap1 st1 ap2 st2 s' where r:
    "enqueue_reserved_record byte_sum 49 Kind_Begin 1 [] 48 ?st = (Ok ap1, st1)"
    "enqueue_reserved_record byte_sum 49 Kind_Begin 1 [] 48 st1 = (Ok ap2, st2)"
    "writer_run small_config True 2 \<lparr>sys_pc = W_Writing (cs_pending st2) 0 None False,
       sys_state = st2\<lparr>cs_pending := []\<rparr>, sys_wal = w\<rparr> = Some s'" "sys_pc s' = W_Returned"
    "flush_until sample_coordinator 0 (sys_state s') = (Err (CorruptWal ''wal writer failed''), sys_state s')"
    using w(4) sb st by (auto simp: op_fits_def op_len_def sample_coordinator_def)
  have "length (cs_pending st2) = 2"
    using r(1,2) st by (auto simp: enqueue_reserved_record_def Let_def split: result.splits prod.splits)
  with r(3-5) w(3) show ?thesis by blast
qed

end
