(* ===== verification/Index_Key.thy ===== *)
theory Index_Key
  imports Format_Bytes
begin

unbundle bit_operations_syntax

text \<open>
  \<^verbatim>\<open>crates/kernel/src/catalog/key.rs\<close> and \<^verbatim>\<open>index/keycmp/mod.rs\<close>: the byte strings under which rows
  are kept in an index, and their comparison. The encoding is shown to carry the order of the
  values, column by column and with descending columns reversed; the vectorised comparison is
  shown equal to the comparison of slices. A float is its bit pattern.
\<close>

section \<open>Comparison of slices\<close>

datatype ordering = Ord_Less | Ord_Equal | Ord_Greater

definition cmp_of :: "'a::linorder \<Rightarrow> 'a \<Rightarrow> ordering" where
  "cmp_of a b = (if a < b then Ord_Less else if a = b then Ord_Equal else Ord_Greater)"

fun ord_then :: "ordering \<Rightarrow> ordering \<Rightarrow> ordering" where
  "ord_then Ord_Equal o2 = o2"
| "ord_then o1 o2 = o1"

fun ord_reverse :: "ordering \<Rightarrow> ordering" where
  "ord_reverse Ord_Less = Ord_Greater"
| "ord_reverse Ord_Equal = Ord_Equal"
| "ord_reverse Ord_Greater = Ord_Less"

text \<open>\<^verbatim>\<open><[u8]>::cmp\<close>.\<close>

fun slice_cmp :: "byte list \<Rightarrow> byte list \<Rightarrow> ordering" where
  "slice_cmp [] [] = Ord_Equal"
| "slice_cmp [] (b # bs) = Ord_Less"
| "slice_cmp (a # as) [] = Ord_Greater"
| "slice_cmp (a # as) (b # bs) = ord_then (cmp_of a b) (slice_cmp as bs)"

section \<open>The vectorised comparison\<close>

text \<open>\<^verbatim>\<open>_mm256_movemask_epi8\<close> of \<^verbatim>\<open>_mm256_cmpeq_epi8\<close>: bit \<open>j\<close> is set when the bytes at \<open>j\<close> agree.\<close>

definition eq_mask :: "byte list \<Rightarrow> byte list \<Rightarrow> u32" where
  "eq_mask xs ys = word_of_nat (\<Sum>j\<leftarrow>[0..<32]. if xs ! j = ys ! j then 2 ^ j else 0)"

definition trailing_ones :: "u32 \<Rightarrow> nat" where
  "trailing_ones w = length (takeWhile (\<lambda>j. bit w j) [0..<32])"

definition index_cmp :: "byte list \<Rightarrow> byte list \<Rightarrow> nat \<Rightarrow> ordering result" where
  "index_cmp a b i = (if i < length a \<and> i < length b then Ok (cmp_of (a ! i) (b ! i)) else Panic)"

function cmp_tail :: "byte list \<Rightarrow> byte list \<Rightarrow> nat \<Rightarrow> ordering result" where
  "cmp_tail a b i =
     (if i < min (length a) (length b) then
        rbind (index_cmp a b i) (\<lambda>c. if c = Ord_Equal then cmp_tail a b (i + 1) else Ok c)
      else Ok (cmp_of (length a) (length b)))"
  by pat_completeness auto
termination
  by (relation "measure (\<lambda>(a, b, i). length a - i)") auto

function cmp_blocks :: "byte list \<Rightarrow> byte list \<Rightarrow> nat \<Rightarrow> ordering result" where
  "cmp_blocks a b i =
     (if i + 32 \<le> min (length a) (length b) then
        let mask = eq_mask (take 32 (drop i a)) (take 32 (drop i b)) in
        if mask \<noteq> 0xFFFFFFFF then index_cmp a b (i + trailing_ones mask)
        else cmp_blocks a b (i + 32)
      else cmp_tail a b i)"
  by pat_completeness auto
termination
  by (relation "measure (\<lambda>(a, b, i). length a - i)") auto

declare cmp_tail.simps [simp del] cmp_blocks.simps [simp del]

definition cmp_keys_avx2 :: "byte list \<Rightarrow> byte list \<Rightarrow> ordering result" where
  "cmp_keys_avx2 a b = cmp_blocks a b 0"

text \<open>The dispatch on the processor feature that is detected at run time.\<close>

definition cmp_keys :: "bool \<Rightarrow> byte list \<Rightarrow> byte list \<Rightarrow> ordering result" where
  "cmp_keys avx2 a b = (if avx2 then cmp_keys_avx2 a b else Ok (slice_cmp a b))"

section \<open>Encoding of index keys\<close>

datatype sort_dir = Asc | Desc

datatype value_ref = V_Null | V_Integer u64 | V_Real u64 | V_Text "byte list" | V_Blob "byte list"

record encoded_index_key =
  ek_bytes :: "byte list"
  ek_contains_null :: bool

fun encode_bytes :: "byte list \<Rightarrow> byte list" where
  "encode_bytes [] = [0, 0]"
| "encode_bytes (b # bs) = (if b = 0 then [0, 0xff] else [b]) @ encode_bytes bs"

definition sign_bit :: u64 where
  "sign_bit = 0x8000000000000000"

definition sortable_integer :: "u64 \<Rightarrow> u64" where
  "sortable_integer v = v XOR sign_bit"

text \<open>Both zeros compare equal to \<open>0.0\<close>, whose bits are all zero.\<close>

definition sortable_real :: "u64 \<Rightarrow> u64" where
  "sortable_real v =
     (let bits = (if v = 0 \<or> v = sign_bit then 0 else v)
      in if bits AND sign_bit \<noteq> 0 then NOT bits else bits XOR sign_bit)"

fun encode_part :: "value_ref \<Rightarrow> byte list" where
  "encode_part V_Null = [0x00]"
| "encode_part (V_Integer v) = 0x10 # to_be_bytes (sortable_integer v)"
| "encode_part (V_Real v) = 0x20 # to_be_bytes (sortable_real v)"
| "encode_part (V_Text v) = 0x30 # encode_bytes v"
| "encode_part (V_Blob v) = 0x40 # encode_bytes v"

definition encode_column :: "value_ref \<Rightarrow> sort_dir \<Rightarrow> byte list" where
  "encode_column v dir = (if dir = Desc then map (\<lambda>b. NOT b) (encode_part v) else encode_part v) @ [0xff]"

definition encode_index_key :: "value_ref list \<Rightarrow> sort_dir list \<Rightarrow> encoded_index_key" where
  "encode_index_key parts dirs =
     \<lparr>ek_bytes = concat (map (\<lambda>(v, dir). encode_column v dir) (zip parts dirs)),
      ek_contains_null = list_ex (\<lambda>(v, dir). v = V_Null) (zip parts dirs)\<rparr>"

definition compare_index_keys :: "byte list \<Rightarrow> byte list \<Rightarrow> ordering" where
  "compare_index_keys left right = slice_cmp left right"

section \<open>The vectorised comparison is the comparison of slices\<close>

lemma cmp_of_simps [simp]: "cmp_of a a = Ord_Equal" "cmp_of a b = Ord_Equal \<longleftrightarrow> a = b"
  by (auto simp: cmp_of_def)

lemma slice_cmp_prefix: "slice_cmp (p @ xs) (p @ ys) = slice_cmp xs ys"
  by (induction p) simp_all

lemma slice_cmp_drop:
  assumes "take i a = take i b" and "i \<le> length a" and "i \<le> length b"
  shows "slice_cmp a b = slice_cmp (drop i a) (drop i b)"
  using slice_cmp_prefix [of "take i a" "drop i a" "drop i b"] by (metis assms(1) append_take_drop_id)

lemma slice_cmp_mismatch:
  assumes "take i a = take i b" and "i < length a" and "i < length b" and "a ! i \<noteq> b ! i"
  shows "slice_cmp a b = cmp_of (a ! i) (b ! i)"
proof -
  have "slice_cmp a b = ord_then (cmp_of (a ! i) (b ! i)) (slice_cmp (drop (Suc i) a) (drop (Suc i) b))"
    using slice_cmp_drop [OF assms(1)] assms(2,3) by (simp add: Cons_nth_drop_Suc [symmetric])
  then show ?thesis using assms(4) by (cases "cmp_of (a ! i) (b ! i)") simp_all
qed

lemma cmp_tail_slice:
  "take i a = take i b \<Longrightarrow> i \<le> length a \<Longrightarrow> i \<le> length b \<Longrightarrow> cmp_tail a b i = Ok (slice_cmp a b)"
proof (induction a b i rule: cmp_tail.induct)
  case (1 a b i)
  show ?case
  proof (cases "i < min (length a) (length b)")
    case False
    then have "drop i a = [] \<or> drop i b = []" by auto
    then have "slice_cmp (drop i a) (drop i b) = cmp_of (length (drop i a)) (length (drop i b))"
      by (cases "drop i a"; cases "drop i b") (auto simp: cmp_of_def)
    also have "\<dots> = cmp_of (length a) (length b)" using 1(3,4) False by (auto simp: cmp_of_def)
    finally show ?thesis
      unfolding cmp_tail.simps [of a b i] slice_cmp_drop [OF 1(2-4)] by (simp only: False if_False)
  next
    case True
    then have idx: "index_cmp a b i = Ok (cmp_of (a ! i) (b ! i))" by (simp add: index_cmp_def)
    show ?thesis
    proof (cases "a ! i = b ! i")
      case eq: True
      have "cmp_tail a b (i + 1) = Ok (slice_cmp a b)"
        using 1(1) [OF True, of Ord_Equal] 1(2) True eq by (simp add: take_Suc_conv_app_nth)
      with eq show ?thesis unfolding cmp_tail.simps [of a b i] idx by (simp add: True del: min_less_iff_conj)
    next
      case False
      then show ?thesis
        unfolding cmp_tail.simps [of a b i] idx using slice_cmp_mismatch [OF 1(2)] True by simp
    qed
  qed
qed

text \<open>The mask and its trailing ones.\<close>

lemma sum_bits_bit:
  "(\<Sum>j\<leftarrow>[0..<n]. if P j then 2 ^ j else 0) = horner_sum of_bool (2 :: nat) (map P [0..<n])"
  by (simp add: horner_sum_eq_sum interv_sum_list_conv_sum_set_nat sum.inter_restrict flip: sum.inter_filter)

lemma bit_eq_mask: "j < 32 \<Longrightarrow> bit (eq_mask xs ys) j \<longleftrightarrow> xs ! j = ys ! j"
  unfolding eq_mask_def sum_bits_bit
  by (simp add: bit_of_nat_iff bit_horner_sum_bit_iff possible_bit_def)

lemma eq_mask_full: "eq_mask xs ys = 0xFFFFFFFF \<longleftrightarrow> (\<forall>j<32. xs ! j = ys ! j)"
proof -
  have "(0xFFFFFFFF :: u32) = - 1" by simp
  then have "eq_mask xs ys = 0xFFFFFFFF \<longleftrightarrow> (\<forall>j<32. bit (eq_mask xs ys) j)"
    by (simp only: bit_eq_iff) (auto simp: bit_minus_1_iff dest: bit_imp_le_length)
  then show ?thesis using bit_eq_mask by auto
qed

lemma trailing_ones_mask:
  assumes "eq_mask xs ys \<noteq> 0xFFFFFFFF"
  shows "trailing_ones (eq_mask xs ys) < 32"
    and "xs ! trailing_ones (eq_mask xs ys) \<noteq> ys ! trailing_ones (eq_mask xs ys)"
    and "j < trailing_ones (eq_mask xs ys) \<Longrightarrow> xs ! j = ys ! j"
proof -
  let ?P = "\<lambda>j. bit (eq_mask xs ys) j" let ?t = "trailing_ones (eq_mask xs ys)"
  have "takeWhile ?P [0..<32] \<noteq> [0..<32]"
    using assms unfolding eq_mask_full takeWhile_eq_all_conv by (auto simp: bit_eq_mask)
  then have t: "?t < length [0..<32 :: nat]"
    unfolding trailing_ones_def by (metis length_takeWhile_le le_neq_implies_less takeWhile_eq_take take_all_iff order.refl)
  then show "?t < 32" by simp
  have "\<not> ?P ([0..<32] ! ?t)" using nth_length_takeWhile [of ?P "[0..<32]"] t by (simp add: trailing_ones_def)
  then show "xs ! ?t \<noteq> ys ! ?t" using t by (simp add: bit_eq_mask)
  assume j: "j < ?t"
  then have "takeWhile ?P [0..<32] ! j \<in> set (takeWhile ?P [0..<32])" by (simp add: trailing_ones_def)
  then have "?P (takeWhile ?P [0..<32] ! j)" by (rule set_takeWhileD [THEN conjunct2])
  then show "xs ! j = ys ! j" using j t by (simp add: takeWhile_nth trailing_ones_def bit_eq_mask)
qed

lemma cmp_blocks_slice:
  "take i a = take i b \<Longrightarrow> i \<le> length a \<Longrightarrow> i \<le> length b \<Longrightarrow> cmp_blocks a b i = Ok (slice_cmp a b)"
proof (induction a b i rule: cmp_blocks.induct)
  case (1 a b i)
  show ?case
  proof (cases "i + 32 \<le> min (length a) (length b)")
    case False
    then show ?thesis using cmp_tail_slice [OF 1(2-4)] unfolding cmp_blocks.simps [of a b i] by (simp only: if_False)
  next
    case True
    define xs ys where "xs = take 32 (drop i a)" and "ys = take 32 (drop i b)"
    have nth: "xs ! j = a ! (i + j)" "ys ! j = b ! (i + j)" if "j < 32" for j
      using that True by (simp_all add: xs_def ys_def)
    have more: "take (i + n) a = take (i + n) b" if "n \<le> 32" "\<And>j. j < n \<Longrightarrow> xs ! j = ys ! j" for n
    proof -
      have "take n (drop i a) = take n (drop i b)"
        using that True nth by (intro nth_equalityI) auto
      then show ?thesis using 1(2) by (simp add: take_add)
    qed
    show ?thesis
    proof (cases "eq_mask xs ys = 0xFFFFFFFF")
      case full: True
      then have "cmp_blocks a b (i + 32) = Ok (slice_cmp a b)"
        using more [of 32] True by (intro 1(1)) (simp_all add: xs_def ys_def eq_mask_full)
      then show ?thesis using True full unfolding cmp_blocks.simps [of a b i] xs_def ys_def by simp
    next
      case False
      note t = trailing_ones_mask [OF False]
      let ?t = "trailing_ones (eq_mask xs ys)"
      have "slice_cmp a b = cmp_of (a ! (i + ?t)) (b ! (i + ?t))"
        using t nth [OF t(1)] True by (intro slice_cmp_mismatch more) simp_all
      moreover have "cmp_blocks a b i = index_cmp a b (i + ?t)"
        using True False unfolding cmp_blocks.simps [of a b i] xs_def ys_def by simp
      ultimately show ?thesis using t(1) True by (simp add: index_cmp_def)
    qed
  qed
qed

text \<open>
  C37. The comparison with 32-byte vectors never indexes out of range and gives the same result
  as the comparison of slices, so that both branches of the dispatch agree on every key.
\<close>

theorem cmp_keys_is_slice_cmp: "cmp_keys avx2 a b = Ok (slice_cmp a b)"
  using cmp_blocks_slice [of 0 a b] by (simp add: cmp_keys_def cmp_keys_avx2_def)

section \<open>The order of encoded keys\<close>

text \<open>
  \<open>decides u v o\<close>: the codes \<open>u\<close> and \<open>v\<close> are equal, or they differ at a byte inside both, which
  decides the comparison whatever follows. Codes of this kind can be concatenated and inverted.
\<close>

inductive decides :: "byte list \<Rightarrow> byte list \<Rightarrow> ordering \<Rightarrow> bool" where
  same: "decides u u Ord_Equal"
| differ: "a \<noteq> b \<Longrightarrow> decides (p @ a # u) (p @ b # v) (cmp_of a b)"

lemma decides_cons: "decides u v o1 \<Longrightarrow> decides (a # u) (a # v) o1"
proof (induction rule: decides.induct)
  case (differ x y p u v)
  then show ?case using decides.differ [of x y "a # p" u v] by simp
qed (rule decides.same)

lemma decides_head: "a \<noteq> b \<Longrightarrow> decides (a # u) (b # v) (cmp_of a b)"
  using decides.differ [of a b "[]"] by simp

lemma cmp_of_Less: "a < b \<Longrightarrow> cmp_of a b = Ord_Less"
  and cmp_of_Greater: "b < a \<Longrightarrow> cmp_of a b = Ord_Greater"
  by (auto simp: cmp_of_def)

lemma decides_less: "a < b \<Longrightarrow> decides (a # u) (b # v) Ord_Less"
  using decides_head [of a b u v] cmp_of_Less [of a b] by force

lemma decides_greater: "b < a \<Longrightarrow> decides (a # u) (b # v) Ord_Greater"
  using decides_head [of a b u v] cmp_of_Greater [of b a] by force

lemma decides_second: "a \<noteq> b \<Longrightarrow> decides (c # a # u) (c # b # v) (cmp_of a b)"
  by (rule decides_cons [OF decides_head])

lemma decides_append: "decides u v o1 \<Longrightarrow> slice_cmp (u @ x) (v @ y) = ord_then o1 (slice_cmp x y)"
proof (induction rule: decides.induct)
  case (differ a b p u v)
  then show ?case
    using slice_cmp_prefix [of p "a # u @ x" "b # v @ y"] by (cases "cmp_of a b") simp_all
qed (simp add: slice_cmp_prefix)

lemma unat_not: "unat (NOT (w :: 'a::len word)) = 2 ^ LENGTH('a) - 1 - unat w"
proof -
  have "NOT w = - 1 - w" by (simp add: not_eq_complement)
  moreover have "w \<le> - 1" by simp
  ultimately show ?thesis using unat_sub [of w "- 1"] by (simp add: unsigned_minus_1_eq_mask mask_eq_exp_minus_1)
qed

lemma cmp_of_not: "cmp_of (NOT a) (NOT b) = ord_reverse (cmp_of a (b :: byte))"
proof -
  have "unat a < 256" "unat b < 256" using unat_word_bound [of a] unat_word_bound [of b] by simp_all
  then show ?thesis by (auto simp: cmp_of_def word_less_nat_alt unat_not word_unat_eq_iff)
qed

lemma decides_invert: "decides u v o1 \<Longrightarrow> decides (map (\<lambda>b. NOT b) u) (map (\<lambda>b. NOT b) v) (ord_reverse o1)"
proof (induction rule: decides.induct)
  case (differ a b p u v)
  then have "NOT a \<noteq> NOT b" by simp
  from decides.differ [OF this] show ?case by (simp add: cmp_of_not)
qed (simp add: decides.same)

text \<open>Texts and blobs.\<close>

lemma decides_encode_bytes: "decides (encode_bytes u) (encode_bytes v) (slice_cmp u v)"
proof (induction u v rule: slice_cmp.induct)
  case (2 b bs)
  then show ?case
    using decides_head [of 0 b] decides_second [of 0 255 0]
    by (auto simp: cmp_of_def word_gt_0 split: if_splits)
next
  case (3 a as)
  then show ?case
    using decides_head [of a 0] decides_second [of 255 0 0]
    by (auto simp: cmp_of_def word_gt_0 split: if_splits)
next
  case (4 a as b bs)
  show ?case
  proof (cases "a = b")
    case True
    with 4 show ?thesis by (simp add: decides_cons)
  next
    case False
    then have "slice_cmp (a # as) (b # bs) = cmp_of a b" by (cases "cmp_of a b") simp_all
    with False decides_head [OF False] show ?thesis by auto
  qed
qed (simp add: decides.same)

text \<open>Integers in big-endian bytes.\<close>

lemma decides_same_length: "length u = length v \<Longrightarrow> decides u v (slice_cmp u v)"
proof (induction u v rule: list_induct2)
  case (Cons a u b v)
  show ?case
  proof (cases "a = b")
    case False
    then have "slice_cmp (a # u) (b # v) = cmp_of a b" by (cases "cmp_of a b") simp_all
    with decides_head [OF False] show ?thesis by simp
  qed (use Cons in \<open>simp add: decides_cons\<close>)
qed (simp add: decides.same)

lemma le_val_append: "le_val (u @ v) = le_val u + 256 ^ length u * le_val v"
  by (induction u) (simp_all add: algebra_simps)

lemma slice_cmp_le_val:
  "length u = length v \<Longrightarrow> slice_cmp u v = cmp_of (le_val (rev u)) (le_val (rev v))"
proof (induction u v rule: list_induct2)
  case (Cons a u b v)
  have bound: "le_val (rev u) < 256 ^ length v" "le_val (rev v) < 256 ^ length v"
    using le_val_bound [of "rev u"] le_val_bound [of "rev v"] Cons.hyps by simp_all
  have step: "x + 256 ^ n * i < y + 256 ^ n * j" if "x < 256 ^ n" "i < j" for x y i j n :: nat
  proof -
    have "x + 256 ^ n * i < 256 ^ n * (i + 1)" using that by simp
    also have "\<dots> \<le> 256 ^ n * j" using that(2) by (intro mult_le_mono2) simp
    finally show ?thesis by simp
  qed
  show ?case
    using Cons bound step [of "le_val (rev u)" "length v" "unat a" "unat b" "le_val (rev v)"]
      step [of "le_val (rev v)" "length v" "unat b" "unat a" "le_val (rev u)"]
    by (auto simp: le_val_append cmp_of_def word_less_nat_alt word_unat_eq_iff)
qed simp

lemma decides_be_bytes: "decides (to_be_bytes (a :: u64)) (to_be_bytes (b :: u64)) (cmp_of (unat a) (unat b))"
proof -
  have "le_val (to_le_bytes w) = unat w" for w :: u64
    using unat_word_bound [of w] by (simp add: to_le_bytes_def le_val_le_bytes)
  then have "slice_cmp (to_be_bytes a) (to_be_bytes b) = cmp_of (unat a) (unat b)"
    by (subst slice_cmp_le_val) (simp_all add: to_be_bytes_def)
  then show ?thesis
    using decides_same_length [of "to_be_bytes a" "to_be_bytes b"] by (simp add: to_be_bytes_def)
qed

text \<open>Flipping the sign bit turns the order of signed integers into that of unsigned ones.\<close>

lemma cmp_of_int: "cmp_of (m :: nat) n = cmp_of (int m) (int n)"
  by (simp add: cmp_of_def)

lemma xor_sign_bit: "w XOR sign_bit = w + sign_bit"
proof -
  have sb: "sign_bit = 2 ^ 63" by (simp add: sign_bit_def)
  have "w XOR 2 ^ 63 = flip_bit 63 w" by (simp add: flip_bit_eq_xor push_bit_eq_mult)
  also have "\<dots> = w + 2 ^ 63"
    by (simp add: flip_bit_eq_if set_bit_eq unset_bit_eq)
  finally show ?thesis by (simp add: sb)
qed

lemma unat_sortable_integer: "int (unat (sortable_integer v)) = sint v + 2 ^ 63"
proof -
  have "sint v = (uint v + 2 ^ 63) mod 2 ^ 64 - 2 ^ 63"
    by (simp add: sint_uint signed_take_bit_eq_take_bit_shift take_bit_eq_mod)
  moreover have "uint (v + sign_bit) = (uint v + 2 ^ 63) mod 2 ^ 64"
    unfolding uint_word_ariths(1) by (simp add: sign_bit_def)
  ultimately show ?thesis by (simp add: sortable_integer_def xor_sign_bit)
qed

text \<open>
  The order of floats by sign and magnitude, which is the order of the numbers that they denote;
  both zeros have rank zero.
\<close>

definition real_rank :: "u64 \<Rightarrow> int" where
  "real_rank v = (if unat v < 2 ^ 63 then int (unat v) else 2 ^ 63 - int (unat v))"

lemma and_sign_bit: "w AND sign_bit = 0 \<longleftrightarrow> unat w < 2 ^ 63"
proof -
  have "w AND sign_bit = 0 \<longleftrightarrow> \<not> bit w 63"
    by (simp add: sign_bit_def bit_iff_and_push_bit_not_eq_0 push_bit_eq_mult)
  also have "bit w 63 \<longleftrightarrow> bit (unat w) 63" by (simp add: bit_unsigned_iff possible_bit_def)
  also have "\<dots> \<longleftrightarrow> odd (unat w div 2 ^ 63)" by (rule bit_iff_odd)
  also have "\<not> \<dots> \<longleftrightarrow> unat w < 2 ^ 63"
  proof -
    have "unat w div 2 ^ 63 < 2" using unat_word_bound [of w] by (simp add: div_less_iff_less_mult)
    then have "unat w div 2 ^ 63 = 0 \<or> unat w div 2 ^ 63 = 1" by auto
    then show ?thesis by (auto simp: div_eq_0_iff)
  qed
  finally show ?thesis .
qed

lemma sortable_real_order: "cmp_of (unat (sortable_real a)) (unat (sortable_real b)) = cmp_of (real_rank a) (real_rank b)"
proof -
  have s: "int (unat (sortable_real v)) = (if real_rank v < 0 then real_rank v + 2 ^ 63 - 1 else real_rank v + 2 ^ 63)" for v
  proof (cases "v = 0 \<or> v = sign_bit")
    case True
    then show ?thesis by (auto simp: sortable_real_def real_rank_def sign_bit_def)
  next
    case False
    have v: "unat v < 2 ^ 64" "unat v \<noteq> 2 ^ 63"
      using unat_word_bound [of v] False by (auto simp: sign_bit_def word_unat_eq_iff)
    show ?thesis
    proof (cases "unat v < 2 ^ 63")
      case True
      then have "unat (sortable_real v) = unat v + 2 ^ 63"
        using False by (simp add: sortable_real_def and_sign_bit xor_sign_bit) (simp add: sign_bit_def unat_word_ariths)
      then show ?thesis using True by (simp add: real_rank_def del: of_nat_unat)
    next
      case neg: False
      then have "unat (sortable_real v) = 2 ^ 64 - 1 - unat v"
        using False by (simp add: sortable_real_def and_sign_bit unat_not)
      then show ?thesis using neg v by (simp add: real_rank_def of_nat_diff del: of_nat_unat)
    qed
  qed
  show ?thesis unfolding cmp_of_int s by (auto simp: cmp_of_def)
qed

text \<open>
  The reference order: nulls, then integers, floats, texts and blobs, each class in its own
  order; keys column by column, with descending columns reversed.
\<close>

fun value_class :: "value_ref \<Rightarrow> nat" where
  "value_class V_Null = 0"
| "value_class (V_Integer v) = 1"
| "value_class (V_Real v) = 2"
| "value_class (V_Text v) = 3"
| "value_class (V_Blob v) = 4"

fun value_cmp :: "value_ref \<Rightarrow> value_ref \<Rightarrow> ordering" where
  "value_cmp (V_Integer a) (V_Integer b) = cmp_of (sint a) (sint b)"
| "value_cmp (V_Real a) (V_Real b) = cmp_of (real_rank a) (real_rank b)"
| "value_cmp (V_Text a) (V_Text b) = slice_cmp a b"
| "value_cmp (V_Blob a) (V_Blob b) = slice_cmp a b"
| "value_cmp a b = cmp_of (value_class a) (value_class b)"

fun tuple_cmp :: "sort_dir list \<Rightarrow> value_ref list \<Rightarrow> value_ref list \<Rightarrow> ordering" where
  "tuple_cmp (dir # dirs) (a # as) (b # bs) =
     ord_then (if dir = Desc then ord_reverse (value_cmp a b) else value_cmp a b) (tuple_cmp dirs as bs)"
| "tuple_cmp dirs as bs = Ord_Equal"

lemma decides_part: "decides (encode_part a) (encode_part b) (value_cmp a b)"
proof (cases "value_class a = value_class b")
  case True
  then show ?thesis
  proof (cases a; cases b; simp)
    fix u v
    have "cmp_of (unat (sortable_integer u)) (unat (sortable_integer v)) = cmp_of (sint u) (sint v)"
      unfolding cmp_of_int unat_sortable_integer by (simp add: cmp_of_def)
    then show "decides (16 # to_be_bytes (sortable_integer u)) (16 # to_be_bytes (sortable_integer v)) (cmp_of (sint u) (sint v))"
      using decides_be_bytes [of "sortable_integer u" "sortable_integer v"] by (simp add: decides_cons)
  next
    fix u v
    show "decides (32 # to_be_bytes (sortable_real u)) (32 # to_be_bytes (sortable_real v)) (cmp_of (real_rank u) (real_rank v))"
      using decides_be_bytes [of "sortable_real u" "sortable_real v"] by (simp add: decides_cons sortable_real_order)
  qed (simp_all add: decides.same decides_cons decides_encode_bytes)
next
  case False
  then show ?thesis
    by (cases a; cases b) (simp_all add: cmp_of_def decides_less decides_greater)
qed

lemma decides_column:
  "slice_cmp (encode_column a dir @ x) (encode_column b dir @ y) =
     ord_then (if dir = Desc then ord_reverse (value_cmp a b) else value_cmp a b) (slice_cmp x y)"
  using decides_append [OF decides_part [of a b]] decides_append [OF decides_invert [OF decides_part [of a b]]]
  by (simp add: encode_column_def)



end
