(* ===== verification/Row_Lock.thy ===== *)
theory Row_Lock
  imports Format_Bytes
begin

text \<open>
  \<^verbatim>\<open>crates/kernel/src/engine/lock.rs\<close>: row locks with a queue of parked waiters per row. Each
  section under the shard mutex is one function; a condition variable is the number of the
  \<^verbatim>\<open>Arc\<close> that holds it, and the functions list the variables that they notify. The hash of a
  key is a parameter. Time enters only as the event that a wait has timed out. The telemetry
  of waiting times is left out.
\<close>

section \<open>State\<close>

type_synonym condvar = nat

record row_key =
  rk_rel_id :: rel_id
  rk_row_id :: row_id

record row_lock_state =
  rl_owner :: "tx_id option"
  rl_waiters :: "condvar list"

definition row_lock_default :: row_lock_state where
  "row_lock_default = \<lparr>rl_owner = None, rl_waiters = []\<rparr>"

type_synonym lock_shard = "row_key \<Rightarrow> row_lock_state option"

type_synonym row_lock_manager = "lock_shard list"

definition row_lock_manager_new :: "nat \<Rightarrow> row_lock_manager" where
  "row_lock_manager_new shard_count = replicate (max shard_count 1) (\<lambda>_. None)"

definition shard_of :: "(row_key \<Rightarrow> nat) \<Rightarrow> row_key \<Rightarrow> row_lock_manager \<Rightarrow> nat" where
  "shard_of hash key mgr = hash key mod length mgr"

definition row_get :: "(row_key \<Rightarrow> nat) \<Rightarrow> row_key \<Rightarrow> row_lock_manager \<Rightarrow> row_lock_state option" where
  "row_get hash key mgr = (mgr ! shard_of hash key mgr) key"

definition row_put ::
    "(row_key \<Rightarrow> nat) \<Rightarrow> row_key \<Rightarrow> row_lock_state option \<Rightarrow> row_lock_manager \<Rightarrow> row_lock_manager" where
  "row_put hash key st mgr =
     mgr[shard_of hash key mgr := (mgr ! shard_of hash key mgr)(key := st)]"

definition entry_or_default :: "row_lock_state option \<Rightarrow> row_lock_state" where
  "entry_or_default st = (case st of Some s \<Rightarrow> s | None \<Rightarrow> row_lock_default)"

section \<open>Operations\<close>

text \<open>
  \<^verbatim>\<open>lock\<close> up to its first wait. \<open>True\<close> means that it returned with the lock; otherwise the caller
  is parked on the new variable \<open>cv\<close>.
\<close>

definition lock_begin ::
    "(row_key \<Rightarrow> nat) \<Rightarrow> row_key \<Rightarrow> tx_id \<Rightarrow> condvar \<Rightarrow> row_lock_manager \<Rightarrow> bool \<times> row_lock_manager" where
  "lock_begin hash key tx_id cv mgr =
     (let st = entry_or_default (row_get hash key mgr) in
      case rl_owner st of
        None \<Rightarrow> (True, row_put hash key (Some (st\<lparr>rl_owner := Some tx_id\<rparr>)) mgr)
      | Some t \<Rightarrow>
          if t = tx_id then (True, row_put hash key (Some st) mgr)
          else (False, row_put hash key (Some (st\<lparr>rl_waiters := rl_waiters st @ [cv]\<rparr>)) mgr))"

text \<open>\<open>remove1\<close> removes the variable at its first position, if it is there.\<close>

definition dequeue_waiter_inner :: "condvar \<Rightarrow> row_lock_state \<Rightarrow> row_lock_state" where
  "dequeue_waiter_inner cv st = st\<lparr>rl_waiters := remove1 cv (rl_waiters st)\<rparr>"

definition front_waiter :: "row_lock_state \<Rightarrow> condvar list" where
  "front_waiter st = take 1 (rl_waiters st)"

definition row_entry :: "row_lock_state \<Rightarrow> row_lock_state option" where
  "row_entry st = (if rl_owner st = None \<and> rl_waiters st = [] then None else Some st)"

definition dequeue_waiter ::
    "(row_key \<Rightarrow> nat) \<Rightarrow> row_key \<Rightarrow> condvar \<Rightarrow> row_lock_manager \<Rightarrow> condvar list \<times> row_lock_manager" where
  "dequeue_waiter hash key cv mgr =
     (case row_get hash key mgr of
        None \<Rightarrow> ([], mgr)
      | Some st \<Rightarrow>
          let st = dequeue_waiter_inner cv st
          in (if rl_owner st = None then front_waiter st else [], row_put hash key (row_entry st) mgr))"

text \<open>
  The body of the loop after a wait that did not time out. \<open>True\<close> means that \<^verbatim>\<open>lock\<close> returned
  with the lock, \<open>False\<close> that it waits again.
\<close>

definition lock_woken ::
    "(row_key \<Rightarrow> nat) \<Rightarrow> row_key \<Rightarrow> tx_id \<Rightarrow> condvar \<Rightarrow> row_lock_manager \<Rightarrow> bool \<times> row_lock_manager" where
  "lock_woken hash key tx_id cv mgr =
     (let st = entry_or_default (row_get hash key mgr) in
      case rl_owner st of
        None \<Rightarrow>
          let ws = (if front_waiter st = [cv] then tl (rl_waiters st)
                    else if cv \<notin> set (rl_waiters st) then rl_waiters st @ [cv]
                    else rl_waiters st)
          in (True, row_put hash key (Some (st\<lparr>rl_waiters := ws, rl_owner := Some tx_id\<rparr>)) mgr)
      | Some t \<Rightarrow>
          if t = tx_id then (True, row_put hash key (Some (dequeue_waiter_inner cv st)) mgr)
          else (False, row_put hash key (Some st) mgr))"

definition unlock ::
    "(row_key \<Rightarrow> nat) \<Rightarrow> row_key \<Rightarrow> tx_id \<Rightarrow> row_lock_manager \<Rightarrow> condvar list \<times> row_lock_manager" where
  "unlock hash key tx_id mgr =
     (case row_get hash key mgr of
        None \<Rightarrow> ([], mgr)
      | Some st \<Rightarrow>
          let owned = (rl_owner st = Some tx_id);
              st = (if owned then st\<lparr>rl_owner := None\<rparr> else st)
          in (if owned then front_waiter st else [], row_put hash key (row_entry st) mgr))"

section \<open>Threads\<close>

text \<open>
  The threads that use the manager: who is parked on which variable and for which row, which
  variables have been notified since their thread parked, and which locks have been returned
  and not released. A notification of a variable that nobody waits on has no effect.
\<close>

record lock_system =
  ls_mgr :: row_lock_manager
  ls_parked :: "condvar \<Rightarrow> (row_key \<times> tx_id) option"
  ls_notified :: "condvar set"
  ls_granted :: "(row_key \<times> tx_id) set"
  ls_next :: condvar

definition lock_system_new :: "nat \<Rightarrow> lock_system" where
  "lock_system_new shard_count =
     \<lparr>ls_mgr = row_lock_manager_new shard_count, ls_parked = (\<lambda>_. None), ls_notified = {}, ls_granted = {}, ls_next = 0\<rparr>"

datatype lock_event = Ev_Lock row_key tx_id | Ev_Wake condvar | Ev_Timeout condvar | Ev_Unlock row_key tx_id

definition notify :: "condvar list \<Rightarrow> lock_system \<Rightarrow> lock_system" where
  "notify cvs s = s\<lparr>ls_notified := ls_notified s \<union> {cv \<in> set cvs. ls_parked s cv \<noteq> None}\<rparr>"

text \<open>A parked thread wakes when it was notified, or for no reason if \<open>spurious\<close> allows it.\<close>

fun lock_step :: "(row_key \<Rightarrow> nat) \<Rightarrow> bool \<Rightarrow> lock_event \<Rightarrow> lock_system \<Rightarrow> lock_system option" where
  "lock_step hash spurious (Ev_Lock key tx) s =
     (case lock_begin hash key tx (ls_next s) (ls_mgr s) of
        (True, mgr) \<Rightarrow> Some (s\<lparr>ls_mgr := mgr, ls_granted := insert (key, tx) (ls_granted s)\<rparr>)
      | (False, mgr) \<Rightarrow> Some (s\<lparr>ls_mgr := mgr, ls_parked := (ls_parked s)(ls_next s := Some (key, tx)), ls_next := Suc (ls_next s)\<rparr>))"
| "lock_step hash spurious (Ev_Wake cv) s =
     (case ls_parked s cv of
        None \<Rightarrow> None
      | Some (key, tx) \<Rightarrow>
          if cv \<notin> ls_notified s \<and> \<not> spurious then None
          else (case lock_woken hash key tx cv (ls_mgr s) of
                  (True, mgr) \<Rightarrow> Some (s\<lparr>ls_mgr := mgr, ls_parked := (ls_parked s)(cv := None),
                                         ls_notified := ls_notified s - {cv}, ls_granted := insert (key, tx) (ls_granted s)\<rparr>)
                | (False, mgr) \<Rightarrow> Some (s\<lparr>ls_mgr := mgr, ls_notified := ls_notified s - {cv}\<rparr>)))"
| "lock_step hash spurious (Ev_Timeout cv) s =
     (case ls_parked s cv of
        None \<Rightarrow> None
      | Some (key, tx) \<Rightarrow>
          (case dequeue_waiter hash key cv (ls_mgr s) of
             (cvs, mgr) \<Rightarrow> Some (notify cvs (s\<lparr>ls_mgr := mgr, ls_parked := (ls_parked s)(cv := None),
                                               ls_notified := ls_notified s - {cv}\<rparr>))))"
| "lock_step hash spurious (Ev_Unlock key tx) s =
     (case unlock hash key tx (ls_mgr s) of
        (cvs, mgr) \<Rightarrow> Some (notify cvs (s\<lparr>ls_mgr := mgr, ls_granted := ls_granted s - {(key, tx)}\<rparr>)))"

fun lock_run :: "(row_key \<Rightarrow> nat) \<Rightarrow> bool \<Rightarrow> lock_event list \<Rightarrow> lock_system \<Rightarrow> lock_system option" where
  "lock_run hash spurious [] s = Some s"
| "lock_run hash spurious (e # es) s = Option.bind (lock_step hash spurious e s) (lock_run hash spurious es)"

section \<open>The table of rows\<close>

lemma row_get_put:
  "mgr \<noteq> [] \<Longrightarrow> row_get hash key (row_put hash key' st mgr) = (if key = key' then st else row_get hash key mgr)"
  by (auto simp: row_get_def row_put_def shard_of_def nth_list_update)

lemma row_put_nonempty [simp]: "row_put hash key st mgr = [] \<longleftrightarrow> mgr = []"
  by (simp add: row_put_def)

definition owner_of :: "(row_key \<Rightarrow> nat) \<Rightarrow> row_key \<Rightarrow> row_lock_manager \<Rightarrow> tx_id option" where
  "owner_of hash key mgr = rl_owner (entry_or_default (row_get hash key mgr))"

definition waiters_of :: "(row_key \<Rightarrow> nat) \<Rightarrow> row_key \<Rightarrow> row_lock_manager \<Rightarrow> condvar list" where
  "waiters_of hash key mgr = rl_waiters (entry_or_default (row_get hash key mgr))"

lemma entry_row_entry: "rl_owner (entry_or_default (row_entry st)) = rl_owner st"
  "rl_waiters (entry_or_default (row_entry st)) = rl_waiters st"
  by (simp_all add: row_entry_def entry_or_default_def row_lock_default_def)

lemma entry_Some [simp]: "entry_or_default (Some st) = st"
  by (simp add: entry_or_default_def)

text \<open>What each operation does to the owner and the waiters of every row.\<close>

lemma lock_begin_effect:
  assumes "mgr \<noteq> []" and "lock_begin hash key tx cv mgr = (got, mgr')"
  shows "mgr' \<noteq> []"
    and "owner_of hash k mgr' = (if k = key \<and> owner_of hash key mgr = None then Some tx else owner_of hash k mgr)"
    and "waiters_of hash k mgr' = (if k = key \<and> \<not> got then waiters_of hash k mgr @ [cv] else waiters_of hash k mgr)"
    and "got \<longleftrightarrow> owner_of hash key mgr = None \<or> owner_of hash key mgr = Some tx"
  using assms by (auto simp: lock_begin_def owner_of_def waiters_of_def row_get_put Let_def split: option.splits if_splits)

lemma lock_woken_effect:
  assumes "mgr \<noteq> []" and "lock_woken hash key tx cv mgr = (got, mgr')"
  shows "mgr' \<noteq> []"
    and "owner_of hash k mgr' = (if k = key \<and> owner_of hash key mgr = None then Some tx else owner_of hash k mgr)"
    and "got \<longleftrightarrow> owner_of hash key mgr = None \<or> owner_of hash key mgr = Some tx"
    and "k \<noteq> key \<Longrightarrow> waiters_of hash k mgr' = waiters_of hash k mgr"
    and "waiters_of hash key mgr = cv # ws \<Longrightarrow> waiters_of hash key mgr' = (if got then ws else cv # ws)"
  using assms by (auto simp: lock_woken_def owner_of_def waiters_of_def row_get_put dequeue_waiter_inner_def front_waiter_def Let_def
      split: option.splits if_splits)

lemma dequeue_waiter_effect:
  assumes "mgr \<noteq> []" and "dequeue_waiter hash key cv mgr = (cvs, mgr')"
  shows "mgr' \<noteq> []" and "owner_of hash k mgr' = owner_of hash k mgr"
    and "waiters_of hash k mgr' = (if k = key then remove1 cv (waiters_of hash k mgr) else waiters_of hash k mgr)"
    and "cvs = (if owner_of hash key mgr = None then take 1 (remove1 cv (waiters_of hash key mgr)) else [])"
  using assms by (auto simp: dequeue_waiter_def owner_of_def waiters_of_def row_get_put dequeue_waiter_inner_def front_waiter_def
      entry_row_entry row_lock_default_def entry_or_default_def [of None] Let_def split: option.splits if_splits)

lemma unlock_effect:
  assumes "mgr \<noteq> []" and "unlock hash key tx mgr = (cvs, mgr')"
  shows "mgr' \<noteq> []"
    and "owner_of hash k mgr' = (if k = key \<and> owner_of hash key mgr = Some tx then None else owner_of hash k mgr)"
    and "waiters_of hash k mgr' = waiters_of hash k mgr"
    and "cvs = (if owner_of hash key mgr = Some tx then take 1 (waiters_of hash key mgr) else [])"
  using assms by (auto simp: unlock_def owner_of_def waiters_of_def row_get_put front_waiter_def
      entry_row_entry row_lock_default_def entry_or_default_def [of None] Let_def split: option.splits if_splits)

section \<open>Mutual exclusion\<close>

definition granted_inv :: "(row_key \<Rightarrow> nat) \<Rightarrow> lock_system \<Rightarrow> bool" where
  "granted_inv hash s \<longleftrightarrow>
     ls_mgr s \<noteq> [] \<and> (\<forall>key tx. (key, tx) \<in> ls_granted s \<longrightarrow> owner_of hash key (ls_mgr s) = Some tx)"

lemma granted_inv_new: "granted_inv hash (lock_system_new n)"
  by (simp add: granted_inv_def lock_system_new_def row_lock_manager_new_def)

lemma granted_inv_step:
  assumes inv: "granted_inv hash s" and step: "lock_step hash spurious e s = Some s'"
  shows "granted_inv hash s'"
proof -
  have ne: "ls_mgr s \<noteq> []" using inv by (simp add: granted_inv_def)
  show ?thesis
  proof (cases e)
    case (Ev_Lock key tx)
    obtain got mgr where l: "lock_begin hash key tx (ls_next s) (ls_mgr s) = (got, mgr)" by fastforce
    show ?thesis
      using inv step lock_begin_effect [OF ne l] by (cases got) (auto simp: Ev_Lock l granted_inv_def)
  next
    case (Ev_Wake cv)
    then obtain key tx where p: "ls_parked s cv = Some (key, tx)" using step by (auto split: option.splits)
    obtain got mgr where l: "lock_woken hash key tx cv (ls_mgr s) = (got, mgr)" by fastforce
    show ?thesis
      using inv step lock_woken_effect(1-3) [OF ne l] by (cases got) (auto simp: Ev_Wake p l granted_inv_def split: if_splits)
  next
    case (Ev_Timeout cv)
    then obtain key tx where p: "ls_parked s cv = Some (key, tx)" using step by (auto split: option.splits)
    obtain cvs mgr where l: "dequeue_waiter hash key cv (ls_mgr s) = (cvs, mgr)" by fastforce
    show ?thesis
      using inv step dequeue_waiter_effect(1,2) [OF ne l] by (auto simp: Ev_Timeout p l granted_inv_def notify_def)
  next
    case (Ev_Unlock key tx)
    obtain cvs mgr where l: "unlock hash key tx (ls_mgr s) = (cvs, mgr)" by fastforce
    show ?thesis
      using inv step unlock_effect(1,2) [OF ne l] by (auto simp: Ev_Unlock l granted_inv_def notify_def)
  qed
qed

lemma lock_run_invariant:
  assumes "\<And>e s s'. I s \<Longrightarrow> lock_step hash spurious e s = Some s' \<Longrightarrow> I s'"
  shows "I s \<Longrightarrow> lock_run hash spurious es s = Some s' \<Longrightarrow> I s'"
  by (induction es arbitrary: s) (auto simp: bind_eq_Some_conv intro: assms)

text \<open>
  C3. Mutual exclusion: whatever the threads do, spurious wake-ups and time-outs included, two
  transactions never hold the lock of one row at the same time, and the holder is the recorded
  owner.
\<close>

theorem row_lock_exclusive:
  assumes "lock_run hash spurious events (lock_system_new shard_count) = Some s"
    and "(key, tx) \<in> ls_granted s" and "(key, tx') \<in> ls_granted s"
  shows "tx = tx' \<and> owner_of hash key (ls_mgr s) = Some tx"
proof -
  have "granted_inv hash s"
    using granted_inv_step granted_inv_new assms(1) by (rule lock_run_invariant [where I = "granted_inv hash"])
  then have "owner_of hash key (ls_mgr s) = Some tx" "owner_of hash key (ls_mgr s) = Some tx'"
    using assms(2,3) unfolding granted_inv_def by blast+
  then show ?thesis by simp
qed

section \<open>Hand-over of a released lock\<close>

text \<open>
  Without spurious wake-ups the queue of a row is exactly its parked threads, only its front is
  ever notified, and the front of a free row has been notified.
\<close>

definition queue_inv :: "(row_key \<Rightarrow> nat) \<Rightarrow> lock_system \<Rightarrow> bool" where
  "queue_inv hash s \<longleftrightarrow>
     ls_mgr s \<noteq> [] \<and> (\<forall>cv\<ge>ls_next s. ls_parked s cv = None) \<and> ls_notified s \<subseteq> dom (ls_parked s) \<and>
     (\<forall>key. distinct (waiters_of hash key (ls_mgr s)) \<and>
        set (waiters_of hash key (ls_mgr s)) = {cv. \<exists>tx. ls_parked s cv = Some (key, tx)} \<and>
        (\<forall>cv tx. cv \<in> ls_notified s \<longrightarrow> ls_parked s cv = Some (key, tx) \<longrightarrow> cv = hd (waiters_of hash key (ls_mgr s))) \<and>
        (owner_of hash key (ls_mgr s) = None \<longrightarrow> waiters_of hash key (ls_mgr s) \<noteq> [] \<longrightarrow>
           hd (waiters_of hash key (ls_mgr s)) \<in> ls_notified s))"

lemma queue_invD:
  assumes "queue_inv hash s"
  shows "ls_mgr s \<noteq> []" "ls_next s \<le> cv \<Longrightarrow> ls_parked s cv = None" "ls_notified s \<subseteq> dom (ls_parked s)"
    "distinct (waiters_of hash key (ls_mgr s))"
    "cv \<in> set (waiters_of hash key (ls_mgr s)) \<longleftrightarrow> (\<exists>tx. ls_parked s cv = Some (key, tx))"
    "cv \<in> ls_notified s \<Longrightarrow> ls_parked s cv = Some (key, tx) \<Longrightarrow> hd (waiters_of hash key (ls_mgr s)) = cv"
    "owner_of hash key (ls_mgr s) = None \<Longrightarrow> waiters_of hash key (ls_mgr s) \<noteq> [] \<Longrightarrow>
       hd (waiters_of hash key (ls_mgr s)) \<in> ls_notified s"
  using assms unfolding queue_inv_def by blast+

lemma queue_invI:
  assumes "ls_mgr s \<noteq> []" and "\<And>cv. ls_next s \<le> cv \<Longrightarrow> ls_parked s cv = None" and "ls_notified s \<subseteq> dom (ls_parked s)"
    and "\<And>key. distinct (waiters_of hash key (ls_mgr s))"
    and "\<And>key cv. cv \<in> set (waiters_of hash key (ls_mgr s)) \<longleftrightarrow> (\<exists>tx. ls_parked s cv = Some (key, tx))"
    and "\<And>key cv tx. cv \<in> ls_notified s \<Longrightarrow> ls_parked s cv = Some (key, tx) \<Longrightarrow> hd (waiters_of hash key (ls_mgr s)) = cv"
    and "\<And>key. owner_of hash key (ls_mgr s) = None \<Longrightarrow> waiters_of hash key (ls_mgr s) \<noteq> [] \<Longrightarrow>
       hd (waiters_of hash key (ls_mgr s)) \<in> ls_notified s"
  shows "queue_inv hash s"
  unfolding queue_inv_def using assms by (auto simp: set_eq_iff)

lemma queue_inv_new: "queue_inv hash (lock_system_new n)"
proof -
  have "waiters_of hash key (row_lock_manager_new n) = []" for key
    by (simp add: waiters_of_def row_get_def row_lock_manager_new_def shard_of_def entry_or_default_def row_lock_default_def)
  then show ?thesis
    by (intro queue_invI) (simp_all add: lock_system_new_def row_lock_manager_new_def)
qed

lemma queue_inv_lock:
  assumes inv: "queue_inv hash s" and step: "lock_step hash False (Ev_Lock key tx) s = Some s'"
  shows "queue_inv hash s'"
proof -
  note d = queue_invD [OF inv]
  obtain got mgr where l: "lock_begin hash key tx (ls_next s) (ls_mgr s) = (got, mgr)" by fastforce
  note e = lock_begin_effect [OF d(1) l]
  show ?thesis
  proof (cases got)
    case True
    then have s': "s' = s\<lparr>ls_mgr := mgr, ls_granted := insert (key, tx) (ls_granted s)\<rparr>" using step l by simp
    show ?thesis
      by (rule queue_invI) (use d e True in \<open>auto simp: s' split: if_splits\<close>)
  next
    case False
    let ?cv = "ls_next s"
    have s': "s' = s\<lparr>ls_mgr := mgr, ls_parked := (ls_parked s)(?cv := Some (key, tx)), ls_next := Suc ?cv\<rparr>"
      using step l False by simp
    have new: "?cv \<notin> set (waiters_of hash k (ls_mgr s))" "?cv \<notin> ls_notified s" for k
      using d(2) [of ?cv] d(3,5) by auto
    show ?thesis
    proof (rule queue_invI)
      fix k cv tx' assume n: "cv \<in> ls_notified s'" "ls_parked s' cv = Some (k, tx')"
      then have "cv \<noteq> ?cv" "ls_parked s cv = Some (k, tx')" using new(2) by (auto simp: s' split: if_splits)
      then have "hd (waiters_of hash k (ls_mgr s)) = cv" "waiters_of hash k (ls_mgr s) \<noteq> []"
        using d(5) [of cv k] d(6) n(1) by (auto simp: s')
      then show "hd (waiters_of hash k (ls_mgr s')) = cv" using e(3) by (auto simp: s')
    qed (use d e False new in \<open>auto simp: s' split: if_splits\<close>)
  qed
qed

lemma take_front: "take (Suc 0) xs = (if xs = [] then [] else [hd xs])"
  by (cases xs) simp_all

lemma notify_parked:
  "(\<And>c. c \<in> set cvs \<Longrightarrow> ls_parked s c \<noteq> None) \<Longrightarrow> notify cvs s = s\<lparr>ls_notified := ls_notified s \<union> set cvs\<rparr>"
proof -
  assume "\<And>c. c \<in> set cvs \<Longrightarrow> ls_parked s c \<noteq> None"
  then have "{c \<in> set cvs. ls_parked s c \<noteq> None} = set cvs" by blast
  then show ?thesis by (simp only: notify_def)
qed

lemma queue_inv_front:
  assumes "queue_inv hash s" and "cv \<in> ls_notified s" and "ls_parked s cv = Some (key, tx)"
  obtains ws where "waiters_of hash key (ls_mgr s) = cv # ws"
  using queue_invD(5) [OF assms(1), of cv key] queue_invD(6) [OF assms] assms(3)
  by (cases "waiters_of hash key (ls_mgr s)") auto

lemma queue_inv_wake:
  assumes inv: "queue_inv hash s" and step: "lock_step hash False (Ev_Wake cv) s = Some s'"
  shows "queue_inv hash s'"
proof -
  note d = queue_invD [OF inv]
  obtain key tx where p: "ls_parked s cv = Some (key, tx)" "cv \<in> ls_notified s"
    using step by (auto split: option.splits if_splits)
  obtain ws where ws: "waiters_of hash key (ls_mgr s) = cv # ws" by (rule queue_inv_front [OF inv p(2,1)])
  obtain got mgr where l: "lock_woken hash key tx cv (ls_mgr s) = (got, mgr)" by fastforce
  note e = lock_woken_effect [OF d(1) l] and w = lock_woken_effect(5) [OF d(1) l ws]
  have only: "cv' = cv" if "cv' \<in> ls_notified s" "ls_parked s cv' = Some (key, t)" for cv' t
    using d(6) [OF that] ws by simp
  have cv: "cv \<notin> set ws" "distinct ws" using d(4) [of key] ws by simp_all
  have in_ws: "c \<in> set ws \<longleftrightarrow> c \<noteq> cv \<and> (\<exists>t. ls_parked s c = Some (key, t))" for c
    using d(5) [of c key] ws cv by auto
  have other: "hd (waiters_of hash k (ls_mgr s)) \<noteq> cv"
    if "k \<noteq> key" "waiters_of hash k (ls_mgr s) \<noteq> []" for k
    using that d(5) [of cv k] p(1) by (metis list.set_sel(1) option.inject prod.inject)
  show ?thesis
  proof (cases got)
    case True
    then have s': "s' = s\<lparr>ls_mgr := mgr, ls_parked := (ls_parked s)(cv := None), ls_notified := ls_notified s - {cv},
        ls_granted := insert (key, tx) (ls_granted s)\<rparr>" using step l p by simp
    have waiters: "waiters_of hash k mgr = (if k = key then ws else waiters_of hash k (ls_mgr s))" for k
      using e(4) w True by simp
    have owner: "owner_of hash key mgr \<noteq> None" using e(2,3) True by auto
    show ?thesis
    proof (rule queue_invI)
      fix k c
      show "c \<in> set (waiters_of hash k (ls_mgr s')) \<longleftrightarrow> (\<exists>t. ls_parked s' c = Some (k, t))"
        using in_ws [of c] d(5) [of c k] p(1) by (cases "k = key") (auto simp: s' waiters)
    next
      fix k c t assume c: "c \<in> ls_notified s'" "ls_parked s' c = Some (k, t)"
      then have "k \<noteq> key" using only [of c] by (auto simp: s')
      then show "hd (waiters_of hash k (ls_mgr s')) = c" using c d(6) [of c k t] by (auto simp: s' waiters)
    next
      fix k assume k: "owner_of hash k (ls_mgr s') = None" "waiters_of hash k (ls_mgr s') \<noteq> []"
      then have "k \<noteq> key" using owner by (auto simp: s')
      then show "hd (waiters_of hash k (ls_mgr s')) \<in> ls_notified s'"
        using k d(7) [of k] other [of k] e(2) by (simp add: s' waiters)
    qed (use d(2-4) e(1) cv in \<open>auto simp: s' waiters\<close>)
  next
    case False
    then have s': "s' = s\<lparr>ls_mgr := mgr, ls_notified := ls_notified s - {cv}\<rparr>" using step l p by simp
    have waiters: "waiters_of hash k mgr = waiters_of hash k (ls_mgr s)" for k
      using e(4) w False ws by (cases "k = key") simp_all
    have owner: "owner_of hash key mgr \<noteq> None" using e(2,3) False by auto
    show ?thesis
    proof (rule queue_invI)
      fix k assume k: "owner_of hash k (ls_mgr s') = None" "waiters_of hash k (ls_mgr s') \<noteq> []"
      then have "k \<noteq> key" using owner by (auto simp: s')
      then show "hd (waiters_of hash k (ls_mgr s')) \<in> ls_notified s'"
        using k d(7) [of k] other [of k] e(2) by (simp add: s' waiters)
    qed (use d(2-6) e(1) in \<open>auto simp: s' waiters\<close>)
  qed
qed

lemma queue_inv_timeout:
  assumes inv: "queue_inv hash s" and step: "lock_step hash False (Ev_Timeout cv) s = Some s'"
  shows "queue_inv hash s'"
proof -
  note d = queue_invD [OF inv]
  obtain key tx where p: "ls_parked s cv = Some (key, tx)" using step by (auto split: option.splits)
  obtain cvs mgr where l: "dequeue_waiter hash key cv (ls_mgr s) = (cvs, mgr)" by fastforce
  note e = dequeue_waiter_effect [OF d(1) l]
  let ?ws = "remove1 cv (waiters_of hash key (ls_mgr s))"
  have in_ws: "c \<in> set ?ws \<longleftrightarrow> c \<noteq> cv \<and> (\<exists>t. ls_parked s c = Some (key, t))" for c
    using d(4) [of key] d(5) [of c key] by auto
  have front: "set cvs \<subseteq> set ?ws" "\<And>c. c \<in> set cvs \<Longrightarrow> c = hd ?ws"
    using e(4) by (auto simp: take_front split: if_splits)
  define s0 where "s0 = s\<lparr>ls_mgr := mgr, ls_parked := (ls_parked s)(cv := None), ls_notified := ls_notified s - {cv}\<rparr>"
  have "ls_parked s0 c \<noteq> None" if "c \<in> set cvs" for c
    using subsetD [OF front(1) that] unfolding in_ws by (auto simp: s0_def)
  from notify_parked [OF this] have s':
    "s' = s\<lparr>ls_mgr := mgr, ls_parked := (ls_parked s)(cv := None), ls_notified := ls_notified s - {cv} \<union> set cvs\<rparr>"
    using step l p by (simp add: s0_def)
  have keep: "hd ?ws = c" if "c \<in> ls_notified s" "ls_parked s c = Some (key, t)" "c \<noteq> cv" for c t
    using d(6) [OF that(1,2)] d(5) [of c key] that by (cases "waiters_of hash key (ls_mgr s)") auto
  have other: "hd (waiters_of hash k (ls_mgr s)) \<noteq> cv" if "k \<noteq> key" "waiters_of hash k (ls_mgr s) \<noteq> []" for k
    using that d(5) [of cv k] p by (metis list.set_sel(1) option.inject prod.inject)
  show ?thesis
  proof (rule queue_invI)
    fix k assume k: "owner_of hash k (ls_mgr s') = None" "waiters_of hash k (ls_mgr s') \<noteq> []"
    show "hd (waiters_of hash k (ls_mgr s')) \<in> ls_notified s'"
    proof (cases "k = key")
      case True
      then have "cvs = [hd ?ws]" "waiters_of hash k (ls_mgr s') = ?ws" using k e(2) [of k] e(3) [of k] e(4) by (simp_all add: s' take_front)
      then show ?thesis by (simp add: s')
    next
      case False
      then show ?thesis using k d(7) [of k] e(2) [of k] e(3) [of k] other [of k] by (simp add: s')
    qed
  next
    fix k c t assume c: "c \<in> ls_notified s'" "ls_parked s' c = Some (k, t)"
    then have c': "c \<noteq> cv" "ls_parked s c = Some (k, t)" "c \<in> set cvs \<or> c \<in> ls_notified s" by (auto simp: s' split: if_splits)
    show "hd (waiters_of hash k (ls_mgr s')) = c"
    proof (cases "k = key")
      case True
      then show ?thesis using c' front(2) [of c] keep [of c t] e(3) [of k] by (auto simp: s')
    next
      case False
      then have "c \<notin> set cvs" using front(1) in_ws [of c] c'(2) by auto
      with False show ?thesis using c' d(6) [of c k t] e(3) [of k] by (simp add: s')
    qed
  next
    fix k c show "c \<in> set (waiters_of hash k (ls_mgr s')) \<longleftrightarrow> (\<exists>t. ls_parked s' c = Some (k, t))"
      using in_ws [of c] d(5) [of c k] e(3) [of k] p by (cases "k = key") (auto simp: s')
  next
    show "ls_notified s' \<subseteq> dom (ls_parked s')" using d(3) front(1) in_ws by (fastforce simp: s')
  next
    fix k show "distinct (waiters_of hash k (ls_mgr s'))" using d(4) [of k] e(3) [of k] by (auto simp: s' distinct_remove1)
  next
    fix c assume "ls_next s' \<le> c" then show "ls_parked s' c = None" using d(2) [of c] by (simp add: s')
  qed (simp add: s' e(1))
qed

lemma queue_inv_unlock:
  assumes inv: "queue_inv hash s" and step: "lock_step hash False (Ev_Unlock key tx) s = Some s'"
  shows "queue_inv hash s'"
proof -
  note d = queue_invD [OF inv]
  obtain cvs mgr where l: "unlock hash key tx (ls_mgr s) = (cvs, mgr)" by fastforce
  note e = unlock_effect [OF d(1) l]
  have front: "\<And>c. c \<in> set cvs \<Longrightarrow> c = hd (waiters_of hash key (ls_mgr s)) \<and> c \<in> set (waiters_of hash key (ls_mgr s))"
    using e(4) by (auto simp: take_front split: if_splits)
  define s0 where "s0 = s\<lparr>ls_mgr := mgr, ls_granted := ls_granted s - {(key, tx)}\<rparr>"
  have "ls_parked s0 c \<noteq> None" if "c \<in> set cvs" for c
    using front [OF that] unfolding d(5) by (auto simp: s0_def)
  from notify_parked [OF this] have s':
    "s' = s\<lparr>ls_mgr := mgr, ls_granted := ls_granted s - {(key, tx)}, ls_notified := ls_notified s \<union> set cvs\<rparr>"
    using step l by (simp add: s0_def)
  show ?thesis
  proof (rule queue_invI)
    fix k assume k: "owner_of hash k (ls_mgr s') = None" "waiters_of hash k (ls_mgr s') \<noteq> []"
    show "hd (waiters_of hash k (ls_mgr s')) \<in> ls_notified s'"
      using k d(7) [of k] e(2) [of k] e(3) [of k] e(4) by (auto simp: s' take_front split: if_splits)
  next
    fix k c t assume c: "c \<in> ls_notified s'" "ls_parked s' c = Some (k, t)"
    then have "c \<in> set cvs \<Longrightarrow> k = key" using front [of c] d(5) [of c key] by (auto simp: s')
    then show "hd (waiters_of hash k (ls_mgr s')) = c"
      using c d(6) [of c k t] front [of c] e(3) [of k] by (auto simp: s')
  next
    show "ls_notified s' \<subseteq> dom (ls_parked s')" using d(3) front d(5) [of _ key] by (fastforce simp: s')
  qed (use d(2,4,5) e(1,3) in \<open>simp_all add: s'\<close>)
qed

lemma queue_inv_step:
  assumes "queue_inv hash s" and "lock_step hash False e s = Some s'"
  shows "queue_inv hash s'"
  using assms queue_inv_lock queue_inv_wake queue_inv_timeout queue_inv_unlock by (cases e) blast+

text \<open>
  C20. No wake-up is lost without spurious wake-ups: whenever a row is free and threads are
  queued for it, the first of them is parked and has been notified, and when it runs it gets
  the lock.
\<close>

theorem row_lock_hand_over:
  assumes "lock_run hash False events (lock_system_new shard_count) = Some s"
    and "owner_of hash key (ls_mgr s) = None" and "waiters_of hash key (ls_mgr s) = cv # ws"
  shows "\<exists>tx s'. ls_parked s cv = Some (key, tx) \<and> cv \<in> ls_notified s \<and>
    lock_step hash False (Ev_Wake cv) s = Some s' \<and> (key, tx) \<in> ls_granted s' \<and>
    waiters_of hash key (ls_mgr s') = ws"
proof -
  have inv: "queue_inv hash s"
    using queue_inv_step queue_inv_new assms(1) by (rule lock_run_invariant [where I = "queue_inv hash"])
  note d = queue_invD [OF inv]
  obtain tx where tx: "ls_parked s cv = Some (key, tx)" using d(5) [of cv key] assms(3) by auto
  have n: "cv \<in> ls_notified s" using d(7) [of key] assms(2,3) by simp
  obtain got mgr where l: "lock_woken hash key tx cv (ls_mgr s) = (got, mgr)" by fastforce
  have "got" "waiters_of hash key mgr = ws"
    using lock_woken_effect(3) [OF d(1) l] lock_woken_effect(5) [OF d(1) l assms(3)] assms(2) by simp_all
  then show ?thesis using tx n l by simp
qed

section \<open>Spurious wake-ups\<close>

definition sample_row :: row_key where
  "sample_row = \<lparr>rk_rel_id = 7, rk_row_id = 42\<rparr>"

text \<open>
  Transactions 2 and 3 wait for transaction 1. After the release, 3 wakes spuriously before 2
  and takes the lock, but its variable stays in the queue. Both then release in turn, and
  transaction 4, which waits for 2, is behind the variable that 3 left.
\<close>

definition stale_waiter_events :: "lock_event list" where
  "stale_waiter_events =
     [Ev_Lock sample_row 1, Ev_Lock sample_row 2, Ev_Lock sample_row 3, Ev_Unlock sample_row 1, Ev_Wake 1,
      Ev_Wake 0, Ev_Unlock sample_row 3, Ev_Wake 0, Ev_Lock sample_row 4, Ev_Unlock sample_row 2]"

lemmas lock_eval = lock_system_new_def row_lock_manager_new_def lock_begin_def lock_woken_def unlock_def dequeue_waiter_def
  dequeue_waiter_inner_def notify_def row_get_def row_put_def shard_of_def entry_or_default_def row_lock_default_def
  row_entry_def front_waiter_def owner_of_def waiters_of_def


definition two_waiters_events :: "lock_event list" where
  "two_waiters_events = [Ev_Lock sample_row 1, Ev_Lock sample_row 2, Ev_Lock sample_row 3, Ev_Unlock sample_row 1]"

theorem row_lock_exclusive_witness:
  "\<exists>s. lock_run (\<lambda>_. 0) True [Ev_Lock sample_row 1, Ev_Lock sample_row 2] (lock_system_new 4) = Some s \<and>
     (sample_row, 1) \<in> ls_granted s \<and> owner_of (\<lambda>_. 0) sample_row (ls_mgr s) = Some 1"
proof -
  obtain s where s: "lock_run (\<lambda>_. 0) True [Ev_Lock sample_row 1, Ev_Lock sample_row 2] (lock_system_new 4) = Some s"
    "(sample_row, 1) \<in> ls_granted s"
    by (simp add: lock_eval)
  from row_lock_exclusive [OF this s(2)] s show ?thesis by blast
qed

theorem row_lock_hand_over_witness:
  "\<exists>s s'. lock_run (\<lambda>_. 0) False two_waiters_events (lock_system_new 4) = Some s \<and>
     lock_step (\<lambda>_. 0) False (Ev_Wake 0) s = Some s' \<and> waiters_of (\<lambda>_. 0) sample_row (ls_mgr s') = [1]"
proof -
  obtain s where s: "lock_run (\<lambda>_. 0) False two_waiters_events (lock_system_new 4) = Some s"
    "owner_of (\<lambda>_. 0) sample_row (ls_mgr s) = None" "waiters_of (\<lambda>_. 0) sample_row (ls_mgr s) = [0, 1]"
    by (simp add: two_waiters_events_def lock_eval)
  from row_lock_hand_over [OF this] s(1) show ?thesis by blast
qed

end
