(* ===== verification/Control_Store.thy ===== *)
theory Control_Store
  imports Wal_Segment Wal_Record
begin

text \<open>
  \<^verbatim>\<open>crates/kernel/src/storage/control.rs\<close> and \<^verbatim>\<open>storage/tx_status_checkpoint.rs\<close>: the pair of
  control files that name the last checkpoint, and the table of transaction outcomes that is
  saved with it. A directory is a map from file names to contents; a crash in the middle of a
  write leaves a prefix of the new contents.
\<close>

section \<open>Control files\<close>

definition CONTROL_MAGIC :: u32 where "CONTROL_MAGIC = 0x52444354"
definition CONTROL_VERSION :: u32 where "CONTROL_VERSION = 1"

abbreviation CONTROL_LEN :: nat where "CONTROL_LEN \<equiv> 64"
abbreviation CONTROL_CHECKSUM_OFFSET :: nat where "CONTROL_CHECKSUM_OFFSET \<equiv> 8"

definition CONTROL_A :: string where "CONTROL_A = ''CONTROL_A''"
definition CONTROL_B :: string where "CONTROL_B = ''CONTROL_B''"

record control_file =
  cf_generation :: u64
  cf_checkpoint_lsn :: lsn
  cf_page_count :: u64

type_synonym dir_files = "string \<Rightarrow> byte list option"

definition control_encode :: "crc_fn \<Rightarrow> control_file \<Rightarrow> byte list result" where
  "control_encode crc c =
     rbind (write_u32 (replicate CONTROL_LEN 0) 0 CONTROL_MAGIC) (\<lambda>out.
     rbind (write_u32 out 4 CONTROL_VERSION) (\<lambda>out.
     rbind (write_u32 out CONTROL_CHECKSUM_OFFSET 0) (\<lambda>out.
     rbind (write_u32 out 12 0) (\<lambda>out.
     rbind (write_u64 out 16 (cf_generation c)) (\<lambda>out.
     rbind (write_u64 out 24 (cf_checkpoint_lsn c)) (\<lambda>out.
     rbind (write_u64 out 32 (cf_page_count c)) (\<lambda>out.
     rbind (crc32_with_zeroed_field crc out CONTROL_CHECKSUM_OFFSET) (\<lambda>checksum.
     write_u32 out CONTROL_CHECKSUM_OFFSET checksum))))))))"

definition control_decode :: "crc_fn \<Rightarrow> byte list \<Rightarrow> control_file result" where
  "control_decode crc bytes =
     (if length bytes \<noteq> CONTROL_LEN then Err (BufferTooSmall CONTROL_LEN (length bytes)) else
      rbind (read_u32 bytes 0) (\<lambda>magic.
      if magic \<noteq> CONTROL_MAGIC then Err (InvalidMagic CONTROL_MAGIC magic) else
      rbind (read_u32 bytes 4) (\<lambda>version.
      if version \<noteq> CONTROL_VERSION then Err (UnsupportedVersion (ucast version)) else
      rbind (read_u32 bytes CONTROL_CHECKSUM_OFFSET) (\<lambda>stored.
      rbind (crc32_with_zeroed_field crc bytes CONTROL_CHECKSUM_OFFSET) (\<lambda>actual.
      if stored \<noteq> actual then Err InvalidChecksum else
      rbind (read_u64 bytes 16) (\<lambda>generation.
      rbind (read_u64 bytes 24) (\<lambda>checkpoint_lsn.
      rbind (read_u64 bytes 32) (\<lambda>page_count.
      Ok \<lparr>cf_generation = generation, cf_checkpoint_lsn = checkpoint_lsn, cf_page_count = page_count\<rparr>))))))))"

definition read_named :: "crc_fn \<Rightarrow> string \<Rightarrow> dir_files \<Rightarrow> control_file option result" where
  "read_named crc name dir =
     (case dir name of None \<Rightarrow> Ok None | Some bytes \<Rightarrow> rbind (control_decode crc bytes) (\<lambda>c. Ok (Some c)))"

definition load_latest :: "crc_fn \<Rightarrow> dir_files \<Rightarrow> control_file option result" where
  "load_latest crc dir =
     (case (read_named crc CONTROL_A dir, read_named crc CONTROL_B dir) of
        (Panic, _) \<Rightarrow> Panic
      | (_, Panic) \<Rightarrow> Panic
      | (Ok (Some a), Ok (Some b)) \<Rightarrow> Ok (Some (if cf_generation a \<ge> cf_generation b then a else b))
      | (Ok (Some a), _) \<Rightarrow> Ok (Some a)
      | (_, Ok (Some b)) \<Rightarrow> Ok (Some b)
      | (Ok None, Ok None) \<Rightarrow> Ok None
      | (Err left, Err right) \<Rightarrow> Err left
      | _ \<Rightarrow> Ok None)"

definition control_name :: "u64 \<Rightarrow> string" where
  "control_name generation = (if generation mod 2 = 0 then CONTROL_B else CONTROL_A)"

definition control_next :: "control_file option \<Rightarrow> lsn \<Rightarrow> u64 \<Rightarrow> control_file" where
  "control_next previous checkpoint_lsn page_count =
     \<lparr>cf_generation = (case previous of Some c \<Rightarrow> cf_generation c + 1 | None \<Rightarrow> 1),
      cf_checkpoint_lsn = checkpoint_lsn, cf_page_count = page_count\<rparr>"

definition write_named :: "crc_fn \<Rightarrow> string \<Rightarrow> control_file \<Rightarrow> dir_files \<Rightarrow> dir_files result" where
  "write_named crc name control dir = rbind (control_encode crc control) (\<lambda>bytes. Ok (dir(name \<mapsto> bytes)))"

definition write_next ::
    "crc_fn \<Rightarrow> control_file option \<Rightarrow> lsn \<Rightarrow> u64 \<Rightarrow> dir_files \<Rightarrow> (control_file \<times> dir_files) result" where
  "write_next crc previous checkpoint_lsn page_count dir =
     (let next = control_next previous checkpoint_lsn page_count in
      rbind (write_named crc (control_name (cf_generation next)) next dir) (\<lambda>dir. Ok (next, dir)))"

section \<open>Saved transaction outcomes\<close>

definition TX_STATUS_MAGIC :: u32 where "TX_STATUS_MAGIC = 0x52445458"
definition TX_STATUS_VERSION :: u32 where "TX_STATUS_VERSION = 2"

abbreviation TX_STATUS_HEADER_LEN :: nat where "TX_STATUS_HEADER_LEN \<equiv> 56"
abbreviation TX_STATUS_ENTRY_LEN :: nat where "TX_STATUS_ENTRY_LEN \<equiv> 16"

record tx_status_checkpoint =
  tc_generation :: u64
  tc_next_tx :: tx_id
  tc_next_csn :: csn
  tc_published_csn :: csn
  tc_entries :: "(tx_id \<times> csn) list"

fun write_entries :: "(tx_id \<times> csn) list \<Rightarrow> nat \<Rightarrow> byte list \<Rightarrow> byte list result" where
  "write_entries [] offset out = Ok out"
| "write_entries ((tx, csn) # es) offset out =
     rbind (write_u64 out offset tx) (\<lambda>out.
     rbind (write_u64 out (offset + 8) csn) (\<lambda>out.
     write_entries es (offset + TX_STATUS_ENTRY_LEN) out))"

text \<open>
  The entries are sorted by transaction with an unstable sort. Transactions are distinct in the
  tables that are saved, and then the sorted list is unique.
\<close>

definition tx_status_encode :: "crc_fn \<Rightarrow> tx_status_checkpoint \<Rightarrow> byte list result" where
  "tx_status_encode crc c =
     (if length (tc_entries c) > 4294967295 then Err (CorruptPage ''tx status checkpoint too large'') else
      rbind (ok_or (CorruptPage ''tx status checkpoint length overflow'')
               (checked_add_usize TX_STATUS_HEADER_LEN (length (tc_entries c) * TX_STATUS_ENTRY_LEN))) (\<lambda>len.
      rbind (write_u32 (replicate len 0) 0 TX_STATUS_MAGIC) (\<lambda>out.
      rbind (write_u32 out 4 TX_STATUS_VERSION) (\<lambda>out.
      rbind (write_u32 out CONTROL_CHECKSUM_OFFSET 0) (\<lambda>out.
      rbind (write_u32 out 12 (word_of_nat (length (tc_entries c)))) (\<lambda>out.
      rbind (write_u64 out 16 (tc_generation c)) (\<lambda>out.
      rbind (write_u64 out 24 (tc_next_tx c)) (\<lambda>out.
      rbind (write_u64 out 32 (tc_next_csn c)) (\<lambda>out.
      rbind (write_u64 out 40 (tc_published_csn c)) (\<lambda>out.
      rbind (write_u64 out 48 0) (\<lambda>out.
      rbind (write_entries (sort_key fst (tc_entries c)) TX_STATUS_HEADER_LEN out) (\<lambda>out.
      rbind (crc32_with_zeroed_field crc out CONTROL_CHECKSUM_OFFSET) (\<lambda>checksum.
      write_u32 out CONTROL_CHECKSUM_OFFSET checksum)))))))))))))"

fun read_entries :: "nat \<Rightarrow> nat \<Rightarrow> byte list \<Rightarrow> (tx_id \<times> csn) list result" where
  "read_entries 0 offset bytes = Ok []"
| "read_entries (Suc n) offset bytes =
     rbind (read_u64 bytes offset) (\<lambda>tx.
     rbind (read_u64 bytes (offset + 8)) (\<lambda>csn.
     rbind (read_entries n (offset + TX_STATUS_ENTRY_LEN) bytes) (\<lambda>es. Ok ((tx, csn) # es))))"

definition tx_status_decode :: "crc_fn \<Rightarrow> byte list \<Rightarrow> tx_status_checkpoint result" where
  "tx_status_decode crc bytes =
     (if length bytes < TX_STATUS_HEADER_LEN then Err (BufferTooSmall TX_STATUS_HEADER_LEN (length bytes)) else
      rbind (read_u32 bytes 0) (\<lambda>magic.
      if magic \<noteq> TX_STATUS_MAGIC then Err (InvalidMagic TX_STATUS_MAGIC magic) else
      rbind (read_u32 bytes 4) (\<lambda>version.
      if version \<noteq> TX_STATUS_VERSION then Err (UnsupportedVersion (ucast version)) else
      rbind (read_u32 bytes 12) (\<lambda>entry_count.
      rbind (ok_or (CorruptPage ''tx status checkpoint length overflow'')
               (checked_add_usize TX_STATUS_HEADER_LEN (unat entry_count * TX_STATUS_ENTRY_LEN))) (\<lambda>needed.
      if length bytes \<noteq> needed then Err (BufferTooSmall needed (length bytes)) else
      rbind (read_u32 bytes CONTROL_CHECKSUM_OFFSET) (\<lambda>stored.
      rbind (crc32_with_zeroed_field crc bytes CONTROL_CHECKSUM_OFFSET) (\<lambda>actual.
      if stored \<noteq> actual then Err InvalidChecksum else
      rbind (vec_with_capacity TX_STATUS_ENTRY_LEN (unat entry_count)) (\<lambda>_.
      rbind (read_entries (unat entry_count) TX_STATUS_HEADER_LEN bytes) (\<lambda>entries.
      rbind (read_u64 bytes 16) (\<lambda>generation.
      rbind (read_u64 bytes 24) (\<lambda>next_tx.
      rbind (read_u64 bytes 32) (\<lambda>next_csn.
      rbind (read_u64 bytes 40) (\<lambda>published_csn.
      Ok \<lparr>tc_generation = generation, tc_next_tx = next_tx, tc_next_csn = next_csn,
          tc_published_csn = published_csn, tc_entries = entries\<rparr>)))))))))))))"

definition path_for_generation :: "u64 \<Rightarrow> string" where
  "path_for_generation generation = ''TX_STATUS_'' @ pad_zeros 20 (print_u64 generation)"

definition tx_status_load :: "crc_fn \<Rightarrow> u64 \<Rightarrow> dir_files \<Rightarrow> tx_status_checkpoint result" where
  "tx_status_load crc generation dir =
     (case dir (path_for_generation generation) of None \<Rightarrow> Err (Io ''NotFound'') | Some bytes \<Rightarrow> tx_status_decode crc bytes)"

definition tx_status_write :: "crc_fn \<Rightarrow> tx_status_checkpoint \<Rightarrow> dir_files \<Rightarrow> dir_files result" where
  "tx_status_write crc c dir =
     rbind (tx_status_encode crc c) (\<lambda>bytes. Ok (dir(path_for_generation (tc_generation c) \<mapsto> bytes)))"

section \<open>Byte images\<close>

definition control_header :: "u32 \<Rightarrow> control_file \<Rightarrow> byte list" where
  "control_header k c =
     to_le_bytes CONTROL_MAGIC @ to_le_bytes CONTROL_VERSION @ to_le_bytes k @ to_le_bytes (0 :: u32) @
     to_le_bytes (cf_generation c) @ to_le_bytes (cf_checkpoint_lsn c) @ to_le_bytes (cf_page_count c) @
     replicate 24 0"

definition control_image :: "crc_fn \<Rightarrow> control_file \<Rightarrow> byte list" where
  "control_image crc c = control_header (crc (control_header 0 c)) c"

lemma length_control_header [simp]: "length (control_header k c) = 64"
  by (simp add: control_header_def)

lemma control_checksum [simp]:
  "crc32_with_zeroed_field crc (control_header k c) 8 = Ok (crc (control_header 0 c))"
  by (simp add: crc32_with_zeroed_field_in) (simp add: control_header_def to_le_zero_u32)

lemma control_set_checksum: "overwrite (control_header k c) 8 (to_le_bytes (k' :: u32)) = control_header k' c"
  by (simp add: overwrite_in control_header_def)

lemma usize_64: "(64 :: nat) < usize_bound"
  by (simp add: usize_bound_def)

lemma control_encode_Ok: "control_encode crc c = Ok (control_image crc c)"
proof -
  define b :: "byte list" where "b = replicate 64 0"
  have len: "length b = 64" by (simp add: b_def)
  let ?img = "(((((((([] @ to_le_bytes CONTROL_MAGIC) @ to_le_bytes CONTROL_VERSION) @ to_le_bytes (0 :: u32)) @
     to_le_bytes (0 :: u32)) @ to_le_bytes (cf_generation c)) @ to_le_bytes (cf_checkpoint_lsn c)) @
     to_le_bytes (cf_page_count c))) @ drop 40 b"
  have img: "?img = control_header 0 c" by (simp add: control_header_def b_def)
  have enc: "control_encode crc c = rbind (crc32_with_zeroed_field crc ?img 8) (write_u32 ?img 8)"
    unfolding control_encode_def b_def [symmetric]
    apply (subst append_Nil [of b, symmetric])
    using len usize_64
    by (simp add: write_u32_in write_u64_in overwrite_next del: append_assoc append_Nil append.simps)
  show ?thesis
    using usize_64 unfolding enc img by (simp add: write_u32_in control_set_checksum control_image_def)
qed

lemma control_slices:
  "bslice (control_header k c) 0 4 = to_le_bytes CONTROL_MAGIC"
  "bslice (control_header k c) 4 4 = to_le_bytes CONTROL_VERSION"
  "bslice (control_header k c) 8 4 = to_le_bytes k"
  "bslice (control_header k c) 16 8 = to_le_bytes (cf_generation c)"
  "bslice (control_header k c) 24 8 = to_le_bytes (cf_checkpoint_lsn c)"
  "bslice (control_header k c) 32 8 = to_le_bytes (cf_page_count c)"
  by (simp_all add: control_header_def bslice_def)

lemma control_decode_image [simp]: "control_decode crc (control_image crc c) = Ok c"
  using usize_64 by (simp add: control_decode_def control_image_def read_u32_in read_u64_in control_slices)

interpretation control_codec: byte_codec "control_encode crc" "control_decode crc" "\<lambda>_. True" for crc
  by unfold_locales (auto simp: control_encode_Ok)

definition entries_image :: "(tx_id \<times> csn) list \<Rightarrow> byte list" where
  "entries_image es = concat (map (\<lambda>(tx, csn). to_le_bytes tx @ to_le_bytes csn) es)"

lemma entries_image_simps [simp]:
  "entries_image [] = []"
  "entries_image ((tx, csn) # es) = to_le_bytes tx @ to_le_bytes csn @ entries_image es"
  by (simp_all add: entries_image_def)

lemma length_entries_image [simp]: "length (entries_image es) = 16 * length es"
  by (induction es) auto

lemma write_entries_Ok:
  assumes "length zs = 16 * length es" and "length pre + length zs < usize_bound"
  shows "write_entries es (length pre) (pre @ zs) = Ok (pre @ entries_image es)"
  using assms
proof (induction es arbitrary: pre zs)
  case (Cons e es)
  obtain tx csn where e: "e = (tx, csn)" by fastforce
  let ?pre = "pre @ to_le_bytes tx @ to_le_bytes csn"
  have "write_entries es (length ?pre) (?pre @ drop 16 zs) = Ok (?pre @ entries_image es)"
    using Cons.prems by (intro Cons.IH) simp_all
  then show ?case
    using Cons.prems by (simp add: e write_u64_in overwrite_def bslice_def add.commute)
qed simp

lemma read_entries_Ok:
  assumes "length pre + 16 * length es < usize_bound"
  shows "read_entries (length es) (length pre) (pre @ entries_image es) = Ok es"
  using assms
proof (induction es arbitrary: pre)
  case (Cons e es)
  obtain tx csn where e: "e = (tx, csn)" by fastforce
  let ?pre = "pre @ to_le_bytes tx @ to_le_bytes csn"
  have "read_entries (length es) (length ?pre) (?pre @ entries_image es) = Ok es"
    using Cons.prems by (intro Cons.IH) simp
  then show ?case
    using Cons.prems by (simp add: e read_u64_in bslice_def)
qed simp

definition tx_status_header :: "u32 \<Rightarrow> tx_status_checkpoint \<Rightarrow> byte list" where
  "tx_status_header k c =
     to_le_bytes TX_STATUS_MAGIC @ to_le_bytes TX_STATUS_VERSION @ to_le_bytes k @
     to_le_bytes (word_of_nat (length (tc_entries c)) :: u32) @
     to_le_bytes (tc_generation c) @ to_le_bytes (tc_next_tx c) @ to_le_bytes (tc_next_csn c) @
     to_le_bytes (tc_published_csn c) @ to_le_bytes (0 :: u64)"

definition sorted_entries :: "tx_status_checkpoint \<Rightarrow> tx_status_checkpoint" where
  "sorted_entries c = c\<lparr>tc_entries := sort_key fst (tc_entries c)\<rparr>"

definition tx_status_image :: "crc_fn \<Rightarrow> tx_status_checkpoint \<Rightarrow> byte list" where
  "tx_status_image crc c =
     (let body = entries_image (sort_key fst (tc_entries c))
      in tx_status_header (crc (tx_status_header 0 c @ body)) c @ body)"

lemma length_tx_status_header [simp]: "length (tx_status_header k c) = 56"
  by (simp add: tx_status_header_def)

lemma tx_status_header_zeroed:
  "take 8 (tx_status_header k c) @ [0, 0, 0, 0] @ drop 12 (tx_status_header k c) = tx_status_header 0 c"
  by (simp add: tx_status_header_def to_le_zero_u32)

lemma tx_status_checksum:
  "crc32_with_zeroed_field crc (tx_status_header k c @ body) 8 = Ok (crc (tx_status_header 0 c @ body))"
  using arg_cong [OF tx_status_header_zeroed [of k c], of "\<lambda>h. crc (h @ body)"]
  by (simp add: crc32_with_zeroed_field_in)

lemma tx_status_set_checksum:
  "overwrite (tx_status_header k c @ body) 8 (to_le_bytes (k' :: u32)) = tx_status_header k' c @ body"
  by (simp add: overwrite_in tx_status_header_def)

lemma tx_status_encode_Ok:
  assumes fits: "length (tc_entries c) \<le> 4294967295"
  shows "tx_status_encode crc c = Ok (tx_status_image crc c)"
proof -
  let ?m = "length (tc_entries c) * 16" let ?n = "56 + ?m" let ?es = "sort_key fst (tc_entries c)"
  have ub: "?n < usize_bound" using fits by (simp add: usize_bound_def)
  define b :: "byte list" where "b = replicate ?n 0"
  have len: "length b = ?n" by (simp add: b_def)
  let ?img = "((((((((([] @ to_le_bytes TX_STATUS_MAGIC) @ to_le_bytes TX_STATUS_VERSION) @ to_le_bytes (0 :: u32)) @
     to_le_bytes (word_of_nat (length (tc_entries c)) :: u32)) @ to_le_bytes (tc_generation c)) @
     to_le_bytes (tc_next_tx c)) @ to_le_bytes (tc_next_csn c)) @ to_le_bytes (tc_published_csn c)) @
     to_le_bytes (0 :: u64)) @ drop 56 b"
  have img: "?img = tx_status_header 0 c @ drop 56 b" by (simp add: tx_status_header_def)
  have enc: "tx_status_encode crc c = rbind (write_entries ?es 56 ?img) (\<lambda>out.
      rbind (crc32_with_zeroed_field crc out 8) (write_u32 out 8))"
    unfolding tx_status_encode_def using fits ub
    apply (simp add: checked_add_usize_def b_def [symmetric] del: replicate_add)
    apply (subst append_Nil [of b, symmetric])
    using len by (simp add: write_u32_in write_u64_in overwrite_next del: append_assoc append_Nil append.simps) simp
  have "write_entries ?es 56 (tx_status_header 0 c @ drop 56 b) = Ok (tx_status_header 0 c @ entries_image ?es)"
    using write_entries_Ok [of "drop 56 b" ?es "tx_status_header 0 c"] len ub by simp
  then show ?thesis
    using ub unfolding enc img
    by (simp add: tx_status_checksum write_u32_in tx_status_set_checksum tx_status_image_def Let_def)
qed

lemma tx_status_slices:
  "bslice (tx_status_header k c) 0 4 = to_le_bytes TX_STATUS_MAGIC"
  "bslice (tx_status_header k c) 4 4 = to_le_bytes TX_STATUS_VERSION"
  "bslice (tx_status_header k c) 8 4 = to_le_bytes k"
  "bslice (tx_status_header k c) 12 4 = to_le_bytes (word_of_nat (length (tc_entries c)) :: u32)"
  "bslice (tx_status_header k c) 16 8 = to_le_bytes (tc_generation c)"
  "bslice (tx_status_header k c) 24 8 = to_le_bytes (tc_next_tx c)"
  "bslice (tx_status_header k c) 32 8 = to_le_bytes (tc_next_csn c)"
  "bslice (tx_status_header k c) 40 8 = to_le_bytes (tc_published_csn c)"
  by (simp_all add: tx_status_header_def bslice_def)

lemma tx_status_decode_image:
  assumes fits: "length (tc_entries c) \<le> 4294967295"
  shows "tx_status_decode crc (tx_status_image crc c) = Ok (sorted_entries c)"
proof -
  let ?es = "sort_key fst (tc_entries c)"
  have ub: "56 + 16 * length (tc_entries c) < usize_bound" using fits by (simp add: usize_bound_def)
  have cnt: "unat (word_of_nat (length (tc_entries c)) :: u32) = length ?es"
    using fits by (simp add: unat_u32_of_nat)
  have rd: "read_entries (length ?es) 56 (tx_status_header k c @ entries_image ?es) = Ok ?es" for k
    using read_entries_Ok [of "tx_status_header k c" ?es] ub by simp
  have cap: "vec_with_capacity 16 (length ?es) = Ok ()"
    using fits by (simp add: vec_with_capacity_def isize_max_def)
  show ?thesis
    using ub rd cap
    by (simp add: tx_status_decode_def tx_status_image_def Let_def read_u32_in read_u64_in bslice_append_left
        tx_status_slices cnt [simplified] checked_add_usize_def tx_status_checksum sorted_entries_def mult.commute)
qed

interpretation tx_status_codec: byte_codec "tx_status_encode crc" "tx_status_decode crc"
  "\<lambda>c. length (tc_entries c) \<le> 4294967295 \<and> sorted (map fst (tc_entries c))" for crc
  by unfold_locales
    (auto simp: tx_status_encode_Ok tx_status_decode_image sorted_entries_def sorted_sort_id sort_key_id_if_sorted)

section \<open>Histories of checkpoints\<close>

text \<open>
  A checkpoint saves the table of outcomes under the next generation and then writes the control
  file of that generation. A crash may interrupt either write. The first argument after the
  directory is the last checkpoint whose control file was completed, with its table; the second is
  the table that the running checkpoint has saved. An interrupted table may hold any bytes. An
  interrupted control file holds bytes that its decoder rejects: \<open>control_rejects_partial\<close> shows
  this of every proper prefix and of a file of zeros, for every checksum function. Generations do
  not reach the end of their type.
\<close>

definition rejected :: "crc_fn \<Rightarrow> byte list \<Rightarrow> bool" where
  "rejected crc bytes \<longleftrightarrow> (case control_decode crc bytes of Err _ \<Rightarrow> True | _ \<Rightarrow> False)"

definition next_generation :: "(control_file \<times> tx_status_checkpoint) option \<Rightarrow> u64" where
  "next_generation latest = cf_generation (control_next (map_option fst latest) 0 0)"

definition generation_left :: "(control_file \<times> tx_status_checkpoint) option \<Rightarrow> bool" where
  "generation_left latest \<longleftrightarrow> (case latest of Some (c, _) \<Rightarrow> cf_generation c \<noteq> - 1 | None \<Rightarrow> True)"

inductive checkpoint_reach ::
    "crc_fn \<Rightarrow> dir_files \<Rightarrow> (control_file \<times> tx_status_checkpoint) option \<Rightarrow> tx_status_checkpoint option \<Rightarrow> bool"
  for crc where
  fresh: "checkpoint_reach crc Map.empty None None"
| save: "checkpoint_reach crc dir latest p \<Longrightarrow> generation_left latest \<Longrightarrow> tc_generation t = next_generation latest \<Longrightarrow>
     distinct (map fst (tc_entries t)) \<Longrightarrow> tx_status_write crc t dir = Ok dir' \<Longrightarrow>
     checkpoint_reach crc dir' latest (Some t)"
| torn_save: "checkpoint_reach crc dir latest p \<Longrightarrow> generation_left latest \<Longrightarrow>
     checkpoint_reach crc (dir(path_for_generation (next_generation latest) \<mapsto> x)) latest None"
| commit: "checkpoint_reach crc dir latest (Some t) \<Longrightarrow>
     write_next crc (map_option fst latest) checkpoint_lsn page_count dir = Ok (c, dir') \<Longrightarrow>
     checkpoint_reach crc dir' (Some (c, t)) None"
| torn_commit: "checkpoint_reach crc dir latest (Some t) \<Longrightarrow> rejected crc x \<Longrightarrow>
     checkpoint_reach crc (dir(control_name (next_generation latest) \<mapsto> x)) latest None"
| restart: "checkpoint_reach crc dir latest p \<Longrightarrow> checkpoint_reach crc dir latest None"

lemma control_rejects_partial:
  "n < 64 \<Longrightarrow> rejected crc (take n (control_image crc c))"
  "rejected crc (replicate 64 0)"
proof -
  show "n < 64 \<Longrightarrow> rejected crc (take n (control_image crc c))"
    by (simp add: rejected_def control_decode_def control_image_def)
  have "from_le_bytes (replicate 4 0) = (0 :: u32)" by code_simp
  then have "read_u32 (replicate 64 0) 0 = Ok 0"
    using usize_64 by (simp add: read_u32_in bslice_def)
  then show "rejected crc (replicate 64 0)"
    by (simp add: rejected_def control_decode_def CONTROL_MAGIC_def)
qed

lemma path_inj [simp]: "path_for_generation a = path_for_generation b \<longleftrightarrow> a = b"
proof -
  have "path_for_generation g = ''TX_STATUS_'' @ format_segment_label g" for g
    by (simp add: path_for_generation_def print_u64_def format_segment_label_def)
  moreover have "parse_numbered_name [] (format_segment_label g) = Some g" for g
    by (simp add: parse_numbered_name_iff)
  then have "format_segment_label a = format_segment_label b \<longleftrightarrow> a = b" by (metis option.inject)
  ultimately show ?thesis by simp
qed

lemma path_not_control [simp]:
  "path_for_generation g \<noteq> control_name h" "control_name h \<noteq> path_for_generation g"
  "path_for_generation g \<noteq> CONTROL_A" "path_for_generation g \<noteq> CONTROL_B"
  "CONTROL_A \<noteq> path_for_generation g" "CONTROL_B \<noteq> path_for_generation g"
  by (auto simp: path_for_generation_def control_name_def CONTROL_A_def CONTROL_B_def)

definition other_name :: "u64 \<Rightarrow> string" where
  "other_name g = (if g mod 2 = 0 then CONTROL_A else CONTROL_B)"

lemma control_names [simp]: "CONTROL_A \<noteq> CONTROL_B" "CONTROL_B \<noteq> CONTROL_A" "other_name g \<noteq> control_name g" "control_name g \<noteq> other_name g"
  by (auto simp: other_name_def control_name_def CONTROL_A_def CONTROL_B_def)

lemma control_name_succ: "control_name (g + 1) = other_name g" "other_name (g + 1) = control_name g"
proof -
  have "(g + 1) mod 2 = 0 \<longleftrightarrow> g mod 2 \<noteq> 0"
    by (metis even_plus_one_iff even_iff_mod_2_eq_zero)
  then show "control_name (g + 1) = other_name g" "other_name (g + 1) = control_name g"
    by (auto simp: control_name_def other_name_def)
qed

definition table_saved :: "crc_fn \<Rightarrow> dir_files \<Rightarrow> u64 \<Rightarrow> tx_status_checkpoint \<Rightarrow> bool" where
  "table_saved crc dir g t \<longleftrightarrow>
     dir (path_for_generation g) = Some (tx_status_image crc t) \<and> length (tc_entries t) \<le> 4294967295"

definition slots_inv :: "crc_fn \<Rightarrow> dir_files \<Rightarrow> control_file option \<Rightarrow> bool" where
  "slots_inv crc dir latest \<longleftrightarrow>
     (case latest of
        None \<Rightarrow> dir CONTROL_B = None \<and> (\<forall>x. dir CONTROL_A = Some x \<longrightarrow> rejected crc x)
      | Some c \<Rightarrow> dir (control_name (cf_generation c)) = Some (control_image crc c) \<and>
          (\<forall>x. dir (other_name (cf_generation c)) = Some x \<longrightarrow>
             rejected crc x \<or> (\<exists>d. x = control_image crc d \<and> cf_generation d < cf_generation c)))"

definition checkpoint_inv ::
    "crc_fn \<Rightarrow> dir_files \<Rightarrow> (control_file \<times> tx_status_checkpoint) option \<Rightarrow> tx_status_checkpoint option \<Rightarrow> bool" where
  "checkpoint_inv crc dir latest p \<longleftrightarrow>
     slots_inv crc dir (map_option fst latest) \<and>
     (\<forall>c t. latest = Some (c, t) \<longrightarrow> table_saved crc dir (cf_generation c) t) \<and>
     (\<forall>t. p = Some t \<longrightarrow> generation_left latest \<and> table_saved crc dir (next_generation latest) t)"

lemma write_next_eq:
  "write_next crc latest l n dir =
     Ok (control_next latest l n, dir(control_name (cf_generation (control_next latest l n)) \<mapsto>
       control_image crc (control_next latest l n)))"
  by (simp add: write_next_def write_named_def control_encode_Ok Let_def)

lemma control_next_generation: "cf_generation (control_next (map_option fst latest) l n) = next_generation latest"
  by (simp add: next_generation_def control_next_def)

lemma next_generation_simps [simp]:
  "next_generation None = 1" "next_generation (Some (c, t)) = cf_generation c + 1"
  by (simp_all add: next_generation_def control_next_def)

lemma control_name_one: "control_name 1 = CONTROL_A" "other_name 1 = CONTROL_B"
proof -
  have "(1 :: u64) mod 2 \<noteq> 0" by code_simp
  then show "control_name 1 = CONTROL_A" "other_name 1 = CONTROL_B"
    by (simp_all add: control_name_def other_name_def)
qed

lemma slots_inv_table [simp]: "slots_inv crc (dir(path_for_generation g \<mapsto> x)) latest = slots_inv crc dir latest"
proof -
  have "other_name h \<noteq> path_for_generation g" for h by (simp add: other_name_def)
  then show ?thesis by (simp add: slots_inv_def split: option.splits)
qed

lemma table_saved_control [simp]: "table_saved crc (dir(control_name h \<mapsto> x)) g t = table_saved crc dir g t"
  by (simp add: table_saved_def)

lemma succ_generation:
  assumes "g \<noteq> (- 1 :: u64)" shows "g < g + 1" and "g + 1 \<noteq> g"
  using assms by (simp_all add: word_less_nat_alt) (metis less_add_one unatSuc unat_1 add.commute Suc_eq_plus1 lessI add_eq_0_iff)

lemma slots_inv_write:
  assumes "slots_inv crc dir (map_option fst latest)" and "generation_left latest"
    and "cf_generation c = next_generation latest"
  shows "slots_inv crc (dir(control_name (cf_generation c) \<mapsto> control_image crc c)) (Some c)"
  using assms
  by (cases latest)
    (auto simp: slots_inv_def control_name_one control_name_succ generation_left_def succ_generation)

lemma slots_inv_torn:
  assumes "slots_inv crc dir (map_option fst latest)" and "rejected crc x"
  shows "slots_inv crc (dir(control_name (next_generation latest) \<mapsto> x)) (map_option fst latest)"
  using assms by (cases latest) (auto simp: slots_inv_def control_name_one control_name_succ)

lemma read_named_simps:
  "dir n = None \<Longrightarrow> read_named crc n dir = Ok None"
  "dir n = Some (control_image crc c) \<Longrightarrow> read_named crc n dir = Ok (Some c)"
  "dir n = Some x \<Longrightarrow> rejected crc x \<Longrightarrow> \<exists>e. read_named crc n dir = Err e"
  by (auto simp: read_named_def rejected_def split: result.splits)

lemma slots_inv_load:
  assumes "slots_inv crc dir latest" shows "load_latest crc dir = Ok latest"
proof (cases latest)
  case None
  then have b: "dir CONTROL_B = None" and a: "\<And>x. dir CONTROL_A = Some x \<Longrightarrow> rejected crc x"
    using assms by (auto simp: slots_inv_def)
  show ?thesis
    using read_named_simps(1) [of dir CONTROL_B crc, OF b] read_named_simps(1,3) [of dir CONTROL_A] a None
    by (cases "dir CONTROL_A") (force simp: load_latest_def)+
next
  case (Some c)
  let ?g = "cf_generation c"
  have own: "read_named crc (control_name ?g) dir = Ok (Some c)"
    using assms Some by (intro read_named_simps(2)) (simp add: slots_inv_def)
  have other: "read_named crc (other_name ?g) dir = Ok None \<or> (\<exists>e. read_named crc (other_name ?g) dir = Err e) \<or>
      (\<exists>d. read_named crc (other_name ?g) dir = Ok (Some d) \<and> cf_generation d < ?g)"
    using assms Some read_named_simps [of dir "other_name ?g"]
    by (cases "dir (other_name ?g)") (auto simp: slots_inv_def)
  show ?thesis
    using own other Some
    by (cases "?g mod 2 = 0") (auto simp: control_name_def other_name_def load_latest_def)
qed

lemma tx_status_write_Ok:
  "tx_status_write crc t dir = Ok dir' \<longleftrightarrow> length (tc_entries t) \<le> 4294967295 \<and>
     dir' = dir(path_for_generation (tc_generation t) \<mapsto> tx_status_image crc t)"
proof (cases "length (tc_entries t) \<le> 4294967295")
  case True
  then show ?thesis by (auto simp: tx_status_write_def tx_status_encode_Ok)
next
  case False
  then show ?thesis by (simp add: tx_status_write_def tx_status_encode_def)
qed

lemma latest_table_kept:
  assumes "generation_left (Some (c, t))"
  shows "table_saved crc (dir(path_for_generation (cf_generation c + 1) \<mapsto> x)) (cf_generation c) t =
    table_saved crc dir (cf_generation c) t"
  using assms succ_generation(2) [of "cf_generation c"] by (auto simp: table_saved_def generation_left_def)

lemma checkpoint_inv_table:
  assumes "checkpoint_inv crc dir latest p" and "generation_left latest"
  shows "checkpoint_inv crc (dir(path_for_generation (next_generation latest) \<mapsto> x)) latest None"
proof (cases latest)
  case None
  with assms show ?thesis by (simp add: checkpoint_inv_def del: fun_upd_apply)
next
  case (Some ct)
  obtain c t where "ct = (c, t)" by fastforce
  with assms Some show ?thesis by (simp add: checkpoint_inv_def latest_table_kept del: fun_upd_apply)
qed

lemma checkpoint_reach_inv: "checkpoint_reach crc dir latest p \<Longrightarrow> checkpoint_inv crc dir latest p"
proof (induction rule: checkpoint_reach.induct)
  case fresh
  then show ?case by (simp add: checkpoint_inv_def slots_inv_def)
next
  case (save dir latest p t dir')
  then have dir': "dir' = dir(path_for_generation (next_generation latest) \<mapsto> tx_status_image crc t)"
    and "length (tc_entries t) \<le> 4294967295"
    by (simp_all add: tx_status_write_Ok)
  then have "table_saved crc dir' (next_generation latest) t" by (simp add: table_saved_def)
  moreover have "checkpoint_inv crc dir' latest None"
    using save dir' by (simp add: checkpoint_inv_table del: fun_upd_apply)
  ultimately show ?case using save by (simp add: checkpoint_inv_def)
next
  case (torn_save dir latest p x)
  then show ?case by (simp add: checkpoint_inv_table del: fun_upd_apply)
next
  case (commit dir latest t l n c dir')
  then have c: "c = control_next (map_option fst latest) l n"
    and dir': "dir' = dir(control_name (cf_generation c) \<mapsto> control_image crc c)"
    by (auto simp: write_next_eq)
  then have "slots_inv crc dir' (Some c)"
    using commit slots_inv_write [of crc dir latest c] by (simp add: checkpoint_inv_def control_next_generation)
  moreover have "table_saved crc dir' (cf_generation c) t"
    using commit c dir' by (simp add: checkpoint_inv_def control_next_generation del: fun_upd_apply)
  ultimately show ?case by (simp add: checkpoint_inv_def)
next
  case (torn_commit dir latest t x)
  then show ?case by (simp add: checkpoint_inv_def slots_inv_torn del: fun_upd_apply)
next
  case (restart dir latest p)
  then show ?case by (simp add: checkpoint_inv_def)
qed

text \<open>
  C2. After every history of checkpoints, each completed or cut short by a crash in either of its
  two writes, the control store loads exactly the last checkpoint whose control file was completed,
  and the table of transaction outcomes of that generation is there and loads with its entries in
  transaction order. An interrupted checkpoint is never loaded, and a completed one is never lost.
\<close>

theorem checkpoint_survives_crash:
  assumes "checkpoint_reach crc dir latest p"
  shows "load_latest crc dir = Ok (map_option fst latest) \<and>
    (case latest of None \<Rightarrow> True
     | Some (c, t) \<Rightarrow> tx_status_load crc (cf_generation c) dir = Ok (sorted_entries t))"
proof -
  have inv: "checkpoint_inv crc dir latest p" using assms by (rule checkpoint_reach_inv)
  then have "load_latest crc dir = Ok (map_option fst latest)"
    by (simp add: checkpoint_inv_def slots_inv_load)
  moreover have "tx_status_load crc (cf_generation c) dir = Ok (sorted_entries t)" if "latest = Some (c, t)" for c t
    using inv that by (simp add: checkpoint_inv_def table_saved_def tx_status_load_def tx_status_decode_image)
  ultimately show ?thesis by (auto split: option.splits)
qed

definition sample_table :: "u64 \<Rightarrow> tx_status_checkpoint" where
  "sample_table g = \<lparr>tc_generation = g, tc_next_tx = 9, tc_next_csn = 5, tc_published_csn = 4,
     tc_entries = [(7, 4), (3, 2)]\<rparr>"

text \<open>A first checkpoint completes; the second saves its table and stops inside the control file.\<close>

theorem checkpoint_survives_crash_witness:
  "\<exists>dir c. checkpoint_reach byte_sum dir (Some (c, sample_table 1)) None \<and> dir CONTROL_B = Some [1, 2, 3] \<and>
     cf_checkpoint_lsn c = 100 \<and> load_latest byte_sum dir = Ok (Some c) \<and>
     tx_status_load byte_sum (cf_generation c) dir = Ok (sorted_entries (sample_table 1))"
proof -
  let ?c = "control_next None 100 8"
  have g: "cf_generation ?c = 1" by (simp add: control_next_def)
  obtain d1 where d1: "tx_status_write byte_sum (sample_table 1) Map.empty = Ok d1"
    by (simp add: tx_status_write_def tx_status_encode_Ok sample_table_def)
  have r1: "checkpoint_reach byte_sum d1 None (Some (sample_table 1))"
    by (rule checkpoint_reach.save [OF checkpoint_reach.fresh _ _ _ d1])
      (simp_all add: generation_left_def sample_table_def)
  obtain d2 where r2: "checkpoint_reach byte_sum d2 (Some (?c, sample_table 1)) None"
    using checkpoint_reach.commit [OF r1, of 100 8 ?c] by (simp add: write_next_eq)
  obtain d3 where d3: "tx_status_write byte_sum (sample_table 2) d2 = Ok d3"
    by (simp add: tx_status_write_def tx_status_encode_Ok sample_table_def)
  have r3: "checkpoint_reach byte_sum d3 (Some (?c, sample_table 1)) (Some (sample_table 2))"
    by (rule checkpoint_reach.save [OF r2 _ _ _ d3]) (simp_all add: generation_left_def sample_table_def g)
  have "control_name (next_generation (Some (?c, sample_table 1))) = CONTROL_B"
    by (simp add: g control_name_succ(1) [of 1, simplified] control_name_one)
  then have r4: "checkpoint_reach byte_sum (d3(CONTROL_B \<mapsto> [1, 2, 3])) (Some (?c, sample_table 1)) None"
    using checkpoint_reach.torn_commit [OF r3, of "[1, 2, 3]"] by (simp add: rejected_def control_decode_def)
  have "cf_checkpoint_lsn ?c = 100" by (simp add: control_next_def)
  then show ?thesis using r4 checkpoint_survives_crash [OF r4]
    by (intro exI [of _ "d3(CONTROL_B \<mapsto> [1, 2, 3])"] exI [of _ ?c]) simp
qed

text \<open>
  A table of outcomes with at most \<^verbatim>\<open>u32::MAX\<close> entries is encoded, and its encoding decodes to
  the same table with the entries in transaction order. Transactions are distinct, so the unstable
  sort of the code has only this result.
\<close>

theorem tx_status_checkpoint_roundtrip:
  assumes "length (tc_entries c) \<le> 4294967295" and "distinct (map fst (tc_entries c))"
  shows "rbind (tx_status_encode crc c) (tx_status_decode crc) = Ok (c\<lparr>tc_entries := sort_key fst (tc_entries c)\<rparr>)"
  using assms(1) by (simp add: tx_status_encode_Ok tx_status_decode_image sorted_entries_def)

theorem tx_status_checkpoint_roundtrip_witness:
  "rbind (tx_status_encode byte_sum (sample_table 6)) (tx_status_decode byte_sum) =
     Ok ((sample_table 6)\<lparr>tc_entries := [(3, 2), (7, 4)]\<rparr>)"
  using tx_status_checkpoint_roundtrip [of "sample_table 6" byte_sum] by (simp add: sample_table_def)

end
