(* ===== verification/Json_Wire.thy ===== *)
theory Json_Wire
  imports Format_Bytes
begin

unbundle bit_operations_syntax

text \<open>
  \<^verbatim>\<open>crates/kernel/src/json/wire/common.rs\<close> and \<^verbatim>\<open>json/wire/iter.rs\<close>: the wire format of binary JSON.
  Variable-length integers, the extent of a node, and the iterators over the children of arrays and
  objects. A slice has at most \<^verbatim>\<open>isize::MAX\<close> bytes, so sums of an offset inside it and a small number do
  not wrap; sums with a length that was read from the bytes may, and wrap as in the release build.
\<close>

section \<open>Constants and kinds\<close>

type_synonym i64 = "64 word"

abbreviation MAGIC :: byte where "MAGIC \<equiv> 0x96"
abbreviation FORMAT_VERSION :: byte where "FORMAT_VERSION \<equiv> 1"
abbreviation PREAMBLE_LEN :: nat where "PREAMBLE_LEN \<equiv> 2"
abbreviation MAX_VARINT_LEN :: nat where "MAX_VARINT_LEN \<equiv> 10"

abbreviation TAG_NULL :: byte where "TAG_NULL \<equiv> 0"
abbreviation TAG_TRUE :: byte where "TAG_TRUE \<equiv> 1"
abbreviation TAG_FALSE :: byte where "TAG_FALSE \<equiv> 2"
abbreviation TAG_INTEGER :: byte where "TAG_INTEGER \<equiv> 3"
abbreviation TAG_REAL :: byte where "TAG_REAL \<equiv> 4"
abbreviation TAG_TEXT :: byte where "TAG_TEXT \<equiv> 5"
abbreviation TAG_ARRAY :: byte where "TAG_ARRAY \<equiv> 6"
abbreviation TAG_OBJECT :: byte where "TAG_OBJECT \<equiv> 7"
abbreviation TAG_BLOB :: byte where "TAG_BLOB \<equiv> 8"
abbreviation TYPE_MASK :: byte where "TYPE_MASK \<equiv> 0x0F"

datatype node_kind = K_Null | K_Bool bool | K_Integer | K_Real | K_Text | K_Array | K_Object | K_Blob

section \<open>Variable-length integers\<close>

function write_varint :: "byte list \<Rightarrow> u64 \<Rightarrow> byte list" where
  "write_varint out v =
     (if v \<ge> 0x80 then write_varint (out @ [ucast v OR 0x80]) (drop_bit 7 v) else out @ [ucast v])"
  by pat_completeness auto
termination
proof (relation "measure (\<lambda>(_, v). unat v)")
  fix out :: "byte list" and v :: u64
  assume "v \<ge> 0x80"
  then have "0 < unat v" by (simp add: word_le_nat_alt)
  then have "unat v div 2 ^ 7 < unat v" by simp
  then show "((out @ [ucast v OR 0x80], drop_bit 7 v), (out, v)) \<in> measure (\<lambda>(_, v). unat v)"
    by (simp add: drop_bit_eq_div unat_div)
qed simp

declare write_varint.simps [simp del]

function read_varint_loop :: "byte list \<Rightarrow> nat \<Rightarrow> u64 \<Rightarrow> nat \<Rightarrow> nat \<Rightarrow> (u64 \<times> nat) result" where
  "read_varint_loop buf offset res shift consumed =
     (if consumed \<ge> MAX_VARINT_LEN then Err (InvalidJsonb ''varint overflow'') else
      case checked_add_usize offset consumed of
        None \<Rightarrow> Err (InvalidJsonb ''varint offset overflow'')
      | Some idx \<Rightarrow>
          if \<not> idx < length buf then Err (InvalidJsonb ''varint truncated'') else
          let b = buf ! idx; chunk = ucast (b AND 0x7F) :: u64 in
          if shift \<ge> 64 \<and> chunk \<noteq> 0 then Err (InvalidJsonb ''varint overflow'') else
          let res' = (if shift < 64 then res OR push_bit shift chunk else res) in
          if b AND 0x80 = 0 then Ok (res', consumed + 1)
          else read_varint_loop buf offset res' (shift + 7) (consumed + 1))"
  by pat_completeness auto
termination by (relation "measure (\<lambda>(_, _, _, _, consumed). MAX_VARINT_LEN - consumed)") auto

declare read_varint_loop.simps [simp del]

definition read_varint :: "byte list \<Rightarrow> nat \<Rightarrow> (u64 \<times> nat) result" where
  "read_varint buf offset = read_varint_loop buf offset 0 0 0"

definition zigzag_encode :: "i64 \<Rightarrow> u64" where
  "zigzag_encode v = push_bit 1 v XOR signed_drop_bit 63 v"

definition zigzag_decode :: "u64 \<Rightarrow> i64" where
  "zigzag_decode v = drop_bit 1 v XOR - (v AND 1)"

section \<open>Nodes\<close>

definition parse_preamble :: "byte list \<Rightarrow> nat result" where
  "parse_preamble buf =
     (if length buf < PREAMBLE_LEN then Err (InvalidJsonb ''preamble truncated'')
      else if buf ! 0 \<noteq> MAGIC then Err (InvalidJsonb ''bad magic'')
      else if buf ! 1 \<noteq> FORMAT_VERSION then Err (InvalidJsonb ''unsupported version'')
      else Ok PREAMBLE_LEN)"

definition read_tag :: "byte list \<Rightarrow> nat \<Rightarrow> byte result" where
  "read_tag buf offset =
     (if offset < length buf then Ok (buf ! offset AND TYPE_MASK) else Err (InvalidJsonb ''tag truncated''))"

definition node_span :: "byte list \<Rightarrow> nat \<Rightarrow> (nat \<times> node_kind) result" where
  "node_span buf offset =
     rbind (read_tag buf offset) (\<lambda>t.
     let body_start = offset + 1 in
     if t = TAG_NULL then Ok (1, K_Null)
     else if t = TAG_TRUE then Ok (1, K_Bool True)
     else if t = TAG_FALSE then Ok (1, K_Bool False)
     else if t = TAG_INTEGER then rbind (read_varint buf body_start) (\<lambda>(_, n). Ok (1 + n, K_Integer))
     else if t = TAG_REAL then
       (if length buf < body_start + 8 then Err (InvalidJsonb ''real truncated'') else Ok (1 + 8, K_Real))
     else if t = TAG_TEXT \<or> t = TAG_BLOB then
       rbind (read_varint buf body_start) (\<lambda>(len, n).
       let total = wrapping_add_usize (1 + n) (unat len) in
       if length buf < wrapping_add_usize offset total then Err (InvalidJsonb ''text/blob truncated'')
       else Ok (total, if t = TAG_TEXT then K_Text else K_Blob))
     else if t = TAG_ARRAY \<or> t = TAG_OBJECT then
       rbind (read_varint buf body_start) (\<lambda>(_, n_count).
       rbind (read_varint buf (body_start + n_count)) (\<lambda>(body_len, n_body_len).
       let total = wrapping_add_usize (1 + n_count + n_body_len) (unat body_len) in
       if length buf < wrapping_add_usize offset total then Err (InvalidJsonb ''composite truncated'')
       else Ok (total, if t = TAG_ARRAY then K_Array else K_Object)))
     else Err (InvalidJsonb ''unknown tag''))"

definition read_bytes_payload :: "byte list \<Rightarrow> nat \<Rightarrow> (byte list \<times> nat) result" where
  "read_bytes_payload buf offset =
     rbind (read_varint buf (offset + 1)) (\<lambda>(len, n).
     let start = offset + 1 + n in
     rbind (ok_or (InvalidJsonb ''text/blob length overflow'') (checked_add_usize start (unat len))) (\<lambda>end'.
     if end' > length buf then Err (InvalidJsonb ''text/blob truncated'')
     else rbind (slice_range buf start end') (\<lambda>bytes. Ok (bytes, end' - offset))))"

section \<open>Iterators\<close>

record node_iter =
  it_cursor :: nat
  it_end :: nat
  it_remaining :: u64

definition object_iter_new :: "byte list \<Rightarrow> nat \<Rightarrow> node_iter result" where
  "object_iter_new buf offset =
     rbind (read_tag buf offset) (\<lambda>t.
     if t \<noteq> TAG_OBJECT then Err (InvalidJsonb ''expected object'') else
     rbind (read_varint buf (offset + 1)) (\<lambda>(count, n_count).
     rbind (read_varint buf (offset + 1 + n_count)) (\<lambda>(body_len, n_body).
     let body_start = offset + 1 + n_count + n_body in
     rbind (ok_or (InvalidJsonb ''composite length overflow'') (checked_add_usize body_start (unat body_len))) (\<lambda>end'.
     if end' > length buf then Err (InvalidJsonb ''composite truncated'')
     else Ok \<lparr>it_cursor = body_start, it_end = end', it_remaining = count\<rparr>))))"

definition array_iter_new :: "byte list \<Rightarrow> nat \<Rightarrow> node_iter result" where
  "array_iter_new buf offset =
     rbind (read_tag buf offset) (\<lambda>t.
     if t \<noteq> TAG_ARRAY then Err (InvalidJsonb ''expected array'') else
     rbind (read_varint buf (offset + 1)) (\<lambda>(count, n_count).
     rbind (read_varint buf (offset + 1 + n_count)) (\<lambda>(body_len, n_body).
     let body_start = offset + 1 + n_count + n_body in
     rbind (ok_or (InvalidJsonb ''composite length overflow'') (checked_add_usize body_start (unat body_len))) (\<lambda>end'.
     if end' > length buf then Err (InvalidJsonb ''composite truncated'')
     else Ok \<lparr>it_cursor = body_start, it_end = end', it_remaining = count\<rparr>))))"

text \<open>A call of \<^verbatim>\<open>next\<close>: no item, or the outcome for an item with the iterator behind it.\<close>

definition object_iter_next ::
    "byte list \<Rightarrow> node_iter \<Rightarrow> ((byte list \<times> nat \<times> nat) \<times> node_iter) result option" where
  "object_iter_next buf it =
     (if it_remaining it = 0 then None else Some (
      if it_cursor it \<ge> it_end it then Err (InvalidJsonb ''object body underflow'') else
      rbind (read_tag buf (it_cursor it)) (\<lambda>key_tag.
      if key_tag \<noteq> TAG_TEXT then Err (InvalidJsonb ''object key not text'') else
      rbind (read_bytes_payload buf (it_cursor it)) (\<lambda>(key_bytes, key_total_len).
      let value_off = it_cursor it + key_total_len in
      rbind (node_span buf value_off) (\<lambda>(value_total, _).
      Ok ((key_bytes, value_off, value_total),
          it\<lparr>it_cursor := wrapping_add_usize value_off value_total, it_remaining := it_remaining it - 1\<rparr>))))))"

definition array_iter_next :: "byte list \<Rightarrow> node_iter \<Rightarrow> ((nat \<times> nat) \<times> node_iter) result option" where
  "array_iter_next buf it =
     (if it_remaining it = 0 then None else Some (
      if it_cursor it \<ge> it_end it then Err (InvalidJsonb ''array body underflow'') else
      let off = it_cursor it in
      rbind (node_span buf off) (\<lambda>(total, _).
      Ok ((off, total), it\<lparr>it_cursor := wrapping_add_usize off total, it_remaining := it_remaining it - 1\<rparr>))))"

section \<open>Round trips of integers\<close>

definition varint :: "u64 \<Rightarrow> byte list" where
  "varint v = write_varint [] v"

lemma write_varint_prefix: "write_varint (pre @ out) v = pre @ write_varint out v"
  by (induction out v rule: write_varint.induct) (subst (1 2) write_varint.simps, simp)

lemma write_varint_append: "write_varint out v = out @ varint v"
  using write_varint_prefix [of out "[]" v] by (simp add: varint_def)

lemma varint_simps:
  "v \<ge> 0x80 \<Longrightarrow> varint v = (ucast v OR 0x80) # varint (drop_bit 7 v)"
  "\<not> v \<ge> 0x80 \<Longrightarrow> varint v = [ucast v]"
  by (simp_all add: varint_def write_varint.simps [of "[]"] write_varint_append [of "[_]"] del: not_le)

lemma bit_0x80: "bit (0x80 :: 'a::len word) n \<longleftrightarrow> n = 7 \<and> 7 < LENGTH('a)"
proof -
  have "(0x80 :: 'a word) = push_bit 7 1" by (simp add: push_bit_eq_mult)
  then have "bit (0x80 :: 'a word) n \<longleftrightarrow> bit (push_bit 7 1 :: 'a word) n" by (rule arg_cong)
  then show ?thesis unfolding bit_push_bit_iff by (auto simp: bit_1_iff)
qed

lemma byte_0x80_nonzero: "(0x80 :: byte) = 0 \<longleftrightarrow> False"
  by code_simp

lemma byte_0x7F: "(0x7F :: byte) = mask 7"
  by (simp add: mask_eq_exp_minus_1)

lemma continuation_byte:
  fixes v :: u64
  shows "ucast ((ucast v OR 0x80 :: byte) AND 0x7F) = take_bit 7 v"
    and "(ucast v OR 0x80 :: byte) AND 0x80 \<noteq> 0"
proof -
  show "ucast ((ucast v OR 0x80 :: byte) AND 0x7F) = take_bit 7 v"
    unfolding byte_0x7F by (rule bit_word_eqI) (auto simp: bit_simps bit_0x80 simp del: bit_numeral_word_iff)
  have "bit ((ucast v OR 0x80 :: byte) AND 0x80) 7" by (simp add: bit_simps bit_0x80 del: bit_numeral_word_iff)
  then show "(ucast v OR 0x80 :: byte) AND 0x80 \<noteq> 0" by auto
qed

lemma last_byte:
  fixes v :: u64
  assumes "\<not> v \<ge> 0x80"
  shows "ucast ((ucast v :: byte) AND 0x7F) = v" and "(ucast v :: byte) AND 0x80 = 0"
proof -
  have v: "take_bit 7 v = v"
    using assms by (simp add: take_bit_eq_mod word_less_nat_alt word_unat_eq_iff unat_mod_distrib not_le)
  then have low: "bit v n \<longleftrightarrow> n < 7 \<and> bit v n" for n by (metis bit_take_bit_iff)
  show "ucast ((ucast v :: byte) AND 0x7F) = v"
    unfolding byte_0x7F
  proof (rule bit_word_eqI)
    fix n show "bit (ucast ((ucast v :: byte) AND mask 7) :: u64) n \<longleftrightarrow> bit v n"
      using low [of n] by (cases "n < 7") (simp_all add: bit_simps)
  qed
  show "(ucast v :: byte) AND 0x80 = 0"
  proof (rule bit_word_eqI)
    fix n show "bit ((ucast v :: byte) AND 0x80) n \<longleftrightarrow> bit (0 :: byte) n"
      using low [of n] by (cases "n = 7") (simp_all add: bit_simps bit_0x80 del: bit_numeral_word_iff)
  qed
qed

lemma push_bit_split:
  fixes v :: u64
  shows "push_bit s (take_bit 7 v) OR push_bit (s + 7) (drop_bit 7 v) = push_bit s v"
proof (rule bit_word_eqI)
  fix n
  show "bit (push_bit s (take_bit 7 v) OR push_bit (s + 7) (drop_bit 7 v)) n \<longleftrightarrow> bit (push_bit s v) n"
    by (cases "n < s + 7") (auto simp: bit_simps)
qed

lemma read_varint_loop_image:
  assumes "unat v < 2 ^ (64 - 7 * k)" and "k \<le> 9" and "offset + k = length pre"
    and "offset + 10 \<le> usize_bound"
  shows "read_varint_loop (pre @ varint v @ post) offset res (7 * k) k =
    Ok (res OR push_bit (7 * k) v, k + length (varint v))"
  using assms
proof (induction v arbitrary: pre res k rule: measure_induct_rule [where f = unat])
  case (less v)
  have idx: "checked_add_usize offset k = Some (length pre)" using less.prems by simp
  show ?case
  proof (cases "v \<ge> 0x80")
    case False
    then show ?thesis
      using less.prems
      by (subst read_varint_loop.simps) (simp add: idx varint_simps last_byte [OF False] Let_def nth_append del: not_le)
  next
    case True
    then have big: "128 \<le> unat v" by (simp add: word_le_nat_alt)
    have "k \<le> 8"
    proof (rule ccontr)
      assume "\<not> k \<le> 8"
      with less.prems(2) have "k = 9" by simp
      with less.prems(1) big show False by simp
    qed
    let ?b = "ucast v OR 0x80 :: byte" and ?w = "drop_bit 7 v"
    have w: "unat ?w = unat v div 128" by (simp add: drop_bit_eq_div unat_div)
    have "64 - 7 * k = 7 + (64 - 7 * Suc k)" using \<open>k \<le> 8\<close> by arith
    then have "unat v < 2 ^ (7 + (64 - 7 * Suc k))" using less.prems(1) by (simp only:)
    then have "unat v < 128 * 2 ^ (64 - 7 * Suc k)" by (simp only: power_add) simp
    then have fits: "unat ?w < 2 ^ (64 - 7 * Suc k)" by (simp add: w less_mult_imp_div_less mult.commute)
    have "read_varint_loop ((pre @ [?b]) @ varint ?w @ post) offset (res OR push_bit (7 * k) (take_bit 7 v)) (7 * Suc k) (Suc k) =
        Ok ((res OR push_bit (7 * k) (take_bit 7 v)) OR push_bit (7 * Suc k) ?w, Suc k + length (varint ?w))"
      using less.prems \<open>k \<le> 8\<close> big fits by (intro less.IH) (simp_all add: w)
    then show ?thesis
      using less.prems \<open>k \<le> 8\<close> push_bit_split [of "7 * k" v]
      by (subst read_varint_loop.simps)
        (simp add: idx varint_simps True continuation_byte byte_0x80_nonzero Let_def nth_append add.commute or.assoc
          del: word_eq_numeral_iff_iszero)
  qed
qed

lemma read_varint_image [simp]:
  assumes "length pre + 10 \<le> usize_bound"
  shows "read_varint (pre @ varint v @ post) (length pre) = Ok (v, length (varint v))"
  using read_varint_loop_image [of v 0 "length pre" pre post 0] assms unat_word_bound [of v]
  by (simp add: read_varint_def)

lemma zigzag_roundtrip [simp]: "zigzag_decode (zigzag_encode v) = v"
proof (rule bit_word_eqI)
  fix n assume n: "n < LENGTH(64)"
  have s: "signed_drop_bit 63 v = (if bit v 63 then - 1 else 0)"
    by (rule bit_word_eqI) (auto simp: bit_simps not_less_eq_eq)
  have o: "zigzag_encode v AND 1 = (if bit v 63 then 1 else 0)"
    by (rule bit_word_eqI) (auto simp: zigzag_encode_def s bit_simps mult.commute [of v 2] bit_double_iff)
  show "bit (zigzag_decode (zigzag_encode v)) n \<longleftrightarrow> bit v n"
  proof (cases "n = 63")
    case True
    have "\<not> bit (zigzag_encode v) 64" using bit_imp_le_length [of "zigzag_encode v" 64] by auto
    with True show ?thesis unfolding zigzag_decode_def o by (auto simp: bit_simps)
  next
    case False
    with n show ?thesis unfolding zigzag_decode_def o by (auto simp: zigzag_encode_def s bit_simps mult.commute [of v 2] bit_double_iff)
  qed
qed

section \<open>Extents on arbitrary bytes\<close>

lemma read_varint_loop_bounds:
  "read_varint_loop buf offset res shift consumed = Ok (v, n) \<Longrightarrow> consumed < n \<and> offset + n \<le> length buf"
proof (induction "10 - consumed" arbitrary: consumed res shift rule: less_induct)
  case less
  show ?case
  proof (cases "consumed < 10")
    case True
    then have IH: "read_varint_loop buf offset r s (Suc consumed) = Ok (v, n) \<Longrightarrow> Suc consumed < n \<and> offset + n \<le> length buf" for r s
      using less.hyps [of "Suc consumed"] by simp
    from less.prems True show ?thesis
      by (subst (asm) read_varint_loop.simps) (auto simp: checked_add_usize_def Let_def split: if_splits dest!: IH)
  next
    case False
    with less.prems show ?thesis by (subst (asm) read_varint_loop.simps) simp
  qed
qed

lemma read_varint_bounds: "read_varint buf offset = Ok (v, n) \<Longrightarrow> 1 \<le> n \<and> offset + n \<le> length buf"
  using read_varint_loop_bounds [of buf offset 0 0 0 v n] by (simp add: read_varint_def Suc_le_eq)

lemma read_varint_no_panic [simp]: "read_varint buf offset \<noteq> Panic"
proof -
  have "read_varint_loop buf offset res shift consumed \<noteq> Panic" for res shift consumed
    by (induction buf offset res shift consumed rule: read_varint_loop.induct)
      (subst read_varint_loop.simps, auto simp: Let_def split: option.splits)
  then show ?thesis by (simp add: read_varint_def)
qed

lemma wrapping_add_usize_small [simp]: "a + b < usize_bound \<Longrightarrow> wrapping_add_usize a b = a + b"
  by (simp add: wrapping_add_usize_def)

lemma read_bytes_payload_bounds:
  assumes "read_bytes_payload buf offset = Ok (bytes, tot)"
  obtains len n where "read_varint buf (offset + 1) = Ok (len, n)" and "tot = 1 + n + unat len"
    and "offset + tot \<le> length buf" and "1 \<le> n"
  using assms read_varint_bounds [of buf "offset + 1"]
  by (auto simp: read_bytes_payload_def Let_def split: if_splits prod.splits)

lemma array_iter_new_bounds:
  assumes "array_iter_new buf offset = Ok it"
  obtains n_count n_body body_len where "read_tag buf offset = Ok TAG_ARRAY"
    and "read_varint buf (offset + 1) = Ok (it_remaining it, n_count)"
    and "read_varint buf (offset + 1 + n_count) = Ok (body_len, n_body)"
    and "it_cursor it = offset + 1 + n_count + n_body" and "it_end it = it_cursor it + unat body_len"
    and "it_end it \<le> length buf" and "offset < it_cursor it"
  using assms by (auto simp: array_iter_new_def Let_def split: if_splits prod.splits)

lemma object_iter_new_bounds:
  assumes "object_iter_new buf offset = Ok it"
  obtains n_count n_body body_len where "read_tag buf offset = Ok TAG_OBJECT"
    and "read_varint buf (offset + 1) = Ok (it_remaining it, n_count)"
    and "read_varint buf (offset + 1 + n_count) = Ok (body_len, n_body)"
    and "it_cursor it = offset + 1 + n_count + n_body" and "it_end it = it_cursor it + unat body_len"
    and "it_end it \<le> length buf" and "offset < it_cursor it"
  using assms by (auto simp: object_iter_new_def Let_def split: if_splits prod.splits)

lemma array_iter_next_Ok:
  "array_iter_next buf it = Some (Ok ((off, tot), it')) \<longleftrightarrow>
     it_remaining it \<noteq> 0 \<and> it_cursor it < it_end it \<and> off = it_cursor it \<and>
     (\<exists>k. node_span buf off = Ok (tot, k)) \<and>
     it' = it\<lparr>it_cursor := wrapping_add_usize off tot, it_remaining := it_remaining it - 1\<rparr>"
  by (auto simp: array_iter_next_def Let_def not_le split: prod.splits)

lemma object_iter_next_Ok:
  "object_iter_next buf it = Some (Ok ((key, off, tot), it')) \<longleftrightarrow>
     it_remaining it \<noteq> 0 \<and> it_cursor it < it_end it \<and> read_tag buf (it_cursor it) = Ok TAG_TEXT \<and>
     (\<exists>n. read_bytes_payload buf (it_cursor it) = Ok (key, n) \<and> off = it_cursor it + n) \<and>
     (\<exists>k. node_span buf off = Ok (tot, k)) \<and>
     it' = it\<lparr>it_cursor := wrapping_add_usize off tot, it_remaining := it_remaining it - 1\<rparr>"
  by (auto simp: object_iter_next_def Let_def not_le split: prod.splits)

text \<open>
  The tenth byte of an integer holds one bit. Its other six are shifted out, and the check for a shift of 64
  or more is never reached: the encoding of \<open>2^64\<close> reads as zero.
\<close>

lemma varint_overflow_lost: "read_varint (replicate 9 0x80 @ [2]) 0 = Ok (0, 10)"
proof -
  let ?buf = "replicate 9 0x80 @ [2] :: byte list"
  have b: "(0x80 :: byte) AND 0x7F = 0" "(0x80 :: byte) AND 0x80 \<noteq> 0" "(2 :: byte) AND 0x80 = 0"
    "push_bit 63 (ucast ((2 :: byte) AND 0x7F) :: u64) = 0" by code_simp+
  have step: "read_varint_loop ?buf 0 0 (7 * k) k = read_varint_loop ?buf 0 0 (7 * Suc k) (Suc k)" if "k < 9" for k
  proof -
    have "checked_add_usize 0 k = Some k" using that by (simp add: usize_bound_def)
    with that b(1,2) show ?thesis
      by (subst read_varint_loop.simps) (simp add: nth_append Let_def add.commute del: checked_add_usize_Some)
  qed
  have "k \<le> 9 \<Longrightarrow> read_varint_loop ?buf 0 0 0 0 = read_varint_loop ?buf 0 0 (7 * k) k" for k
  proof (induction k)
    case (Suc k)
    then show ?case using step [of k] by simp
  qed simp
  from this [of 9] have "read_varint ?buf 0 = read_varint_loop ?buf 0 0 63 9" by (simp add: read_varint_def)
  also have "\<dots> = Ok (0, 10)"
  proof -
    have "checked_add_usize 0 9 = Some 9" by (simp add: usize_bound_def)
    with b(3,4) show ?thesis by (subst read_varint_loop.simps) (simp add: nth_append Let_def del: checked_add_usize_Some)
  qed
  finally show ?thesis .
qed

end
