(* ===== verification/Json_Codec.thy ===== *)
theory Json_Codec
  imports Json_Wire
begin

unbundle bit_operations_syntax

text \<open>
  \<^verbatim>\<open>crates/kernel/src/json/encode.rs\<close> and \<^verbatim>\<open>json/decode.rs\<close>: conversion between JSON values and their
  binary form. Values, numbers and maps are those of the library \<^verbatim>\<open>serde_json\<close>. A value has the
  constructors of that library, with numbers of any type \<open>'n\<close>; the conversions of numbers, the
  insertion into a map and the size of a value in memory are a parameter. A string is its UTF-8 bytes
  and a map is the list of its entries in iteration order.
\<close>

section \<open>Values\<close>

datatype 'n json =
    J_Null
  | J_Bool bool
  | J_Number 'n
  | J_String "byte list"
  | J_Array "'n json list"
  | J_Object "(byte list \<times> 'n json) list"

text \<open>A double is its 64 bits.\<close>

record 'n serde_json =
  as_i64 :: "'n \<Rightarrow> i64 option"
  as_u64 :: "'n \<Rightarrow> u64 option"
  as_f64 :: "'n \<Rightarrow> u64 option"
  from_i64 :: "i64 \<Rightarrow> 'n"
  from_f64 :: "u64 \<Rightarrow> 'n option"
  map_insert :: "(byte list \<times> 'n json) list \<Rightarrow> byte list \<Rightarrow> 'n json \<Rightarrow> (byte list \<times> 'n json) list"
  size_of_value :: nat

text \<open>The Rust conversion \<^verbatim>\<open>u as f64\<close>: the nearest double, ties to the even one.\<close>

fun bit_length :: "nat \<Rightarrow> nat" where
  "bit_length n = (if n = 0 then 0 else Suc (bit_length (n div 2)))"

declare bit_length.simps [simp del]

definition u64_as_f64 :: "u64 \<Rightarrow> u64" where
  "u64_as_f64 u =
     (let n = unat u; e = bit_length n - 1 in
      if n = 0 then 0
      else if e \<le> 52 then word_of_nat ((e + 1023) * 2 ^ 52 + (n * 2 ^ (52 - e) - 2 ^ 52))
      else let s = e - 52; q = n div 2 ^ s; r = n mod 2 ^ s; half = 2 ^ (s - 1);
               up = (if r > half \<or> (r = half \<and> odd q) then 1 else 0)
           in word_of_nat ((e + 1023) * 2 ^ 52 + (q + up - 2 ^ 52)))"

text \<open>\<^verbatim>\<open>str::from_utf8\<close> accepts the well-formed byte sequences of the Unicode standard.\<close>

definition continuation :: "byte \<Rightarrow> bool" where
  "continuation b \<longleftrightarrow> 0x80 \<le> b \<and> b \<le> 0xBF"

fun utf8_valid :: "byte list \<Rightarrow> bool" where
  "utf8_valid [] = True"
| "utf8_valid (a # bs) =
     (if a \<le> 0x7F then utf8_valid bs
      else case bs of
        [] \<Rightarrow> False
      | b # cs \<Rightarrow>
          if 0xC2 \<le> a \<and> a \<le> 0xDF then continuation b \<and> utf8_valid cs
          else (case cs of
             [] \<Rightarrow> False
           | c # ds \<Rightarrow>
               if a = 0xE0 then 0xA0 \<le> b \<and> b \<le> 0xBF \<and> continuation c \<and> utf8_valid ds
               else if a = 0xED then 0x80 \<le> b \<and> b \<le> 0x9F \<and> continuation c \<and> utf8_valid ds
               else if 0xE1 \<le> a \<and> a \<le> 0xEF then continuation b \<and> continuation c \<and> utf8_valid ds
               else (case ds of
                  [] \<Rightarrow> False
                | d # es \<Rightarrow>
                    (if a = 0xF0 then 0x90 \<le> b \<and> b \<le> 0xBF
                     else if 0xF1 \<le> a \<and> a \<le> 0xF3 then continuation b
                     else a = 0xF4 \<and> 0x80 \<le> b \<and> b \<le> 0x8F)
                    \<and> continuation c \<and> continuation d \<and> utf8_valid es)))"

section \<open>Encoder\<close>

definition encode_number :: "'n serde_json \<Rightarrow> 'n \<Rightarrow> byte list \<Rightarrow> byte list" where
  "encode_number sj n out =
     (case as_i64 sj n of
        Some i \<Rightarrow> write_varint (out @ [TAG_INTEGER]) (zigzag_encode i)
      | None \<Rightarrow>
          (case as_u64 sj n of
             Some u \<Rightarrow> out @ [TAG_REAL] @ to_le_bytes (u64_as_f64 u)
           | None \<Rightarrow> out @ [TAG_REAL] @ to_le_bytes (case as_f64 sj n of Some f \<Rightarrow> f | None \<Rightarrow> 0)))"

definition encode_text :: "byte list \<Rightarrow> byte list \<Rightarrow> byte list" where
  "encode_text bytes out = write_varint (out @ [TAG_TEXT]) (word_of_nat (length bytes)) @ bytes"

definition encode_blob :: "byte list \<Rightarrow> byte list \<Rightarrow> byte list" where
  "encode_blob bytes out = write_varint (out @ [TAG_BLOB]) (word_of_nat (length bytes)) @ bytes"

definition encode_blob_value :: "byte list \<Rightarrow> byte list" where
  "encode_blob_value bytes = encode_blob bytes [MAGIC, FORMAT_VERSION]"

definition encode_composite :: "byte \<Rightarrow> nat \<Rightarrow> byte list \<Rightarrow> byte list \<Rightarrow> byte list" where
  "encode_composite t count body out =
     write_varint (write_varint (out @ [t]) (word_of_nat count)) (word_of_nat (length body)) @ body"

fun encode_node :: "'n serde_json \<Rightarrow> 'n json \<Rightarrow> byte list \<Rightarrow> byte list" where
  "encode_node sj J_Null out = out @ [TAG_NULL]"
| "encode_node sj (J_Bool b) out = out @ [if b then TAG_TRUE else TAG_FALSE]"
| "encode_node sj (J_Number n) out = encode_number sj n out"
| "encode_node sj (J_String s) out = encode_text s out"
| "encode_node sj (J_Array items) out =
     encode_composite TAG_ARRAY (length items) (foldl (\<lambda>body item. encode_node sj item body) [] items) out"
| "encode_node sj (J_Object m) out =
     encode_composite TAG_OBJECT (length m)
       (foldl (\<lambda>body entry. encode_node sj (snd entry) (encode_text (fst entry) body)) [] m) out"

definition jsonb_encode :: "'n serde_json \<Rightarrow> 'n json \<Rightarrow> byte list" where
  "jsonb_encode sj v = encode_node sj v [MAGIC, FORMAT_VERSION]"

section \<open>Decoder\<close>

text \<open>
  The calls of the decoder nest as deep as the input says, so they are counted by fuel; \<open>None\<close> stands for
  fuel that has run out. \<^verbatim>\<open>Vec::push\<close> stays within the capacity that was reserved.
\<close>

fun obind :: "'a result option \<Rightarrow> ('a \<Rightarrow> 'b result option) \<Rightarrow> 'b result option" where
  "obind None f = None"
| "obind (Some (Ok x)) f = f x"
| "obind (Some (Err e)) f = Some (Err e)"
| "obind (Some Panic) f = Some Panic"

definition hex_digit :: "nat \<Rightarrow> byte" where
  "hex_digit d = word_of_nat (if d < 10 then 48 + d else 87 + d)"

definition blob_text :: "byte list \<Rightarrow> byte list" where
  "blob_text bytes = [48, 120] @ concat (map (\<lambda>b. [hex_digit (unat b div 16), hex_digit (unat b mod 16)]) bytes)"

definition decode_real :: "'n serde_json \<Rightarrow> byte list \<Rightarrow> nat \<Rightarrow> ('n json \<times> nat) result" where
  "decode_real sj buf offset =
     (if length buf < offset + 9 then Err (InvalidJsonb ''real truncated'') else
      rbind (slice_range buf (offset + 1) (offset + 9)) (\<lambda>arr.
      Ok (case from_f64 sj (from_le_bytes arr) of Some n \<Rightarrow> J_Number n | None \<Rightarrow> J_Null, 9)))"

definition decode_text :: "byte list \<Rightarrow> nat \<Rightarrow> ('n json \<times> nat) result" where
  "decode_text buf offset =
     rbind (read_bytes_payload buf offset) (\<lambda>(bytes, total).
     if utf8_valid bytes then Ok (J_String bytes, total) else Err (InvalidJsonb ''text not utf-8''))"

definition decode_blob :: "byte list \<Rightarrow> nat \<Rightarrow> ('n json \<times> nat) result" where
  "decode_blob buf offset =
     rbind (read_bytes_payload buf offset) (\<lambda>(bytes, total). Ok (J_String (blob_text bytes), total))"

definition decode_array_end ::
    "byte list \<Rightarrow> nat \<Rightarrow> nat \<Rightarrow> 'n json list \<times> nat option \<times> nat option \<Rightarrow> ('n json \<times> nat) result" where
  "decode_array_end buf offset count = (\<lambda>(items, start, last_end).
     if length items \<noteq> count then Err (InvalidJsonb ''array count mismatch'') else
     rbind (read_varint buf (offset + 1)) (\<lambda>(_, n_count).
     rbind (read_varint buf (offset + 1 + n_count)) (\<lambda>(body_len, n_body).
     let total_node_len = 1 + n_count + n_body + unat body_len in
     case (start, last_end) of
       (Some s, Some e) \<Rightarrow>
         if wrapping_sub_usize e s \<noteq> unat body_len then Err (InvalidJsonb ''array body length mismatch'')
         else Ok (J_Array items, total_node_len)
     | _ \<Rightarrow> if body_len \<noteq> 0 then Err (InvalidJsonb ''array body length mismatch'')
            else Ok (J_Array items, total_node_len))))"

definition decode_object_end ::
    "byte list \<Rightarrow> nat \<Rightarrow> nat \<Rightarrow> (byte list \<times> 'n json) list \<Rightarrow> ('n json \<times> nat) result" where
  "decode_object_end buf offset count m =
     (if length m \<noteq> count then Err (InvalidJsonb ''object count mismatch'') else
      rbind (read_varint buf (offset + 1)) (\<lambda>(_, n_count).
      rbind (read_varint buf (offset + 1 + n_count)) (\<lambda>(body_len, n_body).
      Ok (J_Object m, 1 + n_count + n_body + unat body_len))))"

text \<open>
  The loops over the children take the decoder of a nested node as an argument. A loop makes at most
  one round per byte, and nodes nest at most one level per byte.
\<close>

type_synonym 'n node_decoder = "byte list \<Rightarrow> nat \<Rightarrow> ('n json \<times> nat) result option"

fun decode_items :: "'n node_decoder \<Rightarrow> nat \<Rightarrow> byte list \<Rightarrow> node_iter \<Rightarrow> 'n json list \<Rightarrow> nat option \<Rightarrow> nat option \<Rightarrow>
     ('n json list \<times> nat option \<times> nat option) result option" where
  "decode_items node 0 buf it items start last_end = None"
| "decode_items node (Suc fuel) buf it items start last_end =
     (case array_iter_next buf it of
        None \<Rightarrow> Some (Ok (items, start, last_end))
      | Some entry \<Rightarrow>
          obind (Some entry) (\<lambda>((value_off, value_total), it).
          let start = (case start of None \<Rightarrow> Some value_off | Some s \<Rightarrow> Some s);
              last_end = Some (wrapping_add_usize value_off value_total) in
          obind (node buf value_off) (\<lambda>(val, _).
          decode_items node fuel buf it (items @ [val]) start last_end)))"

definition decode_array :: "'n serde_json \<Rightarrow> 'n node_decoder \<Rightarrow> 'n node_decoder" where
  "decode_array sj node buf offset =
     obind (Some (array_iter_new buf offset)) (\<lambda>it.
     let count = unat (it_remaining it) in
     obind (Some (vec_with_capacity (size_of_value sj) count)) (\<lambda>_.
     obind (decode_items node (length buf + 1) buf it [] None None) (\<lambda>walked.
     Some (decode_array_end buf offset count walked))))"

fun decode_fields :: "'n serde_json \<Rightarrow> 'n node_decoder \<Rightarrow> nat \<Rightarrow> byte list \<Rightarrow> node_iter \<Rightarrow> (byte list \<times> 'n json) list \<Rightarrow>
     (byte list \<times> 'n json) list result option" where
  "decode_fields sj node 0 buf it m = None"
| "decode_fields sj node (Suc fuel) buf it m =
     (case object_iter_next buf it of
        None \<Rightarrow> Some (Ok m)
      | Some entry \<Rightarrow>
          obind (Some entry) (\<lambda>((key_bytes, value_off, value_total), it).
          if \<not> utf8_valid key_bytes then Some (Err (InvalidJsonb ''object key not utf-8'')) else
          obind (node buf value_off) (\<lambda>(val, _).
          decode_fields sj node fuel buf it (map_insert sj m key_bytes val))))"

definition decode_object :: "'n serde_json \<Rightarrow> 'n node_decoder \<Rightarrow> 'n node_decoder" where
  "decode_object sj node buf offset =
     obind (Some (object_iter_new buf offset)) (\<lambda>it.
     let count = unat (it_remaining it) in
     obind (decode_fields sj node (length buf + 1) buf it []) (\<lambda>m.
     Some (decode_object_end buf offset count m)))"

fun decode_node :: "'n serde_json \<Rightarrow> nat \<Rightarrow> 'n node_decoder" where
  "decode_node sj 0 buf offset = None"
| "decode_node sj (Suc fuel) buf offset =
     obind (Some (read_tag buf offset)) (\<lambda>t.
     if t = TAG_NULL then Some (Ok (J_Null, 1))
     else if t = TAG_TRUE then Some (Ok (J_Bool True, 1))
     else if t = TAG_FALSE then Some (Ok (J_Bool False, 1))
     else if t = TAG_INTEGER then
       Some (rbind (read_varint buf (offset + 1)) (\<lambda>(raw, n). Ok (J_Number (from_i64 sj (zigzag_decode raw)), 1 + n)))
     else if t = TAG_REAL then Some (decode_real sj buf offset)
     else if t = TAG_TEXT then Some (decode_text buf offset)
     else if t = TAG_BLOB then Some (decode_blob buf offset)
     else if t = TAG_ARRAY then decode_array sj (decode_node sj fuel) buf offset
     else if t = TAG_OBJECT then decode_object sj (decode_node sj fuel) buf offset
     else Some (Err (InvalidJsonb ''unknown tag'')))"

declare decode_node.simps [simp del]

definition jsonb_decode :: "'n serde_json \<Rightarrow> byte list \<Rightarrow> 'n json result option" where
  "jsonb_decode sj bytes =
     obind (Some (parse_preamble bytes)) (\<lambda>body_off.
     obind (decode_node sj (length bytes + 1) bytes body_off) (\<lambda>(v, consumed).
     Some (if body_off + consumed \<noteq> length bytes then Err (InvalidJsonb ''trailing bytes after root'') else Ok v)))"

definition root_kind :: "byte list \<Rightarrow> node_kind result" where
  "root_kind bytes =
     rbind (parse_preamble bytes) (\<lambda>off.
     rbind (read_tag bytes off) (\<lambda>t.
     if t = TAG_NULL then Ok K_Null
     else if t = TAG_TRUE then Ok (K_Bool True)
     else if t = TAG_FALSE then Ok (K_Bool False)
     else if t = TAG_INTEGER then Ok K_Integer
     else if t = TAG_REAL then Ok K_Real
     else if t = TAG_TEXT then Ok K_Text
     else if t = TAG_ARRAY then Ok K_Array
     else if t = TAG_OBJECT then Ok K_Object
     else if t = TAG_BLOB then Ok K_Blob
     else Err (InvalidJsonb ''unknown tag'')))"

section \<open>Termination\<close>

lemma obind_Ok_iff: "obind m f = Some (Ok y) \<longleftrightarrow> (\<exists>x. m = Some (Ok x) \<and> f x = Some (Ok y))"
  by (cases "(m, f)" rule: obind.cases) auto

text \<open>A call returns when its fuel has not run out.\<close>

definition returns :: "'a result option \<Rightarrow> bool" where
  "returns m \<longleftrightarrow> (\<exists>r. m = Some r)"

lemma returns_simps [simp]: "returns (Some r)" "\<not> returns None"
  by (simp_all add: returns_def)

lemma returns_obind [intro]:
  assumes "returns m" and "\<And>x. m = Some (Ok x) \<Longrightarrow> returns (f x)"
  shows "returns (obind m f)"
  using assms by (cases "(m, f)" rule: obind.cases) auto

text \<open>A node that decodes has the extent that \<^verbatim>\<open>node_span\<close> gives it, inside the buffer.\<close>

lemma decoded_extent:
  assumes dec: "decode_node sj fuel buf off = Some (Ok (v, n))" and span: "node_span buf off = Ok (tot, k)"
    and len: "length buf < usize_bound"
  shows "0 < tot \<and> off + tot \<le> length buf"
proof -
  obtain f t where fuel: "fuel = Suc f" and t: "read_tag buf off = Ok t"
    using dec by (cases fuel) (auto simp: decode_node.simps obind_Ok_iff)
  have off: "off < length buf" using t by (simp add: read_tag_def split: if_splits)
  consider (bytes) "t = TAG_TEXT \<or> t = TAG_BLOB" | (array) "t = TAG_ARRAY" | (object) "t = TAG_OBJECT"
    | (other) "t \<notin> {TAG_TEXT, TAG_BLOB, TAG_ARRAY, TAG_OBJECT}" by auto
  then show ?thesis
  proof cases
    case bytes
    then obtain bs m where "read_bytes_payload buf off = Ok (bs, m)"
      using dec fuel t by (auto simp: decode_node.simps decode_text_def decode_blob_def)
    then obtain l j where "read_varint buf (off + 1) = Ok (l, j)" "off + (1 + j + unat l) \<le> length buf"
      by (auto elim: read_bytes_payload_bounds)
    then show ?thesis using span t bytes len by (auto simp: node_span_def Let_def split: if_splits)
  next
    case array
    then obtain it where "array_iter_new buf off = Ok it"
      using dec fuel t by (auto simp: decode_node.simps decode_array_def obind_Ok_iff)
    then obtain c b l where "read_varint buf (off + 1) = Ok (it_remaining it, c)"
      "read_varint buf (off + 1 + c) = Ok (l, b)" "off + 1 + c + b + unat l \<le> length buf"
      by (auto elim: array_iter_new_bounds)
    then show ?thesis using span t array len by (auto simp: node_span_def Let_def split: if_splits)
  next
    case object
    then obtain it where "object_iter_new buf off = Ok it"
      using dec fuel t by (auto simp: decode_node.simps decode_object_def obind_Ok_iff)
    then obtain c b l where "read_varint buf (off + 1) = Ok (it_remaining it, c)"
      "read_varint buf (off + 1 + c) = Ok (l, b)" "off + 1 + c + b + unat l \<le> length buf"
      by (auto elim: object_iter_new_bounds)
    then show ?thesis using span t object len by (auto simp: node_span_def Let_def split: if_splits)
  next
    case other
    then show ?thesis
      using span t off read_varint_bounds [of buf "off + 1"]
      by (auto simp: node_span_def Let_def split: if_splits)
  qed
qed

lemma decode_items_returns:
  assumes len: "length buf < usize_bound"
    and node: "\<And>off. it_cursor it \<le> off \<Longrightarrow> returns (decode_node sj f buf off)"
    and fuel: "length buf - it_cursor it < fuel" and "it_end it \<le> length buf"
  shows "returns (decode_items (decode_node sj f) fuel buf it items start last_end)"
  using node fuel assms(4)
proof (induction fuel arbitrary: it items start last_end)
  case (Suc fuel)
  show ?case
  proof (cases "array_iter_next buf it")
    case (Some entry)
    have "returns (decode_items (decode_node sj f) fuel buf it' xs s e)"
      if e: "entry = Ok ((off, tot), it')" and d: "decode_node sj f buf off = Some (Ok (v, n))" for off tot it' v n xs s e
    proof -
      obtain k where k: "node_span buf off = Ok (tot, k)" and off: "off = it_cursor it" "it_cursor it < it_end it"
        and it': "it' = it\<lparr>it_cursor := wrapping_add_usize off tot, it_remaining := it_remaining it - 1\<rparr>"
        using Some e by (auto simp: array_iter_next_Ok)
      have "0 < tot" "off + tot \<le> length buf" using decoded_extent [OF d k len] by simp_all
      then show ?thesis using Suc.prems off it' len by (intro Suc.IH) auto
    qed
    moreover have "returns (decode_node sj f buf off)" if "entry = Ok ((off, tot), it')" for off tot it'
      using Some that Suc.prems(1) [of off] by (auto simp: array_iter_next_Ok)
    ultimately show ?thesis
      unfolding decode_items.simps Some option.case
      by (auto simp: Let_def intro!: returns_obind split: prod.splits)
  qed simp
qed simp

lemma decode_fields_returns:
  assumes len: "length buf < usize_bound"
    and node: "\<And>off. it_cursor it \<le> off \<Longrightarrow> returns (decode_node sj f buf off)"
    and fuel: "length buf - it_cursor it < fuel" and "it_end it \<le> length buf"
  shows "returns (decode_fields sj (decode_node sj f) fuel buf it m)"
  using node fuel assms(4)
proof (induction fuel arbitrary: it m)
  case (Suc fuel)
  show ?case
  proof (cases "object_iter_next buf it")
    case (Some entry)
    have "returns (decode_fields sj (decode_node sj f) fuel buf it' m')"
      if e: "entry = Ok ((key, off, tot), it')" and d: "decode_node sj f buf off = Some (Ok (v, n))" for key off tot it' v n m'
    proof -
      obtain k where k: "node_span buf off = Ok (tot, k)" and off: "it_cursor it \<le> off" "it_cursor it < it_end it"
        and it': "it' = it\<lparr>it_cursor := wrapping_add_usize off tot, it_remaining := it_remaining it - 1\<rparr>"
        using Some e by (auto simp: object_iter_next_Ok)
      have "0 < tot" "off + tot \<le> length buf" using decoded_extent [OF d k len] by simp_all
      then show ?thesis using Suc.prems off it' len by (intro Suc.IH) auto
    qed
    moreover have "returns (decode_node sj f buf off)" if "entry = Ok ((key, off, tot), it')" for key off tot it'
      using Some that Suc.prems(1) [of off] by (auto simp: object_iter_next_Ok)
    ultimately show ?thesis
      unfolding decode_fields.simps Some option.case
      by (auto simp: Let_def intro!: returns_obind split: prod.splits)
  qed simp
qed simp

lemma decode_node_returns:
  assumes "length buf < usize_bound" and "length buf - off < fuel"
  shows "returns (decode_node sj fuel buf off)"
  using assms(2)
proof (induction fuel arbitrary: off)
  case (Suc f)
  show ?case
  proof (cases "off < length buf")
    case True
    have nested: "returns (decode_node sj f buf o')" if "off < o'" for o'
      using that True Suc.prems by (intro Suc.IH) simp
    have "returns (decode_array sj (decode_node sj f) buf off)"
      unfolding decode_array_def Let_def using assms(1) nested
      by (intro returns_obind decode_items_returns) (auto elim: array_iter_new_bounds)
    moreover have "returns (decode_object sj (decode_node sj f) buf off)"
      unfolding decode_object_def Let_def using assms(1) nested
      by (intro returns_obind decode_fields_returns) (auto elim: object_iter_new_bounds)
    ultimately show ?thesis
      unfolding decode_node.simps by (intro returns_obind) (auto)
  qed (simp add: decode_node.simps read_tag_def)
qed simp

section \<open>Images of nodes\<close>

definition text_image :: "byte list \<Rightarrow> byte list" where
  "text_image s = TAG_TEXT # varint (word_of_nat (length s)) @ s"

definition node_image :: "'n serde_json \<Rightarrow> 'n json \<Rightarrow> byte list" where
  "node_image sj v = encode_node sj v []"

definition composite_image :: "byte \<Rightarrow> nat \<Rightarrow> byte list \<Rightarrow> byte list" where
  "composite_image t n body = t # varint (word_of_nat n) @ varint (word_of_nat (length body)) @ body"

lemma encode_text_append: "encode_text s out = out @ text_image s"
  by (simp add: encode_text_def text_image_def write_varint_append)

lemma encode_composite_append: "encode_composite t n body out = out @ composite_image t n body"
  by (simp add: encode_composite_def composite_image_def write_varint_append)

lemma encode_number_append: "encode_number sj n out = out @ encode_number sj n []"
  by (simp add: encode_number_def write_varint_append split: option.splits)

lemma foldl_append: "(\<And>x out. x \<in> set xs \<Longrightarrow> g out x = out @ f x) \<Longrightarrow> foldl g out xs = out @ concat (map f xs)"
  by (induction xs arbitrary: out) auto

lemma encode_node_append: "encode_node sj v out = out @ node_image sj v"
  unfolding node_image_def
proof (cases v)
  case (J_Number n)
  then show "encode_node sj v out = out @ encode_node sj v []" using encode_number_append [of sj n out] by simp
qed (simp_all add: encode_text_append encode_composite_append)

definition field_image :: "'n serde_json \<Rightarrow> byte list \<times> 'n json \<Rightarrow> byte list" where
  "field_image sj entry = text_image (fst entry) @ node_image sj (snd entry)"

lemma node_image_simps:
  "node_image sj J_Null = [TAG_NULL]"
  "node_image sj (J_Bool b) = [if b then TAG_TRUE else TAG_FALSE]"
  "node_image sj (J_Number n) = encode_number sj n []"
  "node_image sj (J_String s) = text_image s"
  "node_image sj (J_Array items) = composite_image TAG_ARRAY (length items) (concat (map (node_image sj) items))"
  "node_image sj (J_Object m) = composite_image TAG_OBJECT (length m) (concat (map (field_image sj) m))"
proof -
  have "foldl (\<lambda>body item. encode_node sj item body) [] items = concat (map (node_image sj) items)"
    by (subst foldl_append [where f = "node_image sj"]) (simp_all add: encode_node_append)
  then show "node_image sj (J_Array items) = composite_image TAG_ARRAY (length items) (concat (map (node_image sj) items))"
    by (simp add: node_image_def encode_composite_append)
  have "foldl (\<lambda>body entry. encode_node sj (snd entry) (encode_text (fst entry) body)) [] m = concat (map (field_image sj) m)"
    by (subst foldl_append [where f = "field_image sj"]) (simp_all add: encode_node_append encode_text_append field_image_def)
  then show "node_image sj (J_Object m) = composite_image TAG_OBJECT (length m) (concat (map (field_image sj) m))"
    by (simp add: node_image_def encode_composite_append)
qed (simp_all add: node_image_def encode_text_append)

text \<open>Reading the parts of a node inside a buffer.\<close>

definition small :: "byte list \<Rightarrow> bool" where
  "small buf \<longleftrightarrow> length buf + 20 \<le> usize_bound"

lemma small_length: "small buf \<Longrightarrow> length buf < usize_bound"
  by (simp add: small_def)

lemma read_tag_image [simp]: "read_tag (pre @ t # rest) (length pre) = Ok (t AND TYPE_MASK)"
  by (simp add: read_tag_def)

lemma read_varint_image_1:
  "small (pre @ t # varint v @ post) \<Longrightarrow>
     read_varint (pre @ t # varint v @ post) (Suc (length pre)) = Ok (v, length (varint v))"
  using read_varint_image [of "pre @ [t]" v post] by (simp add: small_def)

lemma read_varint_image_2:
  "small (pre @ t # varint c @ varint v @ post) \<Longrightarrow>
     read_varint (pre @ t # varint c @ varint v @ post) (Suc (length pre + length (varint c))) = Ok (v, length (varint v))"
  using read_varint_image [of "pre @ t # varint c" v post] by (simp add: small_def)

lemma unat_usize_length: "n < usize_bound \<Longrightarrow> unat (word_of_nat n :: u64) = n"
  by (simp add: unat_of_nat usize_bound_def)

lemma read_bytes_payload_image:
  assumes "small (pre @ text_image s @ post)"
  shows "read_bytes_payload (pre @ text_image s @ post) (length pre) = Ok (s, length (text_image s))"
proof -
  let ?n = "word_of_nat (length s) :: u64"
  have "unat ?n = length s" using assms by (intro unat_usize_length) (simp add: small_def text_image_def)
  moreover have "read_varint (pre @ text_image s @ post) (length pre + 1) = Ok (?n, length (varint ?n))"
    using assms read_varint_image_1 [of pre TAG_TEXT ?n "s @ post"] by (simp add: text_image_def)
  ultimately show ?thesis
    using assms by (simp add: read_bytes_payload_def small_def checked_add_usize_def slice_range_def text_image_def bslice_def)
qed

lemma composite_parts:
  assumes "small (pre @ composite_image t n body @ post)" and "n < usize_bound"
  defines "buf \<equiv> pre @ composite_image t n body @ post"
    and "c \<equiv> length (varint (word_of_nat n :: u64))" and "l \<equiv> length (varint (word_of_nat (length body) :: u64))"
  shows "read_tag buf (length pre) = Ok (t AND TYPE_MASK)"
    and "read_varint buf (Suc (length pre)) = Ok (word_of_nat n, c)"
    and "read_varint buf (Suc (length pre + c)) = Ok (word_of_nat (length body), l)"
    and "length (composite_image t n body) = 1 + c + l + length body"
    and "unat (word_of_nat n :: u64) = n" and "unat (word_of_nat (length body) :: u64) = length body"
    and "length buf = length pre + (1 + c + l + length body) + length post"
proof -
  show len: "length (composite_image t n body) = 1 + c + l + length body" by (simp add: composite_image_def c_def l_def)
  then show "length buf = length pre + (1 + c + l + length body) + length post" by (simp add: buf_def)
  show "unat (word_of_nat n :: u64) = n" using assms(2) by (rule unat_usize_length)
  show "unat (word_of_nat (length body) :: u64) = length body"
    using assms(1) by (intro unat_usize_length) (simp add: small_def composite_image_def)
  show "read_tag buf (length pre) = Ok (t AND TYPE_MASK)" by (simp add: buf_def composite_image_def)
  show "read_varint buf (Suc (length pre)) = Ok (word_of_nat n, c)"
    using assms(1) read_varint_image_1 [of pre t "word_of_nat n" "varint (word_of_nat (length body)) @ body @ post"]
    by (simp add: buf_def composite_image_def c_def)
  show "read_varint buf (Suc (length pre + c)) = Ok (word_of_nat (length body), l)"
    using assms(1) read_varint_image_2 [of pre t "word_of_nat n" "word_of_nat (length body)" "body @ post"]
    by (simp add: buf_def composite_image_def c_def l_def)
qed

lemma composite_iter_image:
  assumes "small (pre @ composite_image t n body @ post)" and "n < usize_bound"
  defines "buf \<equiv> pre @ composite_image t n body @ post"
    and "c \<equiv> length pre + (length (composite_image t n body) - length body)"
  shows "t = TAG_ARRAY \<Longrightarrow> array_iter_new buf (length pre) =
      Ok \<lparr>it_cursor = c, it_end = c + length body, it_remaining = word_of_nat n\<rparr>"
    and "t = TAG_OBJECT \<Longrightarrow> object_iter_new buf (length pre) =
      Ok \<lparr>it_cursor = c, it_end = c + length body, it_remaining = word_of_nat n\<rparr>"
  using composite_parts [OF assms(1,2)] assms(1)
  by (simp_all add: array_iter_new_def object_iter_new_def checked_add_usize_def small_def buf_def c_def)

fun kind_of :: "'n serde_json \<Rightarrow> 'n json \<Rightarrow> node_kind" where
  "kind_of sj J_Null = K_Null"
| "kind_of sj (J_Bool b) = K_Bool b"
| "kind_of sj (J_Number n) = (if as_i64 sj n = None then K_Real else K_Integer)"
| "kind_of sj (J_String s) = K_Text"
| "kind_of sj (J_Array items) = K_Array"
| "kind_of sj (J_Object m) = K_Object"

lemma length_node_image_pos: "Suc 0 \<le> length (node_image sj v)"
  by (cases v) (auto simp: node_image_simps text_image_def composite_image_def encode_number_def write_varint_append split: option.splits)

lemma node_image_nonempty [simp]: "node_image sj v \<noteq> []"
  using length_node_image_pos [of sj v] by auto

lemma count_le_length:
  "length xs \<le> length (concat (map (node_image sj) xs))" "length m \<le> length (concat (map (field_image sj) m))"
proof -
  show "length xs \<le> length (concat (map (node_image sj) xs))"
  proof (induction xs)
    case (Cons v xs)
    then show ?case using add_mono [OF length_node_image_pos [of sj v] Cons.IH] by simp
  qed simp
  show "length m \<le> length (concat (map (field_image sj) m))"
    by (induction m) (simp_all add: field_image_def text_image_def)
qed

lemma count_small:
  "small (pre @ composite_image t (length xs) (concat (map (node_image sj) xs)) @ post) \<Longrightarrow> length xs < usize_bound"
  "small (pre @ composite_image t (length m) (concat (map (field_image sj) m)) @ post) \<Longrightarrow> length m < usize_bound"
  using count_le_length(1) [of xs sj] count_le_length(2) [of m sj] by (simp_all add: small_def composite_image_def)

lemma number_span_image:
  assumes "small (pre @ encode_number sj n [] @ post)"
  shows "node_span (pre @ encode_number sj n [] @ post) (length pre) =
    Ok (length (encode_number sj n []), if as_i64 sj n = None then K_Real else K_Integer)"
  using assms read_varint_image_1 [of pre TAG_INTEGER _ post]
  by (simp add: encode_number_def node_span_def Let_def write_varint_append del: rbind_Ok_iff split: option.splits)

lemma node_span_image:
  assumes "small (pre @ node_image sj v @ post)"
  shows "node_span (pre @ node_image sj v @ post) (length pre) = Ok (length (node_image sj v), kind_of sj v)"
proof (cases v)
  case (J_String s)
  let ?n = "word_of_nat (length s) :: u64"
  have "unat ?n = length s" using assms J_String by (intro unat_usize_length) (simp add: small_def text_image_def node_image_simps)
  then show ?thesis
    using assms J_String read_varint_image_1 [of pre TAG_TEXT ?n "s @ post"]
    by (simp add: node_image_simps text_image_def node_span_def Let_def small_def del: rbind_Ok_iff)
next
  case (J_Array xs)
  then show ?thesis
    using assms composite_parts [of pre TAG_ARRAY _ _ post] count_small(1) [of pre TAG_ARRAY xs sj post]
    by (simp add: node_image_simps node_span_def Let_def small_def del: rbind_Ok_iff)
next
  case (J_Object m)
  then show ?thesis
    using assms composite_parts [of pre TAG_OBJECT _ _ post] count_small(2) [of pre TAG_OBJECT m sj post]
    by (simp add: node_image_simps node_span_def Let_def small_def del: rbind_Ok_iff)
next
  case (J_Number n)
  then show ?thesis using assms number_span_image [of pre sj n post] by (simp add: node_image_simps)
qed (simp_all add: node_image_simps node_span_def Let_def)

section \<open>Round trip\<close>

text \<open>
  What the round trip relies on of the library: a number that reads as \<^verbatim>\<open>i64\<close> is the number made from it,
  and a number that reads only as \<^verbatim>\<open>f64\<close> is the number made from that double.
\<close>

definition serde_numbers :: "'n serde_json \<Rightarrow> bool" where
  "serde_numbers sj \<longleftrightarrow>
     (\<forall>n i. as_i64 sj n = Some i \<longrightarrow> from_i64 sj i = n) \<and>
     (\<forall>n f. as_i64 sj n = None \<longrightarrow> as_u64 sj n = None \<longrightarrow> as_f64 sj n = Some f \<longrightarrow> from_f64 sj f = Some n)"

text \<open>
  The values that come back. Strings and keys are UTF-8, numbers are in the range of \<^verbatim>\<open>i64\<close> or doubles,
  inserting the entries of a map in iteration order rebuilds the map, and an array fits into memory.
\<close>

fun json_ok :: "'n serde_json \<Rightarrow> 'n json \<Rightarrow> bool" where
  "json_ok sj J_Null = True"
| "json_ok sj (J_Bool b) = True"
| "json_ok sj (J_Number n) = (as_i64 sj n \<noteq> None \<or> as_u64 sj n = None \<and> as_f64 sj n \<noteq> None)"
| "json_ok sj (J_String s) = utf8_valid s"
| "json_ok sj (J_Array items) = (length items * size_of_value sj \<le> isize_max \<and> list_all (json_ok sj) items)"
| "json_ok sj (J_Object m) =
     (list_all (\<lambda>entry. utf8_valid (fst entry) \<and> json_ok sj (snd entry)) m \<and>
      foldl (\<lambda>acc entry. map_insert sj acc (fst entry) (snd entry)) [] m = m)"

lemma word_count: "Suc n < usize_bound \<Longrightarrow> (word_of_nat (Suc n) :: u64) \<noteq> 0" "(word_of_nat (Suc n) :: u64) - 1 = word_of_nat n"
proof -
  assume "Suc n < usize_bound"
  then have "unat (word_of_nat (Suc n) :: u64) = Suc n" by (rule unat_usize_length)
  then show "(word_of_nat (Suc n) :: u64) \<noteq> 0" by (metis nat.distinct(1) unat_0)
qed simp

lemma decode_items_image:
  assumes "small (pre @ concat (map (node_image sj) items) @ post)" and "length items < fuel"
    and "\<And>v p q. v \<in> set items \<Longrightarrow> p @ node_image sj v @ q = pre @ concat (map (node_image sj) items) @ post \<Longrightarrow>
      length pre \<le> length p \<Longrightarrow> \<exists>n. node (p @ node_image sj v @ q) (length p) = Some (Ok (v, n))"
  defines "len \<equiv> length (concat (map (node_image sj) items))"
  shows "decode_items node fuel (pre @ concat (map (node_image sj) items) @ post)
      \<lparr>it_cursor = length pre, it_end = length pre + len, it_remaining = word_of_nat (length items)\<rparr> acc start last_end =
    Some (Ok (acc @ items, if items = [] then start else Some (case start of None \<Rightarrow> length pre | Some s \<Rightarrow> s),
      if items = [] then last_end else Some (length pre + len)))"
  using assms(1-3) unfolding len_def
proof (induction items arbitrary: pre fuel acc start last_end)
  case Nil
  then show ?case by (cases fuel) (simp_all add: array_iter_next_def)
next
  case (Cons v items)
  let ?body = "concat (map (node_image sj) items)" and ?i = "node_image sj v"
  let ?buf = "pre @ ?i @ ?body @ post"
  obtain f where f: "fuel = Suc f" using Cons.prems(2) by (cases fuel) auto
  have sm: "small (pre @ ?i @ (?body @ post))" using Cons.prems(1) by simp
  have cnt: "Suc (length items) < usize_bound"
    using Cons.prems(1) count_le_length(1) [of "v # items" sj] by (simp add: small_def)
  obtain n where n: "node ?buf (length pre) = Some (Ok (v, n))"
    using Cons.prems(3) [of v pre "?body @ post"] by auto
  have next_item: "array_iter_next ?buf
      \<lparr>it_cursor = length pre, it_end = length pre + (length ?i + length ?body), it_remaining = word_of_nat (Suc (length items))\<rparr> =
    Some (Ok ((length pre, length ?i),
      \<lparr>it_cursor = length (pre @ ?i), it_end = length (pre @ ?i) + length ?body, it_remaining = word_of_nat (length items)\<rparr>))"
    using node_span_image [OF sm] word_count [of "length items"] cnt length_node_image_pos [of sj v] Cons.prems(1)
    by (simp add: array_iter_next_def Let_def small_def del: of_nat_Suc)
  have rest: "decode_items node f ((pre @ ?i) @ ?body @ post)
      \<lparr>it_cursor = length (pre @ ?i), it_end = length (pre @ ?i) + length ?body, it_remaining = word_of_nat (length items)\<rparr> a s e =
    Some (Ok (a @ items, if items = [] then s else Some (case s of None \<Rightarrow> length (pre @ ?i) | Some s \<Rightarrow> s),
      if items = [] then e else Some (length (pre @ ?i) + length ?body)))" for a s e
    using Cons.prems f by (intro Cons.IH) auto
  show ?case
    using next_item rest n f Cons.prems(1)
    by (simp add: Let_def small_def del: of_nat_Suc split: option.splits)
qed

lemma decode_fields_image:
  assumes "small (pre @ concat (map (field_image sj) m) @ post)" and "length m < fuel"
    and "list_all (\<lambda>entry. utf8_valid (fst entry)) m"
    and "\<And>k v p q. (k, v) \<in> set m \<Longrightarrow> p @ node_image sj v @ q = pre @ concat (map (field_image sj) m) @ post \<Longrightarrow>
      length pre \<le> length p \<Longrightarrow> \<exists>n. node (p @ node_image sj v @ q) (length p) = Some (Ok (v, n))"
  defines "len \<equiv> length (concat (map (field_image sj) m))"
  shows "decode_fields sj node fuel (pre @ concat (map (field_image sj) m) @ post)
      \<lparr>it_cursor = length pre, it_end = length pre + len, it_remaining = word_of_nat (length m)\<rparr> acc =
    Some (Ok (foldl (\<lambda>acc entry. map_insert sj acc (fst entry) (snd entry)) acc m))"
  using assms(1-4) unfolding len_def
proof (induction m arbitrary: pre fuel acc)
  case Nil
  then show ?case by (cases fuel) (simp_all add: object_iter_next_def)
next
  case (Cons entry m)
  obtain key v where entry: "entry = (key, v)" by fastforce
  have fi: "field_image sj (key, v) = text_image key @ node_image sj v" by (simp add: field_image_def)
  let ?body = "concat (map (field_image sj) m)" and ?k = "text_image key" and ?i = "node_image sj v"
  let ?buf = "pre @ ?k @ ?i @ ?body @ post"
  obtain f where f: "fuel = Suc f" using Cons.prems(2) by (cases fuel) auto
  have sm: "small (pre @ ?k @ (?i @ ?body @ post))" and sm': "small ((pre @ ?k) @ ?i @ (?body @ post))"
    using Cons.prems(1) by (simp_all add: entry fi)
  have cnt: "Suc (length m) < usize_bound"
    using Cons.prems(1) count_le_length(2) [of "entry # m" sj] by (simp add: small_def)
  obtain n where n: "node ?buf (length pre + length ?k) = Some (Ok (v, n))"
    using Cons.prems(4) [of key v "pre @ ?k" "?body @ post"] by (auto simp: entry fi)
  have tag: "read_tag ?buf (length pre) = Ok TAG_TEXT" by (simp add: text_image_def)
  have k: "0 < length ?k" by (simp add: text_image_def)
  have next_item: "object_iter_next ?buf
      \<lparr>it_cursor = length pre, it_end = length pre + (length ?k + (length ?i + length ?body)), it_remaining = word_of_nat (Suc (length m))\<rparr> =
    Some (Ok ((key, length pre + length ?k, length ?i),
      \<lparr>it_cursor = length (pre @ ?k @ ?i), it_end = length (pre @ ?k @ ?i) + length ?body, it_remaining = word_of_nat (length m)\<rparr>))"
    using node_span_image [OF sm'] read_bytes_payload_image [OF sm] word_count [of "length m"] cnt tag k Cons.prems(1)
    by (simp add: object_iter_next_def Let_def small_def entry fi del: of_nat_Suc)
  have rest: "decode_fields sj node f ((pre @ ?k @ ?i) @ ?body @ post)
      \<lparr>it_cursor = length (pre @ ?k @ ?i), it_end = length (pre @ ?k @ ?i) + length ?body, it_remaining = word_of_nat (length m)\<rparr> a =
    Some (Ok (foldl (\<lambda>acc entry. map_insert sj acc (fst entry) (snd entry)) a m))" for a
  proof (rule Cons.IH)
    fix k w p q
    assume "(k, w) \<in> set m" and "p @ node_image sj w @ q = (pre @ ?k @ ?i) @ ?body @ post" and "length (pre @ ?k @ ?i) \<le> length p"
    then show "\<exists>n. node (p @ node_image sj w @ q) (length p) = Some (Ok (w, n))"
      using Cons.prems(4) [of k w p q] by (simp add: entry fi)
  qed (use Cons.prems f in \<open>simp_all add: entry fi\<close>)
  show ?case
    using next_item rest n f Cons.prems(3)
    by (simp add: Let_def entry fi add.assoc del: of_nat_Suc)
qed

lemma decode_number_image:
  assumes "serde_numbers sj" and "json_ok sj (J_Number n)" and "small (pre @ encode_number sj n [] @ post)"
  shows "decode_node sj (Suc f) (pre @ encode_number sj n [] @ post) (length pre) =
    Some (Ok (J_Number n, length (encode_number sj n [])))"
proof (cases "as_i64 sj n")
  case (Some i)
  then have "from_i64 sj i = n" using assms(1) by (simp add: serde_numbers_def)
  then show ?thesis
    using Some assms(3) read_varint_image_1 [of pre TAG_INTEGER "zigzag_encode i" post]
    by (simp add: encode_number_def write_varint_append decode_node.simps)
next
  case None
  then obtain d where d: "as_u64 sj n = None" "as_f64 sj n = Some d" using assms(2) by auto
  then have "from_f64 sj d = Some n" using assms(1) None by (simp add: serde_numbers_def)
  then show ?thesis
    using None d by (simp add: encode_number_def decode_node.simps decode_real_def slice_range_def bslice_def)
qed

declare decode_items.simps [simp del] decode_fields.simps [simp del]

lemma decode_array_image:
  fixes sj items pre post
  defines "body \<equiv> concat (map (node_image sj) items)"
  defines "img \<equiv> composite_image TAG_ARRAY (length items) body"
  assumes sm: "small (pre @ img @ post)" and cap: "length items * size_of_value sj \<le> isize_max"
    and node: "\<And>v p q. v \<in> set items \<Longrightarrow> p @ node_image sj v @ q = pre @ img @ post \<Longrightarrow> length pre < length p \<Longrightarrow>
      \<exists>n. node (p @ node_image sj v @ q) (length p) = Some (Ok (v, n))"
  shows "decode_array sj node (pre @ img @ post) (length pre) = Some (Ok (J_Array items, length img))"
proof -
  note small_count = count_small(1) [OF sm [unfolded img_def body_def]]
  note parts = composite_parts [OF sm [unfolded img_def] small_count, folded img_def]
  define hd' where "hd' = TAG_ARRAY # varint (word_of_nat (length items)) @ varint (word_of_nat (length body))"
  have img: "img = hd' @ body" by (simp add: img_def composite_image_def hd'_def)
  then have buf: "pre @ img @ post = (pre @ hd') @ body @ post" by simp
  define c where "c = length (pre @ hd')"
  have iter: "array_iter_new (pre @ img @ post) (length pre) =
      Ok \<lparr>it_cursor = c, it_end = c + length body, it_remaining = word_of_nat (length items)\<rparr>"
    using composite_iter_image(1) [OF sm [unfolded img_def] small_count refl, folded img_def] by (simp add: img c_def)
  have sm': "small ((pre @ hd') @ body @ post)" using sm buf by simp
  have walk: "decode_items node (length (pre @ img @ post) + 1) (pre @ img @ post)
      \<lparr>it_cursor = c, it_end = c + length body, it_remaining = word_of_nat (length items)\<rparr> [] None None =
    Some (Ok (items, if items = [] then None else Some c, if items = [] then None else Some (c + length body)))"
    unfolding buf c_def body_def
  proof (subst decode_items_image)
    show "small ((pre @ hd') @ concat (map (node_image sj) items) @ post)" using sm' by (simp add: body_def)
    show "length items < length ((pre @ hd') @ concat (map (node_image sj) items) @ post) + 1"
      using count_le_length(1) [of items sj] by simp
    fix v p q
    assume "v \<in> set items" and "p @ node_image sj v @ q = (pre @ hd') @ concat (map (node_image sj) items) @ post"
      and "length (pre @ hd') \<le> length p"
    then show "\<exists>n. node (p @ node_image sj v @ q) (length p) = Some (Ok (v, n))"
      using node [of v p q] buf by (simp add: body_def hd'_def)
  qed simp
  have sub: "wrapping_sub_usize (c + length body) c = length body"
    using sm' by (subst wrapping_sub_usize_le) (simp_all add: small_def c_def)
  have fin: "decode_array_end (pre @ img @ post) (length pre) (length items)
      (items, if items = [] then None else Some c, if items = [] then None else Some (c + length body)) =
    Ok (J_Array items, length img)"
    using parts sub by (cases "items = []") (simp_all add: decode_array_end_def body_def del: rbind_Ok_iff)
  show ?thesis
    unfolding decode_array_def using iter walk fin cap parts(5) by (simp add: vec_with_capacity_def)
qed

lemma decode_object_image:
  fixes sj m pre post
  defines "body \<equiv> concat (map (field_image sj) m)"
  defines "img \<equiv> composite_image TAG_OBJECT (length m) body"
  assumes sm: "small (pre @ img @ post)" and keys: "list_all (\<lambda>entry. utf8_valid (fst entry)) m"
    and ins: "foldl (\<lambda>acc entry. map_insert sj acc (fst entry) (snd entry)) [] m = m"
    and node: "\<And>k v p q. (k, v) \<in> set m \<Longrightarrow> p @ node_image sj v @ q = pre @ img @ post \<Longrightarrow> length pre < length p \<Longrightarrow>
      \<exists>n. node (p @ node_image sj v @ q) (length p) = Some (Ok (v, n))"
  shows "decode_object sj node (pre @ img @ post) (length pre) = Some (Ok (J_Object m, length img))"
proof -
  note small_count = count_small(2) [OF sm [unfolded img_def body_def]]
  note parts = composite_parts [OF sm [unfolded img_def] small_count, folded img_def]
  define hd' where "hd' = TAG_OBJECT # varint (word_of_nat (length m)) @ varint (word_of_nat (length body))"
  have img: "img = hd' @ body" by (simp add: img_def composite_image_def hd'_def)
  then have buf: "pre @ img @ post = (pre @ hd') @ body @ post" by simp
  define c where "c = length (pre @ hd')"
  have iter: "object_iter_new (pre @ img @ post) (length pre) =
      Ok \<lparr>it_cursor = c, it_end = c + length body, it_remaining = word_of_nat (length m)\<rparr>"
    using composite_iter_image(2) [OF sm [unfolded img_def] small_count refl, folded img_def] by (simp add: img c_def)
  have walk: "decode_fields sj node (length (pre @ img @ post) + 1) (pre @ img @ post)
      \<lparr>it_cursor = c, it_end = c + length body, it_remaining = word_of_nat (length m)\<rparr> [] = Some (Ok m)"
    unfolding buf c_def body_def
  proof (subst decode_fields_image)
    show "small ((pre @ hd') @ concat (map (field_image sj) m) @ post)" using sm buf by (simp add: body_def)
    show "length m < length ((pre @ hd') @ concat (map (field_image sj) m) @ post) + 1"
      using count_le_length(2) [of m sj] by simp
    fix k v p q
    assume "(k, v) \<in> set m" and "p @ node_image sj v @ q = (pre @ hd') @ concat (map (field_image sj) m) @ post"
      and "length (pre @ hd') \<le> length p"
    then show "\<exists>n. node (p @ node_image sj v @ q) (length p) = Some (Ok (v, n))"
      using node [of k v p q] buf by (simp add: body_def hd'_def)
  qed (simp_all add: keys ins)
  have fin: "decode_object_end (pre @ img @ post) (length pre) (length m) m = Ok (J_Object m, length img)"
    using parts by (simp add: decode_object_end_def del: rbind_Ok_iff)
  show ?thesis unfolding decode_object_def using iter walk fin parts(5) by simp
qed

lemma nested_fuel:
  assumes "p @ i @ q = pre @ img @ post" and "length pre < length p" and "length (img @ post) < Suc f"
  shows "length (i @ q) < f"
  using arg_cong [OF assms(1), of length] assms(2,3) by simp

lemma decode_node_image:
  assumes "serde_numbers sj" and "json_ok sj v" and "small (pre @ node_image sj v @ post)"
    and "length (node_image sj v @ post) < fuel"
  shows "decode_node sj fuel (pre @ node_image sj v @ post) (length pre) = Some (Ok (v, length (node_image sj v)))"
  using assms(2-4)
proof (induction v arbitrary: pre post fuel)
  case (J_Number n)
  then show ?case using decode_number_image [OF assms(1)] by (cases fuel) (simp_all add: node_image_simps)
next
  case (J_String s)
  then show ?case
    using read_bytes_payload_image [of pre s post]
    by (cases fuel) (simp_all add: node_image_simps decode_node.simps decode_text_def read_tag_def text_image_def)
next
  case (J_Array items)
  obtain f where f: "fuel = Suc f" using J_Array.prems(3) by (cases fuel) auto
  let ?img = "node_image sj (J_Array items)"
  have "decode_array sj (decode_node sj f) (pre @ ?img @ post) (length pre) = Some (Ok (J_Array items, length ?img))"
    unfolding node_image_simps
  proof (rule decode_array_image, goal_cases)
    case (3 v p q)
    then show ?case
      using J_Array.IH [of v p q f] J_Array.prems f nested_fuel [of p "node_image sj v" q pre ?img post f]
      by (auto simp: list_all_iff node_image_simps)
  qed (use J_Array.prems in \<open>simp_all add: node_image_simps\<close>)
  then show ?case by (simp add: f decode_node.simps read_tag_def node_image_simps composite_image_def)
next
  case (J_Object m)
  obtain f where f: "fuel = Suc f" using J_Object.prems(3) by (cases fuel) auto
  let ?img = "node_image sj (J_Object m)"
  have "decode_object sj (decode_node sj f) (pre @ ?img @ post) (length pre) = Some (Ok (J_Object m, length ?img))"
    unfolding node_image_simps
  proof (rule decode_object_image, goal_cases)
    case (4 k v p q)
    then show ?case
      using J_Object.IH [of "(k, v)" v p q f] J_Object.prems f nested_fuel [of p "node_image sj v" q pre ?img post f]
      by (auto simp: list_all_iff node_image_simps)
  qed (use J_Object.prems in \<open>simp_all add: node_image_simps list_all_iff\<close>)
  then show ?case by (simp add: f decode_node.simps read_tag_def node_image_simps composite_image_def)
next
  case J_Null
  then show ?case by (cases fuel) (simp_all add: node_image_simps decode_node.simps)
next
  case (J_Bool b)
  then show ?case by (cases fuel) (simp_all add: node_image_simps decode_node.simps)
qed

section \<open>Properties\<close>

lemma jsonb_encode_image: "jsonb_encode sj v = [MAGIC, FORMAT_VERSION] @ node_image sj v"
  by (simp add: jsonb_encode_def encode_node_append)

lemma parse_preamble_ok [simp]: "parse_preamble (MAGIC # FORMAT_VERSION # rest) = Ok 2"
  by (simp add: parse_preamble_def)

lemma small_vec: "length bytes \<le> isize_max \<Longrightarrow> small bytes"
  by (simp add: small_def isize_max_def usize_bound_def)

text \<open>
  C11. Decoding the encoding of a JSON value gives the value back, for every value whose strings are
  UTF-8 and whose numbers are in the range of \<^verbatim>\<open>i64\<close> or doubles.
\<close>

theorem jsonb_roundtrip:
  assumes "serde_numbers sj" and "json_ok sj v" and "length (jsonb_encode sj v) \<le> isize_max"
  shows "jsonb_decode sj (jsonb_encode sj v) = Some (Ok v)"
proof -
  have "small ([MAGIC, FORMAT_VERSION] @ node_image sj v @ [])"
    using small_vec [OF assms(3)] by (simp add: jsonb_encode_image)
  from decode_node_image [OF assms(1,2) this, of "length (jsonb_encode sj v) + 1"]
  show ?thesis by (simp add: jsonb_decode_def jsonb_encode_image numeral_2_eq_2)
qed

text \<open>A library of numbers that are an integer or a double, and of maps in order of insertion.\<close>

definition sample_serde :: "(i64 + u64) serde_json" where
  "sample_serde = \<lparr>as_i64 = (\<lambda>n. case n of Inl i \<Rightarrow> Some i | Inr _ \<Rightarrow> None), as_u64 = (\<lambda>_. None),
     as_f64 = (\<lambda>n. case n of Inl _ \<Rightarrow> None | Inr d \<Rightarrow> Some d), from_i64 = Inl, from_f64 = (\<lambda>d. Some (Inr d)),
     map_insert = (\<lambda>m k v. filter (\<lambda>entry. fst entry \<noteq> k) m @ [(k, v)]), size_of_value = 32\<rparr>"

definition sample_json :: "(i64 + u64) json" where
  "sample_json = J_Object [([97], J_Array [J_Number (Inl (- 3)), J_Null]), ([98], J_String [104, 105])]"

lemma sample_serde_numbers: "serde_numbers sample_serde"
  by (auto simp: serde_numbers_def sample_serde_def split: sum.splits)

theorem jsonb_roundtrip_witness:
  "jsonb_decode sample_serde (jsonb_encode sample_serde sample_json) = Some (Ok sample_json)"
proof (rule jsonb_roundtrip)
  show "serde_numbers sample_serde" by (rule sample_serde_numbers)
  show "json_ok sample_serde sample_json" by (simp add: sample_json_def sample_serde_def isize_max_def)
  have "length (jsonb_encode sample_serde sample_json) = 21" by code_simp
  then show "length (jsonb_encode sample_serde sample_json) \<le> isize_max" by (simp add: isize_max_def)
qed

text \<open>
  C12. The decoder returns on every input: however the counts and lengths in the bytes are chosen,
  its loops and its recursion end after at most one step per byte.
\<close>

theorem jsonb_decode_terminates:
  assumes "length bytes \<le> isize_max"
  shows "\<exists>r. jsonb_decode sj bytes = Some r"
proof -
  have "returns (decode_node sj (length bytes + 1) bytes off)" for off
    using small_length [OF small_vec [OF assms]] by (intro decode_node_returns) simp_all
  then have "returns (jsonb_decode sj bytes)"
    unfolding jsonb_decode_def by (intro returns_obind) auto
  then show ?thesis by (simp add: returns_def)
qed

text \<open>An array that claims to hold itself: one element whose length wraps the cursor back.\<close>

theorem jsonb_decode_terminates_witness:
  "\<exists>r. jsonb_decode sample_serde ([MAGIC, FORMAT_VERSION, TAG_ARRAY, 2, 3, TAG_TEXT] @ replicate 9 255 @ [1]) = Some r"
  by (rule jsonb_decode_terminates) (simp add: isize_max_def)

fun has_kind :: "'n json \<Rightarrow> node_kind \<Rightarrow> bool" where
  "has_kind v K_Null = (v = J_Null)"
| "has_kind v (K_Bool b) = (v = J_Bool b)"
| "has_kind v K_Integer = (\<exists>n. v = J_Number n)"
| "has_kind v K_Real = (v = J_Null \<or> (\<exists>n. v = J_Number n))"
| "has_kind v K_Text = (\<exists>s. v = J_String s)"
| "has_kind v K_Blob = (\<exists>s. v = J_String s)"
| "has_kind v K_Array = (\<exists>items. v = J_Array items)"
| "has_kind v K_Object = (\<exists>m. v = J_Object m)"

lemma decode_array_kind: "decode_array sj node buf off = Some (Ok (v, n)) \<Longrightarrow> \<exists>items. v = J_Array items"
  by (auto simp: decode_array_def decode_array_end_def obind_Ok_iff Let_def split: if_splits option.splits prod.splits)

lemma decode_object_kind: "decode_object sj node buf off = Some (Ok (v, n)) \<Longrightarrow> \<exists>m. v = J_Object m"
  by (auto simp: decode_object_def decode_object_end_def obind_Ok_iff Let_def split: if_splits prod.splits)



lemma length_varint: "unat v < 2 ^ (7 * Suc k) \<Longrightarrow> length (varint v) \<le> Suc k"
proof (induction k arbitrary: v)
  case 0
  then show ?case by (simp add: varint_simps word_le_nat_alt)
next
  case (Suc k)
  have "unat (drop_bit 7 v) < 2 ^ (7 * Suc k)"
    using Suc.prems by (simp add: drop_bit_eq_div unat_div power_add less_mult_imp_div_less mult.commute)
  from Suc.IH [OF this] show ?case by (cases "v \<ge> 0x80") (simp_all add: varint_simps)
qed

lemma length_composite_image: "length (composite_image t n body) \<le> 21 + length body"
proof -
  have "length (varint v) \<le> 10" for v
    using length_varint [of v 9] unat_word_bound [of v] by simp
  from add_mono [OF this [of "word_of_nat n"] this [of "word_of_nat (length body)"]]
  show ?thesis by (simp add: composite_image_def)
qed

lemma decode_node_composite:
  "decode_node sj (Suc f) (pre @ composite_image TAG_ARRAY n body @ post) (length pre) =
     decode_array sj (decode_node sj f) (pre @ composite_image TAG_ARRAY n body @ post) (length pre)"
  "decode_node sj (Suc f) (pre @ composite_image TAG_OBJECT n body @ post) (length pre) =
     decode_object sj (decode_node sj f) (pre @ composite_image TAG_OBJECT n body @ post) (length pre)"
  by (simp_all add: decode_node.simps read_tag_def composite_image_def)

lemma jsonb_decode_document:
  assumes "pre = [MAGIC, FORMAT_VERSION]"
  shows "jsonb_decode sj (pre @ img @ []) =
    obind (decode_node sj (Suc (length (pre @ img @ []))) (pre @ img @ []) (length pre)) (\<lambda>(v, consumed).
    Some (if consumed \<noteq> length img then Err (InvalidJsonb ''trailing bytes after root'') else Ok v))"
  using assms by (simp add: jsonb_decode_def) (simp add: numeral_2_eq_2)

text \<open>
  C39. The header of the decoder says that malformed input never panics. Ten more bytes suffice: an array
  that claims \<open>2^63\<close> elements makes the decoder reserve room for them before it looks at its body.
\<close>

theorem jsonb_decode_capacity_panic:
  assumes "0 < size_of_value sj"
  shows "jsonb_decode sj ([MAGIC, FORMAT_VERSION] @ composite_image TAG_ARRAY (2 ^ 63) []) = Some Panic"
proof -
  define pre where "pre = [MAGIC, FORMAT_VERSION]"
  have sm: "small (pre @ composite_image TAG_ARRAY (2 ^ 63) [] @ [])"
    using length_composite_image [of TAG_ARRAY "2 ^ 63" "[]"] by (intro small_vec) (simp add: isize_max_def pre_def)
  have n: "(2 :: nat) ^ 63 < usize_bound" by (simp add: usize_bound_def)
  have "vec_with_capacity (size_of_value sj) (2 ^ 63) = Panic"
    using assms by (cases "size_of_value sj") (simp_all add: vec_with_capacity_def isize_max_def)
  then have "decode_array sj node (pre @ composite_image TAG_ARRAY (2 ^ 63) [] @ []) (length pre) = Some Panic" for node
    unfolding decode_array_def composite_iter_image(1) [OF sm n refl] using composite_parts(5) [OF sm n] by simp
  then have "jsonb_decode sj (pre @ composite_image TAG_ARRAY (2 ^ 63) [] @ []) = Some Panic"
    unfolding jsonb_decode_document [OF pre_def] decode_node_composite by simp
  then show ?thesis by (simp add: pre_def)
qed

theorem jsonb_decode_capacity_panic_witness:
  "jsonb_decode sample_serde ([MAGIC, FORMAT_VERSION] @ composite_image TAG_ARRAY (2 ^ 63) []) = Some Panic"
  by (rule jsonb_decode_capacity_panic) (simp add: sample_serde_def)

text \<open>
  C40. The decoder of objects accepts any bytes behind the last entry: an object without entries whose body is
  arbitrary bytes decodes to the empty object, while the same array is rejected. The source says that the length
  of the body has been validated.
\<close>

theorem jsonb_object_body_unchecked:
  assumes "length junk + 100 \<le> isize_max" and "junk \<noteq> []"
  shows "jsonb_decode sj ([MAGIC, FORMAT_VERSION] @ composite_image TAG_OBJECT 0 junk) = Some (Ok (J_Object [])) \<and>
    jsonb_decode sj ([MAGIC, FORMAT_VERSION] @ composite_image TAG_ARRAY 0 junk) =
      Some (Err (InvalidJsonb ''array body length mismatch''))"
proof -
  define pre where "pre = [MAGIC, FORMAT_VERSION]"
  have sm: "small (pre @ composite_image t 0 junk @ [])" for t
    using length_composite_image [of t 0 junk] assms(1) by (intro small_vec) (simp add: pre_def)
  have j: "(word_of_nat (length junk) :: u64) \<noteq> 0"
    using composite_parts(6) [OF sm [of TAG_ARRAY] usize_bound_pos] assms(2) by (metis length_0_conv unat_0)
  have "decode_object sj node (pre @ composite_image TAG_OBJECT 0 junk @ []) (length pre) =
      Some (Ok (J_Object [], length (composite_image TAG_OBJECT 0 junk)))" for node
    using composite_parts [OF sm [of TAG_OBJECT] usize_bound_pos] unfolding decode_object_def composite_iter_image(2) [OF sm usize_bound_pos refl]
    by (simp add: decode_fields.simps object_iter_next_def decode_object_end_def del: rbind_Ok_iff)
  then have obj: "jsonb_decode sj (pre @ composite_image TAG_OBJECT 0 junk @ []) = Some (Ok (J_Object []))"
    unfolding jsonb_decode_document [OF pre_def] decode_node_composite by simp
  have "decode_array sj node (pre @ composite_image TAG_ARRAY 0 junk @ []) (length pre) =
      Some (Err (InvalidJsonb ''array body length mismatch''))" for node
    using composite_parts [OF sm [of TAG_ARRAY] usize_bound_pos] j unfolding decode_array_def composite_iter_image(1) [OF sm usize_bound_pos refl]
    by (simp add: decode_items.simps array_iter_next_def decode_array_end_def vec_with_capacity_def)
  then have "jsonb_decode sj (pre @ composite_image TAG_ARRAY 0 junk @ []) =
      Some (Err (InvalidJsonb ''array body length mismatch''))"
    unfolding jsonb_decode_document [OF pre_def] decode_node_composite by simp
  with obj show ?thesis by (simp add: pre_def)
qed

theorem jsonb_object_body_unchecked_witness:
  "jsonb_decode sample_serde ([MAGIC, FORMAT_VERSION] @ composite_image TAG_OBJECT 0 [255]) = Some (Ok (J_Object []))"
  using jsonb_object_body_unchecked [of "[255]" sample_serde] by (simp add: isize_max_def)

end
