(* ===== verification/Spec2Isabelle.thy ===== *)
theory Spec2Isabelle
  imports Mem_Heap Csn_Frontier Wal_Group_Commit Index_Key Row_Lock Control_Store Json_Codec
begin

text \<open>
  Verification of the storage kernel of RedlineDB (\<^verbatim>\<open>src/crates/kernel/src\<close>; the paths below are
  relative to it).

  \<^bold>\<open>The program.\<close> The kernel stores rows as versions in slotted pages, with older versions in undo
  records. A transaction takes a snapshot from the transaction status, changes rows under row locks
  and commits through the write-ahead log. Clients append to a queue of the log, a writer thread
  writes and flushes it in groups, and a commit waits for its position to become durable. A
  checkpoint saves the table of transaction outcomes and then a control file that names it. Index
  keys are byte strings whose order is the order of the rows.

  \<^bold>\<open>Conventions\<close> (\<open>Redline_Prelude\<close>, \<open>Format_Bytes\<close>). Fixed-width integers are words and wrap as in a
  release build; \<^verbatim>\<open>usize\<close> is a natural number with the bound \<open>2^64\<close> where the code checks it. A call
  returns \<open>Ok\<close>, \<open>Err\<close> with the error of \<^verbatim>\<open>error.rs\<close>, or \<open>Panic\<close>; operations with state are functions
  from a state to a result and a new state, so the state left behind by a failing call is visible.
  CRC-32 comes from a library and is a parameter \<open>crc\<close>; where a property relies on it the assumption is
  named (\<open>detects_byte_errors\<close>). The locale \<open>byte_codec\<close> is the contract of the on-disk formats, and
  the tuple, undo, log record, payload, control file and outcome table formats interpret it.

  \<^bold>\<open>Pages and rows.\<close>
  \<^item> \<open>Format_Page\<close>, \<open>Page_Cells\<close>: \<^verbatim>\<open>format/page\<close>. Every operation on a well-formed page keeps it
    well-formed and acts on the list of cells as the list operation of the same name. The locale
    \<open>cell_store\<close> is what the heap relies on.
  \<^item> \<open>Format_Tuple\<close>: \<^verbatim>\<open>format/tuple.rs\<close>, \<^verbatim>\<open>txn/undo.rs\<close>. Round trips.
  \<^item> \<open>Tx_Status\<close>, \<open>Csn_Frontier\<close>: \<^verbatim>\<open>txn/status.rs\<close> and \<^verbatim>\<open>engine/tx/status.rs\<close>, both behind the locale
    \<open>tx_states\<close>. What a snapshot shows does not change afterwards, and the frontier of commit
    numbers catches up when every transaction has ended. Each critical section is one step.
  \<^item> \<open>Mem_Heap\<close>: \<^verbatim>\<open>heap/mem.rs\<close>. A heap is read as a history of versions per row; insert, update and
    delete extend it and get returns the newest visible version. The walk along the undo chain is
    a partial function, and it is proved to return on every heap that satisfies the invariant.

  \<^bold>\<open>Log.\<close>
  \<^item> \<open>Wal_Record\<close>, \<open>Wal_Payload\<close>, \<open>Wal_Segment\<close>: \<^verbatim>\<open>wal/record.rs\<close>, \<^verbatim>\<open>wal/payload.rs\<close>, \<^verbatim>\<open>wal/segment.rs\<close>.
    Formats, round trips, detection of damaged bytes, and the inputs on which decoding panics.
  \<^item> \<open>Wal_Log\<close>: \<^verbatim>\<open>wal/manager/storage\<close> over files with a synced part. A crash keeps the synced part
    and any prefix of the rest. Appended records are scanned back, flushed ones survive a crash,
    and opening the log again restores it.
  \<^item> \<open>Wal_Policy\<close>: \<^verbatim>\<open>wal/policy.rs\<close>; the four policies interpret the locale \<open>wal_schedule_policy\<close>.
  \<^item> \<open>Wal_Coordinator\<close>, \<open>Wal_Group_Commit\<close>: \<^verbatim>\<open>wal/manager/coordinator\<close> and \<^verbatim>\<open>wal/combiner.rs\<close>. The writer
    loop is a step function between its lock regions and \<open>coord_reach\<close> interleaves it with the
    clients. A returned flush survives a crash, positions stay ordered, and a requested flush is
    served. These properties are for a non-volatile log with segments below 4 GiB and the
    combiner off, on which no record ends exactly at a segment boundary; the last condition is
    needed, because the writer fails there (\<open>full_segment_stops_writer\<close>).

  \<^bold>\<open>Locks, keys and checkpoints.\<close>
  \<^item> \<open>Row_Lock\<close>: \<^verbatim>\<open>engine/lock.rs\<close>. At most one owner per row; a released row goes to the first waiter
    unless a thread wakes spuriously, for which a lost hand-over is shown. The hash of a key is a
    parameter, and a time-out is an event that may happen at any time.
  \<^item> \<open>Index_Key\<close>: \<^verbatim>\<open>catalog/key.rs\<close>, \<^verbatim>\<open>index/keycmp\<close>. The byte order of keys is the order of rows, and
    the vectorised comparison agrees with the plain one.
  \<^item> \<open>Control_Store\<close>: \<^verbatim>\<open>storage/control.rs\<close>, \<^verbatim>\<open>storage/tx_status_checkpoint.rs\<close>. Through any sequence of
    completed and interrupted checkpoints the last completed one is loaded, with its table. An
    interrupted control file is assumed to be rejected by its decoder, which is proved of every
    proper prefix and of a file of zeros. Generations are assumed not to wrap.

  \<^bold>\<open>Binary JSON.\<close>
  \<^item> \<open>Json_Wire\<close>: \<^verbatim>\<open>json/wire\<close>. Variable-length integers, extents of nodes, and the iterators over children,
    with the additions that can wrap written as such.
  \<^item> \<open>Json_Codec\<close>: \<^verbatim>\<open>json/encode.rs\<close>, \<^verbatim>\<open>json/decode.rs\<close>. The decoder has fuel: one level per byte for nesting and
    one round per byte for a loop, which is proved to be enough for every input. Encoded values decode
    to themselves, and the kind of a document is the type of its value. Two inputs are shown on which the
    decoder does not do what its comments say. The library \<^verbatim>\<open>serde_json\<close> is a parameter.

  \<^bold>\<open>Not modelled.\<close> The engine's checkpoint handler, recovery, commit and page-backed heap, the buffer
  pool, the B-tree above the keys, JSON paths, and the catalog are left out; so the properties are about the
  components and do not compose into one statement about a whole database. Of a checkpoint only the
  order of its two store writes is modelled. I/O errors other than a missing file, poisoned locks
  and telemetry are left out. The SQL layer, drivers, server and tools are outside the kernel.
\<close>

end
